(* ===== verification/Prelude.thy ===== *)
theory Prelude
  imports Main "HOL-Library.Word" "HOL-Library.Multiset"
begin

text \<open>
  What every component of the model shares.  The widths are those of the
  amd64-linux build of the tool (valgrind's \<open>UInt\<close>, \<open>ULong\<close> and \<open>UWord\<close>); a
  failure of the C code (a failed \<open>tl_assert\<close>, a read through a null pointer, an
  index outside an array) is a value of type \<open>err\<close>, and an operation that can
  fail returns \<open>'a res\<close>.  The sequencing operator of C statements that may fail is
  \<open>bindR\<close>.  The generic lemmas on lists, words and sums that more than one
  component uses are collected here.
\<close>

type_synonym u32 = "32 word"
type_synonym u64 = "64 word"

named_theorems res_simps \<open>rewriting of fallible computations\<close>
named_theorems inv_intros \<open>preservation of the component invariants\<close>

section \<open>Failures as values\<close>

datatype err =
    Assertion string    \<comment> \<open>a failed \<open>APROF_(assert)\<close>, \<open>tl_assert\<close> or \<open>vg_assert\<close>\<close>
  | NullDeref           \<comment> \<open>an access through a null or dangling pointer\<close>
  | OutOfBounds         \<comment> \<open>an access outside the array it addresses\<close>
  | Diverges            \<comment> \<open>a loop that makes no progress and never ends\<close>

type_synonym 'a res = "err + 'a"

definition bindR :: "'a res \<Rightarrow> ('a \<Rightarrow> 'b res) \<Rightarrow> 'b res" where
  "bindR m f = (case m of Inl e \<Rightarrow> Inl e | Inr x \<Rightarrow> f x)"

definition assertR :: "bool \<Rightarrow> string \<Rightarrow> unit res" where
  "assertR b msg = (if b then Inr () else Inl (Assertion msg))"

definition derefR :: "'a option \<Rightarrow> 'a res" where
  "derefR p = (case p of None \<Rightarrow> Inl NullDeref | Some x \<Rightarrow> Inr x)"

lemma bindR_simps [simp]:
  "bindR (Inr x) f = f x"
  "bindR (Inl e) f = Inl e"
  by (simp_all add: bindR_def)

lemma bindR_eq_Inr [res_simps]:
  "bindR m f = Inr y \<longleftrightarrow> (\<exists>x. m = Inr x \<and> f x = Inr y)"
  by (cases m) auto

lemma bindR_assoc: "bindR (bindR m f) g = bindR m (\<lambda>x. bindR (f x) g)"
  by (cases m) auto

lemma bindR_cong [fundef_cong]:
  "m = m' \<Longrightarrow> (\<And>x. m' = Inr x \<Longrightarrow> f x = f' x) \<Longrightarrow> bindR m f = bindR m' f'"
  by (cases m') auto

lemma assertR_eq_Inr [simp]: "assertR b msg = Inr u \<longleftrightarrow> b"
  by (simp add: assertR_def)

lemma assertR_True [simp]: "assertR True msg = Inr ()"
  by (simp add: assertR_def)

lemma derefR_simps [simp]: "derefR (Some x) = Inr x" "derefR None = Inl NullDeref"
  by (simp_all add: derefR_def)

lemma derefR_eq_Inr [simp]: "derefR p = Inr x \<longleftrightarrow> p = Some x"
  by (cases p) auto

text \<open>A loop over a list whose body may fail, and its simulation by a loop that cannot.\<close>

fun foldR :: "('a \<Rightarrow> 's \<Rightarrow> 's res) \<Rightarrow> 'a list \<Rightarrow> 's \<Rightarrow> 's res" where
  "foldR f [] s = Inr s"
| "foldR f (x # xs) s = bindR (f x s) (foldR f xs)"

lemma foldR_simulation:
  assumes "\<And>x s a. x \<in> set xs \<Longrightarrow> R s a \<Longrightarrow> \<exists>s'. f x s = Inr s' \<and> R s' (g x a)" "R s a"
  shows "\<exists>s'. foldR f xs s = Inr s' \<and> R s' (fold g xs a)"
  using assms
proof (induction xs arbitrary: s a)
  case (Cons x xs)
  from Cons.prems(1) [of x s a] Cons.prems(2) obtain s1 where s1: "f x s = Inr s1" "R s1 (g x a)" by auto
  from Cons.IH [OF Cons.prems(1) s1(2)] s1(1) show ?case by auto
qed simp

section \<open>Lists\<close>

lemma sum_list_length_list_update:
  fixes xss :: "'a list list"
  assumes "i < length xss"
  shows "sum_list (map length (xss[i := ys])) + length (xss ! i) = sum_list (map length xss) + length ys"
  using assms
  by (induction xss arbitrary: i) (auto split: nat.splits)

lemma mset_concat_list_update:
  assumes "i < length xss"
  shows "mset (concat (xss[i := ys])) + mset (xss ! i) = mset (concat xss) + mset ys"
  using assms
proof (induction xss arbitrary: i)
  case Nil
  then show ?case by simp
next
  case (Cons x xss)
  show ?case
  proof (cases i)
    case 0
    then show ?thesis by simp
  next
    case (Suc j)
    with Cons.prems have "j < length xss" by simp
    from Cons.IH [OF this] Suc show ?thesis
      by (simp add: add.assoc)
  qed
qed

lemma length_concat_mset: "size (mset (concat xss)) = sum_list (map length xss)"
  by (simp add: length_concat)

lemma dropWhile_eq_ConsD:
  assumes "dropWhile P xs = y # ys"
  shows "\<not> P y" "y \<in> set xs" "\<exists>zs. xs = zs @ y # ys \<and> (\<forall>z\<in>set zs. P z)"
proof -
  have "hd (dropWhile P xs) = y" using assms by simp
  then show "\<not> P y" using assms hd_dropWhile [of P xs] by auto
  have d: "xs = takeWhile P xs @ y # ys"
    using takeWhile_dropWhile_id [of P xs] assms by simp
  then show "y \<in> set xs" by (metis in_set_conv_decomp)
  from d show "\<exists>zs. xs = zs @ y # ys \<and> (\<forall>z\<in>set zs. P z)"
    using set_takeWhileD by fastforce
qed

lemma find_dropWhile: "find P (dropWhile (\<lambda>x. \<not> Q x) xs) = find P xs" if "\<And>x. P x \<Longrightarrow> Q x"
  using that by (induction xs) auto

lemma mset_size_le_1:
  assumes "size M \<le> 1" "a \<in># M" "b \<in># M"
  shows "a = b"
proof -
  from assms(2) obtain N where N: "M = add_mset a N" by (blast dest: multi_member_split)
  with assms(1) have "N = {#}" by simp
  with N assms(3) show ?thesis by simp
qed

section \<open>Words\<close>

lemma word_predI: "x = y + 1 \<Longrightarrow> x - 1 = (y :: 'a :: len word)"
  by simp

lemma uint_small: "unat (w :: u32) < 2 ^ 31 \<Longrightarrow> uint w < 2 ^ 31"
  unfolding unat_eq_nat_uint by (subst (asm) nat_less_iff) (auto)
lemma sint_small: "unat (w :: u32) < 2 ^ 31 \<Longrightarrow> sint w = int (unat w)"
proof -
  assume "unat w < 2 ^ 31"
  then have u: "uint w < 2 ^ 31" by (rule uint_small)
  have "- (2 ^ 31) \<le> uint w" by (rule order_trans [OF _ uint_nonnegative]) simp
  with u have "signed_take_bit 31 (uint w) = uint w"
    by (intro signed_take_bit_int_eq_self)
  then show ?thesis by (simp add: sint_uint)
qed
lemma unat_of_nat32: "n < 2 ^ 32 \<Longrightarrow> unat (of_nat n :: u32) = n"
  by (simp add: unat_of_nat take_bit_nat_eq_self)

lemma unat_of_nat_Suc: "Suc n < 2 ^ 32 \<Longrightarrow> unat ((of_nat n :: u32) + 1) = Suc n"
  using unat_of_nat32 [of "Suc n"] by (simp add: add.commute)

lemma unat_less_32: "unat (w :: u32) < 2 ^ 32"
  by (rule order_less_le_trans [OF unsigned_less]) simp

lemma unat_ucast_32_64: "unat (ucast (w :: u32) :: u64) = unat w"
proof -
  have "unat w < 2 ^ 64" using unat_less_32 [of w] by simp
  then show ?thesis by (simp add: unsigned_ucast_eq take_bit_nat_eq_self)
qed

lemma unat_of_nat64: "n < 2 ^ 64 \<Longrightarrow> unat (of_nat n :: u64) = n"
  by (simp add: unat_of_nat take_bit_nat_eq_self)

lemma word_of_unat: "unat (w :: 'a :: len word) = n \<Longrightarrow> w = of_nat n"
  by auto

lemma word_less_plus_1: "n + 1 \<noteq> 0 \<Longrightarrow> x < n + 1 \<longleftrightarrow> x \<le> (n :: 'a :: len word)"
  using unatSuc [of n] by (simp add: word_less_nat_alt word_le_nat_alt add.commute less_Suc_eq_le)

end
