(* ===== verification/HashTable.thy ===== *)
theory HashTable
  imports Prelude
begin

text \<open>
  The separately chained hash table of \<open>hashtable/hashtable.c\<close>.  A chain of intrusive
  nodes is a list of \<open>HashNode\<close>s in link order (the \<open>next\<close> pointer is the tail); the
  iterator's node pointer is its chain and position.  Sizes are kept at the
  width of the C fields, asserts are failures.
\<close>

section \<open>State\<close>

record 'v HashNode =
  key :: u64
  val :: 'v

record 'v HashTable =
  n_chains :: u32
  n_elements :: u32
  iterNode :: "(nat \<times> nat) option"
  iterChain :: u32
  chains :: "'v HashNode list list"
  iterOK :: bool
  free_func :: bool   \<comment> \<open>whether a function to free the nodes was given\<close>

definition primes :: "nat list" where
  "primes = [53, 97, 193, 389, 769, 1543, 3079, 6151, 12289, 24593, 49157, 98317,
     196613, 393241, 786433, 1572869, 3145739, 6291469, 12582917, 25165843,
     50331653, 100663319, 201326611, 402653189]"

definition N_HASH_PRIMES :: nat where
  "N_HASH_PRIMES = 24"

definition CHAIN_NO :: "u64 \<Rightarrow> u32 \<Rightarrow> nat" where
  "CHAIN_NO k n = unat k mod unat n"

section \<open>Operations\<close>

definition HT_construct :: "bool \<Rightarrow> 'v HashTable" where
  "HT_construct func =
     \<lparr>n_chains = of_nat (primes ! 0), n_elements = 0, iterNode = None, iterChain = 0,
      chains = replicate (primes ! 0) [], iterOK = True, free_func = func\<rparr>"

definition HT_count_nodes :: "'v HashTable \<Rightarrow> int" where
  "HT_count_nodes t = sint (n_elements t)"

text \<open>The loop of \<open>resize\<close> that moves every node, chain by chain and in link order, to the
  front of its new chain.\<close>

fun rehash_chain :: "u32 \<Rightarrow> 'v HashNode list \<Rightarrow> 'v HashNode list list \<Rightarrow> 'v HashNode list list" where
  "rehash_chain n [] cs = cs"
| "rehash_chain n (node # next) cs =
     (let chain = CHAIN_NO (key node) n
      in rehash_chain n next (cs[chain := node # cs ! chain]))"

fun rehash :: "u32 \<Rightarrow> 'v HashNode list list \<Rightarrow> 'v HashNode list list \<Rightarrow> 'v HashNode list list" where
  "rehash n [] cs = cs"
| "rehash n (c # old) cs = rehash n old (rehash_chain n c cs)"

definition next_size :: "nat \<Rightarrow> nat" where
  "next_size new_chains = (case find (\<lambda>p. p > new_chains) primes of None \<Rightarrow> new_chains | Some p \<Rightarrow> p)"

definition resize :: "'v HashTable \<Rightarrow> 'v HashTable res" where
  "resize t =
     (let old_chains = unat (n_chains t) in
      if old_chains = primes ! (N_HASH_PRIMES - 1) then Inr t
      else bindR (assertR (primes ! 0 \<le> old_chains \<and> old_chains < primes ! (N_HASH_PRIMES - 1)) ''old_chains'')
       (\<lambda>_. let new_chains = next_size (old_chains + 1) in
        bindR (assertR (new_chains > old_chains) ''new_chains'') (\<lambda>_.
        bindR (assertR (new_chains > primes ! 0 \<and> new_chains \<le> primes ! (N_HASH_PRIMES - 1)) ''new_chains range'')
         (\<lambda>_. Inr (t\<lparr>n_chains := of_nat new_chains,
                    chains := rehash (of_nat new_chains) (chains t) (replicate new_chains [])\<rparr>)))))"

definition HT_add_node :: "'v HashTable \<Rightarrow> u64 \<Rightarrow> 'v HashNode \<Rightarrow> 'v HashTable res" where
  "HT_add_node t k node =
     (let chain = CHAIN_NO k (n_chains t);
          t1 = t\<lparr>chains := (chains t)[chain := node # chains t ! chain], n_elements := n_elements t + 1\<rparr>
      in bindR (if unat (n_elements t1) > unat (n_chains t1) then resize t1 else Inr t1)
           (\<lambda>t2. Inr (t2\<lparr>iterOK := False\<rparr>)))"

text \<open>\<open>HT_chain_from\<close> is the node \<open>HT_lookup\<close> returns with everything linked behind it: the
  callers that keep following \<open>next\<close> from the result walk this list.\<close>

definition HT_chain_from :: "'v HashTable \<Rightarrow> u64 \<Rightarrow> 'v HashNode list" where
  "HT_chain_from t k = dropWhile (\<lambda>n. key n \<noteq> k) (chains t ! CHAIN_NO k (n_chains t))"

definition HT_lookup :: "'v HashTable \<Rightarrow> u64 \<Rightarrow> 'v HashNode option" where
  "HT_lookup t k = (case HT_chain_from t k of [] \<Rightarrow> None | n # _ \<Rightarrow> Some n)"

fun remove_first :: "('a \<Rightarrow> bool) \<Rightarrow> 'a list \<Rightarrow> 'a option \<times> 'a list" where
  "remove_first P [] = (None, [])"
| "remove_first P (x # xs) =
     (if P x then (Some x, xs) else (let (r, ys) = remove_first P xs in (r, x # ys)))"

definition HT_remove :: "'v HashTable \<Rightarrow> u64 \<Rightarrow> 'v HashTable \<times> 'v HashNode option" where
  "HT_remove t k =
     (let chain = CHAIN_NO k (n_chains t);
          t1 = t\<lparr>iterOK := False\<rparr>;
          (r, c) = remove_first (\<lambda>n. key n = k) (chains t ! chain)
      in case r of
           None \<Rightarrow> (t1, None)
         | Some n \<Rightarrow> (t1\<lparr>chains := (chains t)[chain := c], n_elements := n_elements t - 1\<rparr>, Some n))"

definition HT_ResetIter :: "'v HashTable \<Rightarrow> 'v HashTable" where
  "HT_ResetIter t = t\<lparr>iterNode := None, iterChain := 0, iterOK := True\<rparr>"

text \<open>The first chain at or after \<open>i\<close> that is not empty (the loop over \<open>i\<close> in \<open>HT_Next\<close> and
  \<open>HT_RemoveNext\<close>).\<close>

function scan_chain :: "'a list list \<Rightarrow> nat \<Rightarrow> nat option" where
  "scan_chain cs i = (if i < length cs then (if cs ! i \<noteq> [] then Some i else scan_chain cs (i + 1)) else None)"
  by pat_completeness auto
termination
  by (relation "measure (\<lambda>(cs, i). length cs - i)") auto

declare scan_chain.simps [simp del]

definition HT_Next_chain :: "'v HashTable \<Rightarrow> 'v HashTable \<times> 'v HashNode option" where
  "HT_Next_chain t =
     (case scan_chain (chains t) (unat (iterChain t)) of
        None \<Rightarrow> (t, None)
      | Some i \<Rightarrow> (t\<lparr>iterNode := Some (i, 0), iterChain := of_nat (i + 1)\<rparr>, Some (chains t ! i ! 0)))"

definition HT_Next :: "'v HashTable \<Rightarrow> ('v HashTable \<times> 'v HashNode option) res" where
  "HT_Next t =
     bindR (assertR (iterOK t) ''iterOK'') (\<lambda>_.
       case iterNode t of
         Some (c, p) \<Rightarrow>
           if p + 1 < length (chains t ! c)
           then Inr (t\<lparr>iterNode := Some (c, p + 1)\<rparr>, Some (chains t ! c ! (p + 1)))
           else Inr (HT_Next_chain t)
       | None \<Rightarrow> Inr (HT_Next_chain t))"

definition HT_RemoveNext :: "'v HashTable \<Rightarrow> ('v HashTable \<times> 'v HashNode option) res" where
  "HT_RemoveNext t =
     bindR (assertR (iterOK t) ''iterOK'') (\<lambda>_.
       let ic = unat (iterChain t) in
       if \<not> ic < length (chains t) then Inl OutOfBounds
       else case chains t ! ic of
         node # next \<Rightarrow> Inr (t\<lparr>chains := (chains t)[ic := next], n_elements := n_elements t - 1\<rparr>, Some node)
       | [] \<Rightarrow> (case scan_chain (chains t) (ic + 1) of
              None \<Rightarrow> Inr (t, None)
            | Some i \<Rightarrow> Inr (t\<lparr>iterChain := of_nat i, chains := (chains t)[i := tl (chains t ! i)],
                              n_elements := n_elements t - 1\<rparr>, Some (chains t ! i ! 0))))"

text \<open>Callers keep the node pointer a lookup gave them and write through it: \<open>HT_modify\<close> is
  that write, on the first node of \<open>k\<close>'s chain that satisfies \<open>P\<close>.\<close>

fun modify_first :: "('a \<Rightarrow> bool) \<Rightarrow> ('a \<Rightarrow> 'a) \<Rightarrow> 'a list \<Rightarrow> 'a list" where
  "modify_first P f [] = []"
| "modify_first P f (x # xs) = (if P x then f x # xs else x # modify_first P f xs)"

definition HT_modify :: "'v HashTable \<Rightarrow> u64 \<Rightarrow> ('v \<Rightarrow> bool) \<Rightarrow> ('v \<Rightarrow> 'v) \<Rightarrow> 'v HashTable" where
  "HT_modify t k P f =
     (let chain = CHAIN_NO k (n_chains t)
      in t\<lparr>chains := (chains t)[chain := modify_first (\<lambda>n. key n = k \<and> P (val n))
                                        (\<lambda>n. n\<lparr>val := f (val n)\<rparr>) (chains t ! chain)]\<rparr>)"

text \<open>\<open>HT_destruct\<close> is modelled by the nodes it hands to \<open>free_func\<close>, in that order.\<close>

definition HT_destruct :: "'v HashTable \<Rightarrow> 'v HashNode list" where
  "HT_destruct t = (if n_elements t > 0 \<and> free_func t then concat (chains t) else [])"

section \<open>Invariant and abstraction\<close>

definition bucketed :: "u32 \<Rightarrow> 'v HashNode list list \<Rightarrow> bool" where
  "bucketed n cs \<longleftrightarrow> (\<forall>c < length cs. \<forall>x \<in> set (cs ! c). CHAIN_NO (key x) n = c)"

definition ht_inv :: "'v HashTable \<Rightarrow> bool" where
  "ht_inv t \<longleftrightarrow>
     unat (n_chains t) \<in> set primes \<and> length (chains t) = unat (n_chains t) \<and>
     n_elements t = of_nat (sum_list (map length (chains t))) \<and> bucketed (n_chains t) (chains t)"

definition ht_nodes :: "'v HashTable \<Rightarrow> 'v HashNode multiset" where
  "ht_nodes t = mset (concat (chains t))"

text \<open>The nodes of one key, in link order.\<close>

definition ht_get :: "'v HashTable \<Rightarrow> u64 \<Rightarrow> 'v HashNode list" where
  "ht_get t k = filter (\<lambda>n. key n = k) (chains t ! CHAIN_NO k (n_chains t))"

lemma primes_bounds: "p \<in> set primes \<Longrightarrow> 53 \<le> p \<and> p \<le> 402653189"
  by (auto simp: primes_def)

lemma primes_0 [simp]: "primes ! 0 = 53" and primes_last [simp]: "primes ! (N_HASH_PRIMES - Suc 0) = 402653189"
  by (simp_all add: primes_def N_HASH_PRIMES_def)

lemma ht_inv_pos: "ht_inv t \<Longrightarrow> 0 < unat (n_chains t)"
  unfolding ht_inv_def using primes_bounds by fastforce

lemma CHAIN_NO_less: "0 < unat n \<Longrightarrow> CHAIN_NO k n < unat n"
  by (simp add: CHAIN_NO_def)

lemma ht_inv_chain_less: "ht_inv t \<Longrightarrow> CHAIN_NO k (n_chains t) < length (chains t)"
  using ht_inv_pos [of t] CHAIN_NO_less [of "n_chains t" k] by (auto simp: ht_inv_def)

lemma next_size_prime:
  assumes "n \<in> set primes" "n \<noteq> 402653189"
  shows "next_size (n + 1) \<in> set primes \<and> n + 1 < next_size (n + 1)"
  using assms by (auto simp: next_size_def primes_def)

subsection \<open>The rehashing loop\<close>

lemma length_rehash_chain [simp]: "length (rehash_chain n ns cs) = length cs"
  by (induction n ns cs rule: rehash_chain.induct) (auto simp: Let_def)

lemma length_rehash [simp]: "length (rehash n old cs) = length cs"
  by (induction n old cs rule: rehash.induct) auto

lemma mset_rehash_chain:
  assumes "0 < unat n" "length cs = unat n"
  shows "mset (concat (rehash_chain n ns cs)) = mset (concat cs) + mset ns"
  using assms
proof (induction n ns cs rule: rehash_chain.induct)
  case (2 n node nxt cs)
  let ?c = "CHAIN_NO (key node) n"
  have "?c < length cs" using 2 CHAIN_NO_less [of n] by simp
  from mset_concat_list_update [OF this, of "node # cs ! ?c"] 2 show ?case
    by (simp add: Let_def)
qed simp

lemma mset_rehash:
  assumes "0 < unat n" "length cs = unat n"
  shows "mset (concat (rehash n old cs)) = mset (concat cs) + mset (concat old)"
  using assms by (induction n old cs rule: rehash.induct) (simp_all add: mset_rehash_chain)

lemma filter_rehash_chain:
  assumes "0 < unat n" "length cs = unat n"
  shows "filter (\<lambda>x. key x = k) (rehash_chain n ns cs ! CHAIN_NO k n) =
    rev (filter (\<lambda>x. key x = k) ns) @ filter (\<lambda>x. key x = k) (cs ! CHAIN_NO k n)"
  using assms
proof (induction n ns cs rule: rehash_chain.induct)
  case (2 n node nxt cs)
  then show ?case using CHAIN_NO_less [of n k] CHAIN_NO_less [of n "key node"]
    by (cases "CHAIN_NO (key node) n = CHAIN_NO k n") (auto simp: Let_def)
qed simp

lemma filter_rehash:
  assumes "0 < unat n" "length cs = unat n"
  shows "filter (\<lambda>x. key x = k) (rehash n old cs ! CHAIN_NO k n) =
    rev (filter (\<lambda>x. key x = k) (concat old)) @ filter (\<lambda>x. key x = k) (cs ! CHAIN_NO k n)"
  using assms by (induction n old cs rule: rehash.induct) (simp_all add: filter_rehash_chain)

lemma bucketedD: "bucketed n cs \<Longrightarrow> c < length cs \<Longrightarrow> x \<in> set (cs ! c) \<Longrightarrow> CHAIN_NO (key x) n = c"
  by (simp add: bucketed_def)

lemma bucketed_update:
  assumes "bucketed n cs" and "\<And>x. x \<in> set ys \<Longrightarrow> CHAIN_NO (key x) n = c"
  shows "bucketed n (cs[c := ys])"
  unfolding bucketed_def
proof (intro allI impI ballI)
  fix d x
  assume d: "d < length (cs[c := ys])" and x: "x \<in> set (cs[c := ys] ! d)"
  show "CHAIN_NO (key x) n = d"
  proof (cases "d = c")
    case True
    with d x have "x \<in> set ys" by simp
    with assms(2) True show ?thesis by blast
  next
    case False
    with d x have "x \<in> set (cs ! d)" "d < length cs" by simp_all
    with assms(1) show ?thesis by (blast dest: bucketedD)
  qed
qed

lemma bucketed_cons:
  assumes "bucketed n cs" "c < length cs" "c = CHAIN_NO (key x) n"
  shows "bucketed n (cs[c := x # cs ! c])"
proof (rule bucketed_update [OF assms(1)])
  fix y
  assume "y \<in> set (x # cs ! c)"
  then consider "y = x" | "y \<in> set (cs ! c)" by auto
  then show "CHAIN_NO (key y) n = c"
  proof cases
    case 1
    then show ?thesis using assms(3) by simp
  next
    case 2
    with assms(1,2) show ?thesis by (rule bucketedD)
  qed
qed

lemma rehash_chain_bucketed:
  assumes "0 < unat n" "length cs = unat n" "bucketed n cs"
  shows "bucketed n (rehash_chain n ns cs)"
  using assms
proof (induction n ns cs rule: rehash_chain.induct)
  case (2 n node nxt cs)
  have "bucketed n (cs[CHAIN_NO (key node) n := node # cs ! CHAIN_NO (key node) n])"
    using "2.prems" CHAIN_NO_less [of n "key node"] by (intro bucketed_cons) simp_all
  with "2.IH" "2.prems" show ?case by (simp add: Let_def)
qed simp

lemma rehash_bucketed:
  assumes "0 < unat n" "length cs = unat n" "bucketed n cs"
  shows "bucketed n (rehash n old cs)"
  using assms
proof (induction n old cs rule: rehash.induct)
  case (2 n c old cs)
  from "2.IH" [OF "2.prems"(1)] "2.prems" rehash_chain_bucketed [OF "2.prems", of c] show ?case by simp
qed simp

text \<open>In a table that satisfies the bucket invariant, the nodes of a key are all in its chain.\<close>

lemma filter_other_bucket:
  assumes "bucketed n cs" "c < length cs" "c \<noteq> CHAIN_NO k n"
  shows "filter (\<lambda>x. key x = k) (cs ! c) = []"
proof -
  have "key x \<noteq> k" if "x \<in> set (cs ! c)" for x
    using bucketedD [OF assms(1,2) that] assms(3) by blast
  then show ?thesis by (simp add: filter_empty_conv)
qed

lemma filter_concat_take_drop:
  assumes "\<And>c. c < length cs \<Longrightarrow> filter P (cs ! c) = []"
  shows "filter P (concat cs) = []"
  using assms by (fastforce simp: filter_empty_conv in_set_conv_nth)

lemma filter_concat_bucket:
  assumes "bucketed n cs" and "CHAIN_NO k n < length cs"
  shows "filter (\<lambda>x. key x = k) (concat cs) = filter (\<lambda>x. key x = k) (cs ! CHAIN_NO k n)"
proof -
  let ?c = "CHAIN_NO k n" let ?f = "filter (\<lambda>x. key x = k)"
  have cs: "concat cs = concat (take ?c cs) @ cs ! ?c @ concat (drop (Suc ?c) cs)"
    by (subst id_take_nth_drop [OF assms(2)]) simp
  have "?f (concat (take ?c cs)) = []"
    by (rule filter_concat_take_drop) (use filter_other_bucket [OF assms(1)] assms(2) in simp)
  moreover have "?f (concat (drop (Suc ?c) cs)) = []"
    by (rule filter_concat_take_drop) (use filter_other_bucket [OF assms(1)] in simp)
  ultimately show ?thesis
    by (simp add: cs)
qed

subsection \<open>Insertion and lookup\<close>

lemma ht_invI:
  assumes "unat (n_chains t) \<in> set primes" "length (chains t) = unat (n_chains t)"
    "n_elements t = of_nat (size (ht_nodes t))" "bucketed (n_chains t) (chains t)"
  shows "ht_inv t"
  using assms by (simp add: ht_inv_def ht_nodes_def length_concat)

lemma ht_invD:
  assumes "ht_inv t"
  shows "unat (n_chains t) \<in> set primes" "length (chains t) = unat (n_chains t)"
    "n_elements t = of_nat (size (ht_nodes t))" "bucketed (n_chains t) (chains t)"
    "0 < unat (n_chains t)"
  using assms ht_inv_pos by (simp_all add: ht_inv_def ht_nodes_def length_concat)

lemma resize_ok:
  assumes inv: "ht_inv t"
  shows "\<exists>t'. resize t = Inr t' \<and> ht_inv t' \<and> ht_nodes t' = ht_nodes t \<and> n_elements t' = n_elements t \<and>
    (if unat (n_chains t) = 402653189 then t' = t else (\<forall>k. ht_get t' k = rev (ht_get t k)))"
proof (cases "unat (n_chains t) = 402653189")
  case True
  then have "resize t = Inr t" by (simp add: resize_def)
  with inv True show ?thesis by simp
next
  case False
  define m where "m = next_size (unat (n_chains t) + 1)"
  define n :: u32 where "n = of_nat m"
  note invD = ht_invD [OF inv]
  have m: "m \<in> set primes" "unat (n_chains t) + 1 < m"
    using next_size_prime [OF invD(1) False] by (simp_all add: m_def)
  from primes_bounds [OF m(1)] have mb: "53 \<le> m" "m \<le> 402653189" by simp_all
  have un: "unat n = m" using mb by (simp add: n_def unat_of_nat)
  have pos: "0 < unat n" using un mb by simp
  let ?cs = "rehash n (chains t) (replicate m [])"
  let ?t = "t\<lparr>n_chains := n, chains := ?cs\<rparr>"
  have old: "53 \<le> unat (n_chains t)" "unat (n_chains t) < 402653189"
    using primes_bounds [OF invD(1)] False by simp_all
  have r: "resize t = Inr ?t"
    using old m mb False by (simp add: resize_def Let_def m_def n_def)
  have len: "length (replicate m ([] :: 'a HashNode list)) = unat n" using un by simp
  have bk: "bucketed n (replicate m ([] :: 'a HashNode list))" by (simp add: bucketed_def)
  have nodes: "ht_nodes ?t = ht_nodes t"
    using mset_rehash [OF pos len, of "chains t"] by (simp add: ht_nodes_def)
  have "ht_inv ?t"
    by (rule ht_invI) (use m un invD(3) rehash_bucketed [OF pos len bk] nodes in simp_all)
  moreover have "ht_get ?t k = rev (ht_get t k)" for k
    using filter_rehash [OF pos len, of k "chains t"] CHAIN_NO_less [OF pos, of k] un
      filter_concat_bucket [OF invD(4) ht_inv_chain_less [OF inv, of k, unfolded invD(2)[symmetric]]]
    by (simp add: ht_get_def invD(2))
  ultimately show ?thesis using r nodes False by auto
qed

lemma ht_inv_cong:
  "ht_inv t \<Longrightarrow> chains t' = chains t \<Longrightarrow> n_chains t' = n_chains t \<Longrightarrow> n_elements t' = n_elements t \<Longrightarrow> ht_inv t'"
  by (simp add: ht_inv_def)

lemma ht_get_mset:
  assumes "ht_inv t"
  shows "mset (ht_get t k) = filter_mset (\<lambda>n. key n = k) (ht_nodes t)"
  using filter_concat_bucket [OF ht_invD(4) [OF assms] ht_inv_chain_less [OF assms], of k]
  by (simp add: ht_get_def ht_nodes_def flip: mset_filter)

lemma HT_lookup_ht_get: "HT_lookup t k = (case ht_get t k of [] \<Rightarrow> None | n # _ \<Rightarrow> Some n)"
proof -
  have "(case dropWhile (\<lambda>n. key n \<noteq> k) c of [] \<Rightarrow> None | n # _ \<Rightarrow> Some n) =
    (case filter (\<lambda>n. key n = k) c of [] \<Rightarrow> None | n # _ \<Rightarrow> Some n)" for c :: "'a HashNode list"
    by (induction c) auto
  then show ?thesis by (simp add: HT_lookup_def HT_chain_from_def ht_get_def)
qed

lemma ht_iterOK [simp]:
  "ht_inv (t\<lparr>iterOK := b\<rparr>) = ht_inv t"
  "ht_nodes (t\<lparr>iterOK := b\<rparr>) = ht_nodes t"
  "ht_get (t\<lparr>iterOK := b\<rparr>) k = ht_get t k"
  by (simp_all add: ht_inv_def ht_nodes_def ht_get_def)

text \<open>The insertion before any resizing.\<close>

definition ht_push :: "'v HashTable \<Rightarrow> 'v HashNode \<Rightarrow> 'v HashTable" where
  "ht_push t n = (let c = CHAIN_NO (key n) (n_chains t)
     in t\<lparr>chains := (chains t)[c := n # chains t ! c], n_elements := n_elements t + 1\<rparr>)"

lemma ht_push_fields [simp]:
  "n_chains (ht_push t n) = n_chains t" "n_elements (ht_push t n) = n_elements t + 1"
  by (simp_all add: ht_push_def Let_def)

lemma ht_push_ok:
  assumes inv: "ht_inv t"
  shows "ht_nodes (ht_push t n) = add_mset n (ht_nodes t)" "ht_inv (ht_push t n)"
    "ht_get (ht_push t n) k = (if key n = k then n # ht_get t k else ht_get t k)"
proof -
  note invD = ht_invD [OF inv]
  let ?c = "CHAIN_NO (key n) (n_chains t)"
  have c: "?c < length (chains t)" by (rule ht_inv_chain_less [OF inv])
  show nodes: "ht_nodes (ht_push t n) = add_mset n (ht_nodes t)"
    using mset_concat_list_update [OF c, of "n # chains t ! ?c"]
    by (simp add: ht_push_def Let_def ht_nodes_def)
  show "ht_inv (ht_push t n)"
  proof (rule ht_invI)
    show "unat (n_chains (ht_push t n)) \<in> set primes"
      "length (chains (ht_push t n)) = unat (n_chains (ht_push t n))"
      using invD(1,2) by (simp_all add: ht_push_def Let_def)
    show "n_elements (ht_push t n) = of_nat (size (ht_nodes (ht_push t n)))"
      unfolding nodes using invD(3) by simp
    show "bucketed (n_chains (ht_push t n)) (chains (ht_push t n))"
      using bucketed_cons [OF invD(4) c refl] by (simp add: ht_push_def Let_def)
  qed
  show "ht_get (ht_push t n) k = (if key n = k then n # ht_get t k else ht_get t k)"
    using c by (simp add: ht_get_def ht_push_def Let_def nth_list_update)
qed

definition ht_grows :: "'v HashTable \<Rightarrow> bool" where
  "ht_grows t \<longleftrightarrow> unat (n_elements t + 1) > unat (n_chains t) \<and> unat (n_chains t) \<noteq> 402653189"

lemma HT_add_node_push:
  "HT_add_node t (key n) n =
     bindR (if unat (n_elements t + 1) > unat (n_chains t) then resize (ht_push t n) else Inr (ht_push t n))
       (\<lambda>t2. Inr (t2\<lparr>iterOK := False\<rparr>))"
  by (simp add: HT_add_node_def ht_push_def Let_def)

lemma HT_add_node_ok:
  assumes inv: "ht_inv t"
  shows "\<exists>t'. HT_add_node t (key n) n = Inr t' \<and> ht_inv t' \<and> ht_nodes t' = add_mset n (ht_nodes t) \<and>
    (\<forall>k. ht_get t' k = (let c = (if key n = k then n # ht_get t k else ht_get t k)
                        in if ht_grows t then rev c else c))"
proof (cases "unat (n_elements t + 1) > unat (n_chains t)")
  case False
  then have "HT_add_node t (key n) n = Inr (ht_push t n\<lparr>iterOK := False\<rparr>)"
    by (simp add: HT_add_node_push)
  moreover have "\<not> ht_grows t" using False by (simp add: ht_grows_def)
  ultimately show ?thesis using ht_push_ok [OF inv] by simp
next
  case True
  from resize_ok [OF ht_push_ok(2) [OF inv, of n]] obtain t2 where
    r: "resize (ht_push t n) = Inr t2" and i: "ht_inv t2" and m: "ht_nodes t2 = ht_nodes (ht_push t n)"
    and g: "if unat (n_chains t) = 402653189 then t2 = ht_push t n
            else (\<forall>k. ht_get t2 k = rev (ht_get (ht_push t n) k))" by auto
  have "HT_add_node t (key n) n = Inr (t2\<lparr>iterOK := False\<rparr>)"
    using True r by (simp add: HT_add_node_push)
  moreover have "ht_grows t \<longleftrightarrow> unat (n_chains t) \<noteq> 402653189" using True by (simp add: ht_grows_def)
  ultimately show ?thesis
    using i m g ht_push_ok [OF inv] by (cases "unat (n_chains t) = 402653189") simp_all
qed

subsection \<open>The contract its clients rely on\<close>

locale hash_map =
  fixes inv :: "'t \<Rightarrow> bool"
    and nodes :: "'t \<Rightarrow> 'n multiset"
    and nkey :: "'n \<Rightarrow> u64"
    and add :: "'t \<Rightarrow> u64 \<Rightarrow> 'n \<Rightarrow> 't res"
    and lookup :: "'t \<Rightarrow> u64 \<Rightarrow> 'n option"
  assumes add_ok: "inv t \<Longrightarrow> \<exists>t'. add t (nkey n) n = Inr t' \<and> inv t' \<and> nodes t' = add_mset n (nodes t)"
    and lookup_Some: "inv t \<Longrightarrow> lookup t k = Some n \<Longrightarrow> n \<in># nodes t \<and> nkey n = k"
    and lookup_None: "inv t \<Longrightarrow> lookup t k = None \<Longrightarrow> n \<in># nodes t \<Longrightarrow> nkey n \<noteq> k"
begin

text \<open>The tables of the tool that never hold a key twice: the caller inserts only after a lookup
  has failed.\<close>

definition uniq :: "'t \<Rightarrow> bool" where
  "uniq t \<longleftrightarrow> (\<forall>k. size (filter_mset (\<lambda>n. nkey n = k) (nodes t)) \<le> 1)"

lemma lookup_memI:
  assumes "inv t" "uniq t" "n \<in># nodes t"
  shows "lookup t (nkey n) = Some n"
proof (cases "lookup t (nkey n)")
  case None
  with assms lookup_None show ?thesis by blast
next
  case (Some m)
  with lookup_Some [OF assms(1)] have m: "m \<in># nodes t" "nkey m = nkey n" by blast+
  let ?M = "filter_mset (\<lambda>x. nkey x = nkey n) (nodes t)"
  have "m \<in># ?M" "n \<in># ?M" "size ?M \<le> 1" using m assms by (simp_all add: uniq_def)
  then have "m = n" by (blast intro: mset_size_le_1)
  with Some show ?thesis by simp
qed

lemma add_fresh:
  assumes "inv t" "uniq t" "lookup t (nkey n) = None"
  shows "\<exists>t'. add t (nkey n) n = Inr t' \<and> inv t' \<and> uniq t' \<and> nodes t' = add_mset n (nodes t) \<and>
    (\<forall>k. lookup t' k = (if k = nkey n then Some n else lookup t k))"
proof -
  from add_ok [OF assms(1), of n] obtain t' where
    t': "add t (nkey n) n = Inr t'" "inv t'" "nodes t' = add_mset n (nodes t)" by blast
  have none: "filter_mset (\<lambda>x. nkey x = nkey n) (nodes t) = {#}"
    using lookup_None [OF assms(1,3)] by (auto simp: filter_mset_eq_mempty_iff)
  have u: "uniq t'"
    unfolding uniq_def
  proof
    fix k
    show "size (filter_mset (\<lambda>n. nkey n = k) (nodes t')) \<le> 1"
      using none assms(2) by (cases "k = nkey n") (simp_all add: t'(3) uniq_def)
  qed
  have "lookup t' k = (if k = nkey n then Some n else lookup t k)" for k
  proof (cases "lookup t' k")
    case None
    from lookup_None [OF t'(2) None] t'(3) have "\<And>m. m \<in># add_mset n (nodes t) \<Longrightarrow> nkey m \<noteq> k" by simp
    then have "k \<noteq> nkey n" "lookup t k = None"
      using lookup_Some [OF assms(1), of k] by (fastforce, cases "lookup t k") auto
    with None show ?thesis by simp
  next
    case (Some m)
    with lookup_Some [OF t'(2)] t'(3) have "m \<in># add_mset n (nodes t)" "nkey m = k" by auto
    then have m: "m = n \<or> m \<in># nodes t" "nkey m = k" by auto
    then show ?thesis
      using Some lookup_memI [OF assms(1,2), of m] assms(3) by (cases "m = n") auto
  qed
  with t' u show ?thesis by blast
qed

end

interpretation ht: hash_map ht_inv ht_nodes key HT_add_node HT_lookup
proof
  fix t :: "'v HashTable" and n :: "'v HashNode"
  assume "ht_inv t"
  from HT_add_node_ok [OF this, of n]
  show "\<exists>t'. HT_add_node t (key n) n = Inr t' \<and> ht_inv t' \<and> ht_nodes t' = add_mset n (ht_nodes t)" by blast
next
  fix t :: "'v HashTable" and k and n :: "'v HashNode"
  assume "ht_inv t" and l: "HT_lookup t k = Some n"
  from l have "n \<in> set (ht_get t k)" by (auto simp: HT_lookup_ht_get split: list.splits)
  then have "n \<in># filter_mset (\<lambda>n. key n = k) (ht_nodes t)"
    using ht_get_mset [OF \<open>ht_inv t\<close>, of k] by (metis set_mset_mset)
  then show "n \<in># ht_nodes t \<and> key n = k" by simp
next
  fix t :: "'v HashTable" and k and n :: "'v HashNode"
  assume "ht_inv t" and l: "HT_lookup t k = None" and n: "n \<in># ht_nodes t"
  from l have "ht_get t k = []" by (auto simp: HT_lookup_ht_get split: list.splits)
  then have "filter_mset (\<lambda>n. key n = k) (ht_nodes t) = {#}"
    using ht_get_mset [OF \<open>ht_inv t\<close>, of k] by simp
  with n show "key n \<noteq> k" by (auto simp: filter_mset_eq_mempty_iff)
qed

subsection \<open>Writing through a node pointer\<close>

lemma filter_modify_first:
  assumes "\<And>x. P x \<Longrightarrow> Q x" "\<And>x. P x \<Longrightarrow> Q (f x)"
  shows "filter Q (modify_first P f xs) = modify_first P f (filter Q xs)"
  using assms by (induction xs) auto

lemma length_modify_first [simp]: "length (modify_first P f xs) = length xs"
  by (induction xs) auto

lemma filter_modify_first_other:
  assumes "\<And>x. P x \<Longrightarrow> \<not> Q x" "\<And>x. P x \<Longrightarrow> \<not> Q (f x)"
  shows "filter Q (modify_first P f xs) = filter Q xs"
  using assms by (induction xs) auto

lemma modify_first_cong_filter:
  assumes "\<And>x. x \<in> set xs \<Longrightarrow> P x = R x"
  shows "modify_first P f xs = modify_first R f xs"
  using assms by (induction xs) auto

lemma map_key_modify_first [simp]:
  "map key (modify_first P (\<lambda>n. n\<lparr>val := f (val n)\<rparr>) xs) = map key xs"
  by (induction xs) auto

lemma bucketed_map_key:
  "bucketed n cs \<longleftrightarrow> (\<forall>c < length cs. \<forall>k \<in> set (map key (cs ! c)). CHAIN_NO k n = c)"
  by (simp add: bucketed_def)

lemma ht_inv_HT_modify [inv_intros]:
  assumes inv: "ht_inv t"
  shows "ht_inv (HT_modify t k P f)"
proof -
  note invD = ht_invD [OF inv]
  let ?c = "CHAIN_NO k (n_chains t)"
  let ?ys = "modify_first (\<lambda>n. key n = k \<and> P (val n)) (\<lambda>n. n\<lparr>val := f (val n)\<rparr>) (chains t ! ?c)"
  have c: "?c < length (chains t)" by (rule ht_inv_chain_less [OF inv])
  have "bucketed (n_chains t) ((chains t)[?c := ?ys])"
    using invD(4) c unfolding bucketed_map_key by (auto simp del: set_map simp: nth_list_update)
  moreover have "sum_list (map length ((chains t)[?c := ?ys])) = sum_list (map length (chains t))"
    using sum_list_length_list_update [OF c, of ?ys] by simp
  ultimately show ?thesis using inv by (simp add: HT_modify_def Let_def ht_inv_def)
qed

lemma ht_get_HT_modify:
  assumes inv: "ht_inv t"
  shows "ht_get (HT_modify t k P f) k' =
    (if k' = k then modify_first (\<lambda>n. P (val n)) (\<lambda>n. n\<lparr>val := f (val n)\<rparr>) (ht_get t k) else ht_get t k')"
proof -
  let ?c = "CHAIN_NO k (n_chains t)"
  have c: "?c < length (chains t)" by (rule ht_inv_chain_less [OF inv])
  let ?P = "\<lambda>n. key n = k \<and> P (val n)" and ?g = "\<lambda>n. n\<lparr>val := f (val n)\<rparr>"
  have same: "filter (\<lambda>n. key n = k) (modify_first ?P ?g xs) =
      modify_first (\<lambda>n. P (val n)) ?g (filter (\<lambda>n. key n = k) xs)" for xs :: "'a HashNode list"
    by (subst filter_modify_first) (auto intro: modify_first_cong_filter)
  have other: "k' \<noteq> k \<Longrightarrow> filter (\<lambda>n. key n = k') (modify_first ?P ?g xs) = filter (\<lambda>n. key n = k') xs"
    for xs :: "'a HashNode list"
    by (rule filter_modify_first_other) auto
  show ?thesis
  proof (cases "k' = k")
    case True
    with c same show ?thesis by (simp add: ht_get_def HT_modify_def Let_def)
  next
    case False
    with c other show ?thesis by (simp add: ht_get_def HT_modify_def Let_def nth_list_update)
  qed
qed

lemma HT_lookup_HT_modify:
  assumes "ht_inv t"
  shows "HT_lookup (HT_modify t k (\<lambda>_. True) f) k' =
    (if k' = k then map_option (\<lambda>n. n\<lparr>val := f (val n)\<rparr>) (HT_lookup t k) else HT_lookup t k')"
  by (simp add: HT_lookup_ht_get ht_get_HT_modify [OF assms] split: list.splits)

subsection \<open>Removal\<close>

lemma remove_first_Some:
  "remove_first P xs = (Some x, ys) \<Longrightarrow> P x \<and> mset xs = add_mset x (mset ys)"
  by (induction xs arbitrary: ys) (auto split: if_splits prod.splits)

lemma remove_first_None:
  "remove_first P xs = (None, ys) \<Longrightarrow> \<forall>x \<in> set xs. \<not> P x"
  by (induction xs arbitrary: ys) (auto split: if_splits prod.splits)

lemma HT_remove_Some:
  assumes inv: "ht_inv t" and r: "HT_remove t k = (t', Some n)"
  shows "key n = k" "ht_nodes t = add_mset n (ht_nodes t')" "ht_inv t'"
proof -
  note invD = ht_invD [OF inv]
  let ?c = "CHAIN_NO k (n_chains t)"
  have c: "?c < length (chains t)" by (rule ht_inv_chain_less [OF inv])
  from r obtain ys where ys: "remove_first (\<lambda>n. key n = k) (chains t ! ?c) = (Some n, ys)"
    and t': "t' = t\<lparr>iterOK := False, chains := (chains t)[?c := ys], n_elements := n_elements t - 1\<rparr>"
    by (auto simp: HT_remove_def Let_def split: prod.splits option.splits)
  from remove_first_Some [OF ys] have m: "key n = k" "mset (chains t ! ?c) = add_mset n (mset ys)" by simp_all
  show "key n = k" by (rule m)
  show nodes: "ht_nodes t = add_mset n (ht_nodes t')"
    using mset_concat_list_update [OF c, of ys] m(2) by (simp add: t' ht_nodes_def)
  show "ht_inv t'"
  proof (rule ht_invI)
    show "unat (n_chains t') \<in> set primes" "length (chains t') = unat (n_chains t')"
      using invD(1,2) by (simp_all add: t')
    show "n_elements t' = of_nat (size (ht_nodes t'))"
    proof -
      have "n_elements t = of_nat (size (ht_nodes t')) + 1" using invD(3) nodes by simp
      moreover have "n_elements t' = n_elements t - 1" by (simp add: t')
      ultimately show ?thesis by (simp only: add_diff_cancel_right')
    qed
    have "set ys \<subseteq> set (chains t ! ?c)" using m(2) by (metis mset_eq_setD set_mset_mset set_mset_add_mset_insert subset_insertI)
    then have "bucketed (n_chains t) ((chains t)[?c := ys])"
      by (intro bucketed_update [OF invD(4)]) (use bucketedD [OF invD(4) c] in blast)
    then show "bucketed (n_chains t') (chains t')" by (simp add: t')
  qed
qed

lemma HT_remove_None:
  assumes inv: "ht_inv t" and r: "HT_remove t k = (t', None)"
  shows "t' = t\<lparr>iterOK := False\<rparr>" "\<And>n. n \<in># ht_nodes t \<Longrightarrow> key n \<noteq> k"
proof -
  from r obtain ys where ys: "remove_first (\<lambda>n. key n = k) (chains t ! CHAIN_NO k (n_chains t)) = (None, ys)"
    and t': "t' = t\<lparr>iterOK := False\<rparr>"
    by (auto simp: HT_remove_def Let_def split: prod.splits option.splits)
  show "t' = t\<lparr>iterOK := False\<rparr>" by (rule t')
  from remove_first_None [OF ys] have "ht_get t k = []" by (auto simp: ht_get_def filter_empty_conv)
  then have "filter_mset (\<lambda>n. key n = k) (ht_nodes t) = {#}" using ht_get_mset [OF inv, of k] by simp
  then show "\<And>n. n \<in># ht_nodes t \<Longrightarrow> key n \<noteq> k" by (auto simp: filter_mset_eq_mempty_iff)
qed

subsection \<open>Draining the table\<close>

lemma scan_chain_Some:
  "scan_chain cs i = Some j \<Longrightarrow> i \<le> j \<and> j < length cs \<and> cs ! j \<noteq> [] \<and> (\<forall>c. i \<le> c \<and> c < j \<longrightarrow> cs ! c = [])"
proof (induction cs i rule: scan_chain.induct)
  case (1 cs i)
  show ?case
  proof (cases "i < length cs \<and> cs ! i = []")
    case True
    with "1.prems" have "scan_chain cs (i + 1) = Some j" by (subst (asm) scan_chain.simps) simp
    with "1.IH" True have IH: "i + 1 \<le> j \<and> j < length cs \<and> cs ! j \<noteq> [] \<and> (\<forall>c. i + 1 \<le> c \<and> c < j \<longrightarrow> cs ! c = [])"
      by simp
    have "cs ! c = []" if "i \<le> c" "c < j" for c
      using IH True that by (cases "c = i") auto
    with IH show ?thesis by simp
  next
    case False
    with "1.prems" have "i < length cs" "cs ! i \<noteq> []" "i = j"
      by (subst (asm) scan_chain.simps, simp split: if_splits)+
    then show ?thesis by auto
  qed
qed

lemma scan_chain_None:
  "scan_chain cs i = None \<Longrightarrow> i \<le> c \<Longrightarrow> c < length cs \<Longrightarrow> cs ! c = []"
proof (induction cs i rule: scan_chain.induct)
  case (1 cs i)
  from "1.prems" have i: "i < length cs" by simp
  with "1.prems"(1) have e: "cs ! i = []" and n: "scan_chain cs (i + 1) = None"
    by (subst (asm) scan_chain.simps, simp split: if_splits)+
  show ?case
  proof (cases "c = i")
    case True
    with e show ?thesis by simp
  next
    case False
    with "1.prems" have "i + 1 \<le> c" by simp
    then show ?thesis using "1.IH" i e n "1.prems"(3) by simp
  qed
qed

lemma concat_first_nonempty:
  assumes "j < length cs" "\<And>c. c < j \<Longrightarrow> cs ! c = []"
  shows "concat cs = cs ! j @ concat (drop (Suc j) cs)"
proof -
  have "concat (take j cs) = []"
    using assms by (fastforce simp: in_set_conv_nth)
  then show ?thesis
    by (subst id_take_nth_drop [OF assms(1)]) simp
qed

lemma concat_update_tl:
  assumes "j < length cs" "\<And>c. c < j \<Longrightarrow> cs ! c = []" "cs ! j \<noteq> []"
  shows "concat cs = hd (cs ! j) # concat (cs[j := tl (cs ! j)])"
proof -
  have "concat (cs[j := tl (cs ! j)]) = tl (cs ! j) @ concat (drop (Suc j) cs)"
    by (subst concat_first_nonempty [of j]) (use assms in auto)
  with concat_first_nonempty [OF assms(1,2)] assms(3) show ?thesis by simp
qed

lemma HT_RemoveNext_Some:
  assumes "HT_RemoveNext t = Inr (t', Some n)"
  shows "ht_nodes t = add_mset n (ht_nodes t')"
proof -
  from assms obtain j where j: "j < length (chains t)" "chains t ! j \<noteq> []"
    and t': "chains t' = (chains t)[j := tl (chains t ! j)]" "n = hd (chains t ! j)"
    by (auto simp: HT_RemoveNext_def Let_def res_simps hd_conv_nth
        dest!: scan_chain_Some split: if_splits list.splits option.splits)
  from mset_concat_list_update [OF j(1), of "tl (chains t ! j)"] j(2) show ?thesis
    by (cases "chains t ! j") (simp_all add: ht_nodes_def t')
qed

text \<open>The loop of the callers that empty a table: \<open>HT_RemoveNext\<close> until it returns null.\<close>

function ht_drain :: "'v HashTable \<Rightarrow> ('v HashTable \<times> 'v HashNode list) res" where
  "ht_drain t = (case HT_RemoveNext t of
     Inl e \<Rightarrow> Inl e
   | Inr (t', None) \<Rightarrow> Inr (t', [])
   | Inr (t', Some n) \<Rightarrow> bindR (ht_drain t') (\<lambda>(t'', ns). Inr (t'', n # ns)))"
  by pat_completeness auto
termination
  by (relation "measure (\<lambda>t. size (ht_nodes t))") (auto dest!: HT_RemoveNext_Some)

declare ht_drain.simps [simp del]

definition iter_inv :: "'v HashTable \<Rightarrow> bool" where
  "iter_inv t \<longleftrightarrow> ht_inv t \<and> iterOK t \<and> unat (iterChain t) < length (chains t) \<and>
     (\<forall>c < unat (iterChain t). chains t ! c = [])"

lemma ht_inv_length: "ht_inv t \<Longrightarrow> length (chains t) < 2 ^ 32"
  using ht_invD(1,2) primes_bounds [of "unat (n_chains t)"] by fastforce

lemma iter_inv_ResetIter: "ht_inv t \<Longrightarrow> iter_inv (HT_ResetIter t)"
  using ht_invD(2,5) [of t] by (simp add: iter_inv_def HT_ResetIter_def ht_inv_def)

lemma ht_inv_tl:
  assumes inv: "ht_inv t" and j: "j < length (chains t)" "chains t ! j \<noteq> []"
  shows "ht_inv (t\<lparr>iterChain := ic, chains := (chains t)[j := tl (chains t ! j)], n_elements := n_elements t - 1\<rparr>)"
    (is "ht_inv ?t")
proof (rule ht_invI)
  note invD = ht_invD [OF inv]
  show "unat (n_chains ?t) \<in> set primes" "length (chains ?t) = unat (n_chains ?t)"
    using invD(1,2) by simp_all
  have "ht_nodes t = add_mset (hd (chains t ! j)) (ht_nodes ?t)"
    using mset_concat_list_update [OF j(1), of "tl (chains t ! j)"] j(2)
    by (cases "chains t ! j") (simp_all add: ht_nodes_def)
  then have "size (ht_nodes t) = size (ht_nodes ?t) + 1" by (simp only: size_add_mset Suc_eq_plus1)
  from arg_cong [OF this, of "of_nat :: nat \<Rightarrow> u32"]
  have "n_elements t = of_nat (size (ht_nodes ?t)) + 1"
    unfolding invD(3) [symmetric] by (simp only: of_nat_add of_nat_1)
  from trans [OF _ word_predI [OF this]] show "n_elements ?t = of_nat (size (ht_nodes ?t))" by simp
  have "set (tl (chains t ! j)) \<subseteq> set (chains t ! j)" using j(2) by (simp add: list.set_sel(2) subsetI)
  then have "bucketed (n_chains t) ((chains t)[j := tl (chains t ! j)])"
    by (intro bucketed_update [OF invD(4)]) (use bucketedD [OF invD(4) j(1)] in blast)
  then show "bucketed (n_chains ?t) (chains ?t)" by simp
qed

lemma HT_RemoveNext_cases:
  assumes inv: "iter_inv t"
  shows "(concat (chains t) = [] \<and> HT_RemoveNext t = Inr (t, None)) \<or>
    (\<exists>t' n. HT_RemoveNext t = Inr (t', Some n) \<and> iter_inv t' \<and> concat (chains t) = n # concat (chains t'))"
proof -
  let ?ic = "unat (iterChain t)"
  note I = inv [unfolded iter_inv_def]
  have ic: "?ic < length (chains t)" and ok: "iterOK t" and hinv: "ht_inv t"
    and empty: "\<And>c. c < ?ic \<Longrightarrow> chains t ! c = []" using I by simp_all
  have small: "length (chains t) < 2 ^ 32" by (rule ht_inv_length [OF hinv])
  show ?thesis
  proof (cases "chains t ! ?ic")
    case (Cons node nxt)
    let ?t = "t\<lparr>chains := (chains t)[?ic := nxt], n_elements := n_elements t - 1\<rparr>"
    have r: "HT_RemoveNext t = Inr (?t, Some node)"
      using ic ok Cons by (simp add: HT_RemoveNext_def Let_def)
    have "concat (chains t) = node # concat (chains ?t)"
      using concat_update_tl [OF ic empty] Cons by simp
    moreover have "ht_inv ?t" using ht_inv_tl [OF hinv ic, of "iterChain t"] Cons by simp
    then have "iter_inv ?t" using I by (simp add: iter_inv_def)
    ultimately show ?thesis using r by blast
  next
    case Nil
    show ?thesis
    proof (cases "scan_chain (chains t) (?ic + 1)")
      case None
      have "chains t ! c = []" if "c < length (chains t)" for c
        using that empty [of c] Nil scan_chain_None [OF None, of c] by (cases "c < ?ic"; cases "c = ?ic") auto
      then have "concat (chains t) = []" by (fastforce simp: in_set_conv_nth)
      moreover have "HT_RemoveNext t = Inr (t, None)"
        using ic ok Nil None by (simp add: HT_RemoveNext_def Let_def)
      ultimately show ?thesis by blast
    next
      case (Some j)
      note j = scan_chain_Some [OF Some]
      have before: "chains t ! c = []" if "c < j" for c
        using that empty [of c] Nil j by (cases "c < ?ic"; cases "c = ?ic") auto
      let ?t = "t\<lparr>iterChain := of_nat j, chains := (chains t)[j := tl (chains t ! j)], n_elements := n_elements t - 1\<rparr>"
      have r: "HT_RemoveNext t = Inr (?t, Some (hd (chains t ! j)))"
        using ic ok Nil Some j by (simp add: HT_RemoveNext_def Let_def hd_conv_nth)
      have "concat (chains t) = hd (chains t ! j) # concat (chains ?t)"
        using concat_update_tl [of j "chains t"] before j by simp
      moreover have "ht_inv ?t" using ht_inv_tl [OF hinv] j by simp
      then have "iter_inv ?t"
        using ok j before small by (simp add: iter_inv_def unat_of_nat nth_list_update)
      ultimately show ?thesis using r by blast
    qed
  qed
qed

lemma ht_drain_ok:
  "iter_inv t \<Longrightarrow> \<exists>t'. ht_drain t = Inr (t', concat (chains t)) \<and> ht_nodes t' = {#} \<and> iter_inv t'"
proof (induction t rule: ht_drain.induct)
  case (1 t)
  from HT_RemoveNext_cases [OF "1.prems"] show ?case
  proof (elim disjE exE conjE)
    assume "concat (chains t) = []" "HT_RemoveNext t = Inr (t, None)"
    then show ?thesis using "1.prems" by (subst ht_drain.simps) (simp add: ht_nodes_def)
  next
    fix t' n
    assume r: "HT_RemoveNext t = Inr (t', Some n)" and inv: "iter_inv t'"
      and c: "concat (chains t) = n # concat (chains t')"
    from "1.IH" [OF r refl refl inv] obtain t'' where
      "ht_drain t' = Inr (t'', concat (chains t'))" "ht_nodes t'' = {#}" "iter_inv t''" by blast
    then show ?thesis using r c by (subst ht_drain.simps) simp
  qed
qed

section \<open>Concrete tables\<close>

lemma HT_construct_ok: "ht_inv (HT_construct b)" "ht_nodes (HT_construct b) = {#}" "ht_get (HT_construct b) k = []"
proof -
  show n: "ht_nodes (HT_construct b) = {#}" by (simp add: ht_nodes_def HT_construct_def)
  show "ht_inv (HT_construct b)"
    by (rule ht_invI) (simp_all add: n, simp_all add: HT_construct_def primes_def bucketed_def)
  have "CHAIN_NO k 53 < 53" using CHAIN_NO_less [of 53 k] by simp
  then show "ht_get (HT_construct b) k = []" by (simp add: ht_get_def HT_construct_def primes_def)
qed

text \<open>A table filled by insertions that do not make it grow.\<close>

definition ht_fill :: "'v HashNode list \<Rightarrow> 'v HashTable" where
  "ht_fill ns = fold (\<lambda>n t. ht_push t n) ns (HT_construct False)"

lemma ht_fold_push:
  assumes "ht_inv t"
  shows "ht_inv (fold (\<lambda>n t. ht_push t n) ns t)" (is "ht_inv ?t")
    "n_chains (fold (\<lambda>n t. ht_push t n) ns t) = n_chains t"
    "n_elements (fold (\<lambda>n t. ht_push t n) ns t) = n_elements t + of_nat (length ns)"
    "ht_get (fold (\<lambda>n t. ht_push t n) ns t) k = rev (filter (\<lambda>n. key n = k) ns) @ ht_get t k"
  using assms
  by (induction ns arbitrary: t) (auto simp: ht_push_ok algebra_simps)

lemma ht_fill_ok:
  "ht_inv (ht_fill ns)" "n_chains (ht_fill ns) = 53" "n_elements (ht_fill ns) = of_nat (length ns)"
  "ht_get (ht_fill ns) k = rev (filter (\<lambda>n. key n = k) ns)"
  using ht_fold_push [OF HT_construct_ok(1), of ns False]
  by (simp_all add: ht_fill_def HT_construct_ok(3)) (simp_all add: HT_construct_def primes_def)

section \<open>Properties\<close>

text \<open>C12. \<open>HT_add_node\<close> never fails on a well-formed table, keeps it well formed (every node in the
  chain of its key, the element count exact, the number of chains one of the primes), adds exactly
  the new node, and puts it in front of the nodes with the same key; when the table grows the order
  of the nodes of every key is reversed.\<close>

theorem hashtable_add:
  assumes "ht_inv t"
  shows "\<exists>t'. HT_add_node t (key n) n = Inr t' \<and> ht_inv t' \<and> ht_nodes t' = add_mset n (ht_nodes t) \<and>
    (\<forall>k. ht_get t' k = (let c = (if key n = k then n # ht_get t k else ht_get t k)
                        in if ht_grows t then rev c else c))"
  by (rule HT_add_node_ok [OF assms])

theorem hashtable_add_witness:
  "\<exists>t'. HT_add_node (ht_fill [\<lparr>key = 3, val = True\<rparr>]) 56 \<lparr>key = 56, val = False\<rparr> = Inr t' \<and> ht_inv t' \<and>
    ht_get t' 56 = [\<lparr>key = 56, val = False\<rparr>] \<and> ht_get t' 3 = [\<lparr>key = 3, val = True\<rparr>]"
proof -
  have "\<not> ht_grows (ht_fill [\<lparr>key = 3, val = True\<rparr>])" by (simp add: ht_grows_def ht_fill_ok)
  with hashtable_add [OF ht_fill_ok(1) [of "[\<lparr>key = 3, val = True\<rparr>]"], of "\<lparr>key = 56, val = False\<rparr>"]
  show ?thesis by (auto simp: ht_fill_ok Let_def)
qed



text \<open>C14. The iteration the reports use (\<open>HT_ResetIter\<close>, then \<open>HT_RemoveNext\<close> until it returns
  null) terminates, returns every node exactly once, chain by chain, and leaves the table empty.\<close>

theorem hashtable_iteration:
  assumes "ht_inv t"
  shows "\<exists>t'. ht_drain (HT_ResetIter t) = Inr (t', concat (chains t)) \<and> ht_nodes t' = {#}"
  using ht_drain_ok [OF iter_inv_ResetIter [OF assms]] by (auto simp: HT_ResetIter_def)

theorem hashtable_iteration_witness:
  "\<exists>t' ns. ht_drain (HT_ResetIter (ht_fill [\<lparr>key = 7, val = True\<rparr>])) = Inr (t', ns) \<and>
    mset ns = {#\<lparr>key = 7, val = True\<rparr>#} \<and> ht_nodes t' = {#}"
proof -
  have "ht_nodes (ht_fill [\<lparr>key = 7, val = True\<rparr>]) = {#\<lparr>key = 7, val = True\<rparr>#}"
    by (simp add: ht_fill_def ht_push_ok(1) [OF HT_construct_ok(1)] HT_construct_ok(2))
  with hashtable_iteration [OF ht_fill_ok(1) [of "[\<lparr>key = 7, val = True\<rparr>]"]] show ?thesis
    unfolding ht_nodes_def by blast
qed

end
