(* ===== verification/LookupTable.thy ===== *)
theory LookupTable
  imports Prelude
begin

unbundle bit_operations_syntax

text \<open>
  The shadow memory of \<open>lookup_table.c\<close> in its 64 bit layout: a table of \<open>LK_SIZE\<close>
  pointers to intermediate tables of \<open>ILT_SIZE\<close> pointers to chunks of \<open>flt_size\<close>
  timestamps.  A pointer array is a function from its index to an option (\<open>None\<close> the null
  pointer); a chunk, zeroed when allocated, is a function from its index.  That an index stays inside
  its array is a lemma, not a check of the code.
\<close>

section \<open>State\<close>

definition LK_SIZE :: u64 where "LK_SIZE = 65536"
definition ILT_SIZE :: u64 where "ILT_SIZE = 16384"

type_synonym chunk = "u64 \<Rightarrow> u32"
type_synonym ILT = "u64 \<Rightarrow> chunk option"

record LookupTable =
  table :: "u64 \<Rightarrow> ILT option"
  flt_size :: u32
  res_shift :: u32

definition LK_create :: "u32 \<Rightarrow> LookupTable res" where
  "LK_create memory_resolution =
     (if memory_resolution = 4 then Inr \<lparr>table = (\<lambda>_. None), flt_size = 16384, res_shift = 2\<rparr>
      else if memory_resolution = 1 then Inr \<lparr>table = (\<lambda>_. None), flt_size = 65536, res_shift = 0\<rparr>
      else if memory_resolution = 2 then Inr \<lparr>table = (\<lambda>_. None), flt_size = 32768, res_shift = 1\<rparr>
      else if memory_resolution = 8 then Inr \<lparr>table = (\<lambda>_. None), flt_size = 8192, res_shift = 3\<rparr>
      else if memory_resolution = 16 then Inr \<lparr>table = (\<lambda>_. None), flt_size = 4096, res_shift = 4\<rparr>
      else Inl (Assertion ''Supported memory resolutions: 1, 2, 4, 8 or 16''))"

section \<open>Access\<close>

definition LK_i :: "u64 \<Rightarrow> u64" where "LK_i addr = drop_bit 30 addr"
definition LK_k :: "u64 \<Rightarrow> u64" where "LK_k addr = drop_bit 16 addr AND 0x3fff"
definition LK_j :: "u32 \<Rightarrow> u64 \<Rightarrow> u64" where "LK_j shift addr = drop_bit (unat shift) (addr AND 0xffff)"

definition LK_insert :: "LookupTable \<Rightarrow> u64 \<Rightarrow> u32 \<Rightarrow> (LookupTable \<times> u32) res" where
  "LK_insert lk addr ts =
     (let i = LK_i addr in
      bindR (assertR (i < LK_SIZE) ''Address overflow'') (\<lambda>_.
      let k = LK_k addr; j = LK_j (res_shift lk) addr;
          ilt = (case table lk i of None \<Rightarrow> (\<lambda>_. None) | Some ilt \<Rightarrow> ilt)
      in case ilt k of
           None \<Rightarrow> Inr (lk\<lparr>table := (table lk)(i := Some (ilt(k := Some ((\<lambda>_. 0)(j := ts)))))\<rparr>, 0)
         | Some c \<Rightarrow> Inr (lk\<lparr>table := (table lk)(i := Some (ilt(k := Some (c(j := ts)))))\<rparr>, c j)))"

definition LK_lookup :: "LookupTable \<Rightarrow> u64 \<Rightarrow> u32 res" where
  "LK_lookup lk addr =
     (let j = LK_j (res_shift lk) addr; i = LK_i addr in
      bindR (assertR (i < LK_SIZE) ''Address overflow'') (\<lambda>_.
      let k = LK_k addr in
      case table lk i of None \<Rightarrow> Inr 0
      | Some ilt \<Rightarrow> (case ilt k of None \<Rightarrow> Inr 0 | Some ssm \<Rightarrow> Inr (ssm j))))"

section \<open>Searching the active timestamps\<close>

definition arr_get :: "u32 list \<Rightarrow> int \<Rightarrow> u32 res" where
  "arr_get array i = (if 0 \<le> i \<and> i < int (length array) then Inr (array ! nat i) else Inl OutOfBounds)"

text \<open>The \<open>do \<dots> while(min <= max)\<close> loop (\<open>mn\<close>, \<open>mx\<close>) of \<open>binary_search\<close>.\<close>

function binary_search_loop :: "u32 list \<Rightarrow> u32 \<Rightarrow> int \<Rightarrow> int \<Rightarrow> u32 res" where
  "binary_search_loop array ts mn mx =
     (let index = (mn + mx) div 2 in
      bindR (arr_get array index) (\<lambda>a.
        if a = ts then Inr (of_int index)
        else if a > ts
        then (if mn \<le> index - 1 then binary_search_loop array ts mn (index - 1)
              else Inl (Assertion ''Binary search fail''))
        else bindR (arr_get array (index + 1)) (\<lambda>b.
          if b > ts then Inr (of_int index)
          else if index + 1 \<le> mx then binary_search_loop array ts (index + 1) mx
          else Inl (Assertion ''Binary search fail''))))"
  by pat_completeness auto
termination
  by (relation "measure (\<lambda>(array, ts, mn, mx). nat (mx - mn + 1))") auto

declare binary_search_loop.simps [simp del]

definition binary_search :: "u32 list \<Rightarrow> u32 \<Rightarrow> u32 \<Rightarrow> u32 \<Rightarrow> u32 res" where
  "binary_search array init sz ts =
     (if sz = 1 then Inr 0
      else bindR (arr_get array 1) (\<lambda>a1.
        if a1 > ts then Inr 0
        else bindR (arr_get array (uint (sz - 1))) (\<lambda>l.
          if l \<le> ts then Inr (sz - 1)
          else binary_search_loop array ts (sint init) (sint (sz - 1)))))"

section \<open>Compression\<close>

text \<open>The content of a cell, \<open>None\<close> where its chunk was never allocated, and the table whose
  allocated cells are replaced through \<open>f\<close> (the loops over \<open>LK_SIZE\<close>, \<open>ILT_SIZE\<close> and \<open>flt_size\<close>
  touch each allocated cell once).\<close>

definition LK_cell :: "LookupTable \<Rightarrow> u64 \<Rightarrow> u64 \<Rightarrow> u64 \<Rightarrow> u32 option" where
  "LK_cell lk i k j = (case table lk i of None \<Rightarrow> None | Some ilt \<Rightarrow> map_option (\<lambda>c. c j) (ilt k))"

definition LK_map_cells :: "(u64 \<Rightarrow> u64 \<Rightarrow> u64 \<Rightarrow> u32 \<Rightarrow> u32) \<Rightarrow> LookupTable \<Rightarrow> LookupTable" where
  "LK_map_cells f lk = lk\<lparr>table := (\<lambda>i. if i < LK_SIZE then
       map_option (\<lambda>ilt k. if k < ILT_SIZE then
         map_option (\<lambda>c j. if j < ucast (flt_size lk) then f i k j (c j) else c j) (ilt k) else ilt k) (table lk i)
     else table lk i)\<rparr>"

text \<open>The loop over \<open>k\<close> of \<open>LK_compress_rms\<close>, from the top of the stack down.\<close>

fun compress_rms_scan :: "u32 list \<Rightarrow> nat \<Rightarrow> u32 \<Rightarrow> u32" where
  "compress_rms_scan arr_rid 0 rid = 0"
| "compress_rms_scan arr_rid (Suc k) rid =
     (if arr_rid ! k \<le> rid then of_nat k + 1 else compress_rms_scan arr_rid k rid)"

definition compress_rms_cell :: "u32 list \<Rightarrow> u32 \<Rightarrow> u32" where
  "compress_rms_cell arr_rid rid = (if rid = 0 then 0 else compress_rms_scan arr_rid (length arr_rid) rid)"

definition LK_compress_rms :: "LookupTable \<Rightarrow> u32 list \<Rightarrow> LookupTable" where
  "LK_compress_rms lk arr_rid = LK_map_cells (\<lambda>_ _ _. compress_rms_cell arr_rid) lk"

text \<open>Bit 31 of a global timestamp records that the kernel wrote the value.\<close>

definition SET_SYSCALL :: "u32 \<Rightarrow> u32" where "SET_SYSCALL x = x OR 0x80000000"
definition SYSCALL :: "u32 \<Rightarrow> bool" where "SYSCALL x = (x AND 0x80000000 \<noteq> 0)"
definition TS :: "u32 \<Rightarrow> u32" where "TS x = x AND 0x7FFFFFFF"
definition MAX_COUNT_VAL :: u32 where "MAX_COUNT_VAL = 0x80000000"

text \<open>One cell of the global shadow memory: its \<open>gts\<close> and the index \<open>ts\<close> of the greatest active
  timestamp not above it.\<close>

definition drms_global_ts :: "u32 list \<Rightarrow> u32 \<Rightarrow> u32 option \<Rightarrow> (u32 \<times> u32) res" where
  "drms_global_ts array sz g = (case g of
     None \<Rightarrow> Inr (0, 0)
   | Some v \<Rightarrow> (let gts = TS v in
       if gts > 0 then bindR (binary_search array 0 sz gts) (\<lambda>ts. Inr (gts, ts)) else Inr (gts, 0)))"

definition drms_local :: "u32 list \<Rightarrow> u32 \<Rightarrow> u32 \<Rightarrow> u32 \<Rightarrow> u32 \<Rightarrow> u32 res" where
  "drms_local array sz gts ts l =
     bindR (arr_get array (uint ts)) (\<lambda>ats.
       if l < ats then bindR (binary_search array 0 ts l) (\<lambda>new. Inr (3 * new))
       else bindR (if ts + 1 < sz then bindR (arr_get array (uint (ts + 1))) (\<lambda>nts. Inr (l \<ge> nts)) else Inr False)
         (\<lambda>above. if above then bindR (binary_search array ts sz l) (\<lambda>new. Inr (3 * new))
           else if l < gts then Inr (3 * ts)
           else if l = gts then Inr (3 * ts + 1)
           else Inr (3 * ts + 2)))"

definition drms_global :: "u32 \<Rightarrow> u32 \<Rightarrow> u32" where
  "drms_global ts v = (if SYSCALL v then SET_SYSCALL (3 * ts + 1) else 3 * ts + 1)"

fun mapR :: "('a \<Rightarrow> 'b res) \<Rightarrow> 'a list \<Rightarrow> 'b list res" where
  "mapR f [] = Inr []"
| "mapR f (x # xs) = bindR (f x) (\<lambda>y. bindR (mapR f xs) (\<lambda>ys. Inr (y # ys)))"

text \<open>One cell in the global memory and in the memory of each running thread.\<close>

definition compress_drms_cell :: "u32 list \<Rightarrow> u32 \<Rightarrow> u32 option \<Rightarrow> u32 option list \<Rightarrow> (u32 option \<times> u32 option list) res" where
  "compress_drms_cell array sz g ls =
     bindR (drms_global_ts array sz g) (\<lambda>(gts, ts).
     bindR (mapR (\<lambda>l. case l of None \<Rightarrow> Inr None
                   | Some v \<Rightarrow> bindR (drms_local array sz gts ts v) (\<lambda>v'. Inr (Some v'))) ls)
       (\<lambda>ls'. Inr (map_option (drms_global ts) g, ls')))"

definition LK_indices :: "u32 \<Rightarrow> (u64 \<times> u64 \<times> u64) list" where
  "LK_indices flt = [(of_nat i, of_nat k, of_nat j).
     i \<leftarrow> [0..<unat LK_SIZE], k \<leftarrow> [0..<unat ILT_SIZE], j \<leftarrow> [0..<unat flt]]"

definition LK_compress_drms :: "u32 list \<Rightarrow> u32 \<Rightarrow> LookupTable \<Rightarrow> LookupTable list \<Rightarrow> (LookupTable \<times> LookupTable list) res" where
  "LK_compress_drms array sz global shamem =
     (let cell = (\<lambda>i k j. compress_drms_cell array sz (LK_cell global i k j) (map (\<lambda>l. LK_cell l i k j) shamem))
      in case find (\<lambda>(i, k, j). isl (cell i k j)) (LK_indices (flt_size global)) of
           Some (i, k, j) \<Rightarrow> Inl (projl (cell i k j))
         | None \<Rightarrow> Inr (LK_map_cells (\<lambda>i k j _. the (fst (projr (cell i k j)))) global,
             map (\<lambda>t. LK_map_cells (\<lambda>i k j _. the (snd (projr (cell i k j)) ! t)) (shamem ! t)) [0..<length shamem]))"

section \<open>Addresses and cells\<close>

definition LK_addr_cell :: "u32 \<Rightarrow> u64 \<Rightarrow> u64" where
  "LK_addr_cell shift addr = drop_bit (unat shift) addr"

lemma bit_LK_i: "bit (LK_i a) n \<longleftrightarrow> bit a (n + 30)"
  by (simp add: LK_i_def bit_drop_bit_eq add.commute)

lemma LK_k_mask: "LK_k a = take_bit 14 (drop_bit 16 a)"
proof -
  have "(0x3fff :: u64) = mask 14" by (simp add: mask_eq_exp_minus_1)
  then show ?thesis by (simp add: LK_k_def take_bit_eq_mask)
qed

lemma LK_j_mask: "LK_j s a = drop_bit (unat s) (take_bit 16 a)"
proof -
  have "(0xffff :: u64) = mask 16" by (simp add: mask_eq_exp_minus_1)
  then show ?thesis by (simp add: LK_j_def take_bit_eq_mask)
qed

lemma bit_LK_k: "bit (LK_k a) n \<longleftrightarrow> n < 14 \<and> bit a (n + 16)"
  by (simp add: LK_k_mask bit_take_bit_iff bit_drop_bit_eq add.commute)

lemma bit_LK_j: "bit (LK_j s a) n \<longleftrightarrow> n + unat s < 16 \<and> bit a (n + unat s)"
  by (auto simp: LK_j_mask bit_take_bit_iff bit_drop_bit_eq add.commute)

lemma bit_addr_cell: "bit (LK_addr_cell s a) n \<longleftrightarrow> bit a (n + unat s)"
  by (simp add: LK_addr_cell_def bit_drop_bit_eq add.commute)

text \<open>Two addresses share their three indices exactly when they lie in the same cell of
  \<open>memory_resolution\<close> bytes.\<close>

lemma LK_indices_cell:
  assumes s: "unat s \<le> 16"
  shows "(LK_i a = LK_i b \<and> LK_k a = LK_k b \<and> LK_j s a = LK_j s b) \<longleftrightarrow> LK_addr_cell s a = LK_addr_cell s b"
proof
  assume eq: "LK_i a = LK_i b \<and> LK_k a = LK_k b \<and> LK_j s a = LK_j s b"
  have "bit a n = bit b n" if n: "unat s \<le> n" for n
  proof -
    consider "n < 16" | "16 \<le> n" "n < 30" | "30 \<le> n" by linarith
    then show ?thesis
    proof cases
      case 1
      from eq have "bit (LK_j s a) (n - unat s) = bit (LK_j s b) (n - unat s)" by simp
      with 1 n show ?thesis by (simp add: bit_LK_j)
    next
      case 2
      from eq have "bit (LK_k a) (n - 16) = bit (LK_k b) (n - 16)" by simp
      moreover have "n - 16 < 14" using 2 by linarith
      ultimately show ?thesis using 2 by (simp add: bit_LK_k)
    next
      case 3
      from eq have "bit (LK_i a) (n - 30) = bit (LK_i b) (n - 30)" by simp
      with 3 show ?thesis by (simp add: bit_LK_i)
    qed
  qed
  then show "LK_addr_cell s a = LK_addr_cell s b"
    by (intro bit_word_eqI) (simp add: bit_addr_cell)
next
  assume eq: "LK_addr_cell s a = LK_addr_cell s b"
  have bits: "bit a (n + unat s) = bit b (n + unat s)" for n
    using arg_cong [OF eq, of "\<lambda>c. bit c n"] by (simp add: bit_addr_cell)
  have high: "bit a m = bit b m" if "unat s \<le> m" for m
    using bits [of "m - unat s"] that by simp
  show "LK_i a = LK_i b \<and> LK_k a = LK_k b \<and> LK_j s a = LK_j s b"
    using s high by (intro conjI bit_word_eqI) (auto simp: bit_LK_i bit_LK_k bit_LK_j)
qed

lemma LK_k_less: "LK_k a < ILT_SIZE"
proof -
  have "unat (LK_k a) < 2 ^ 14" 
    unfolding LK_k_mask unsigned_take_bit_eq by (rule take_bit_nat_less_exp)
  then show ?thesis by (simp add: ILT_SIZE_def word_less_nat_alt)
qed

lemma LK_j_less:
  assumes "unat s \<le> 16"
  shows "unat (LK_j s a) < 2 ^ (16 - unat s)"
proof -
  have "unat (take_bit 16 a) < 2 ^ 16"
    unfolding unsigned_take_bit_eq by (rule take_bit_nat_less_exp)
  also have "(2 :: nat) ^ 16 = 2 ^ (16 - unat s) * 2 ^ unat s"
    using assms by (simp flip: power_add)
  finally have "unat (take_bit 16 a) div 2 ^ unat s < 2 ^ (16 - unat s)"
    by (simp add: less_mult_imp_div_less)
  then have "drop_bit (unat s) (unat (take_bit 16 a)) < 2 ^ (16 - unat s)"
    by (simp only: drop_bit_eq_div)
  then show ?thesis by (simp only: LK_j_mask unat_drop_bit_eq)
qed

section \<open>Insertion and lookup\<close>

definition lk_inv :: "LookupTable \<Rightarrow> bool" where
  "lk_inv lk \<longleftrightarrow> unat (res_shift lk) \<le> 4 \<and> unat (flt_size lk) = 2 ^ (16 - unat (res_shift lk)) \<and>
     (\<forall>i k j. LK_cell lk i k j \<noteq> None \<longrightarrow> i < LK_SIZE \<and> k < ILT_SIZE)"

text \<open>The timestamp of a cell, 0 while its chunk is not allocated.\<close>

definition LK_sm :: "LookupTable \<Rightarrow> u64 \<Rightarrow> u32" where
  "LK_sm lk c =
     (let a = push_bit (unat (res_shift lk)) c
      in if LK_addr_cell (res_shift lk) a \<noteq> c then 0
         else case LK_cell lk (LK_i a) (LK_k a) (LK_j (res_shift lk) a) of None \<Rightarrow> 0 | Some v \<Rightarrow> v)"

definition LK_valid :: "u64 \<Rightarrow> bool" where
  "LK_valid addr \<longleftrightarrow> LK_i addr < LK_SIZE"

lemma addr_cell_push [simp]: "LK_addr_cell s (push_bit (unat s) (LK_addr_cell s a)) = LK_addr_cell s a"
  by (rule bit_word_eqI) (auto simp: bit_addr_cell bit_push_bit_iff dest: bit_imp_le_length)

lemma indices_push:
  assumes "unat s \<le> 16"
  shows "LK_i (push_bit (unat s) (LK_addr_cell s a)) = LK_i a"
    "LK_k (push_bit (unat s) (LK_addr_cell s a)) = LK_k a"
    "LK_j s (push_bit (unat s) (LK_addr_cell s a)) = LK_j s a"
  using LK_indices_cell [OF assms, of "push_bit (unat s) (LK_addr_cell s a)" a] by simp_all

lemma LK_sm_addr:
  assumes "lk_inv lk"
  shows "LK_sm lk (LK_addr_cell (res_shift lk) a) =
    (case LK_cell lk (LK_i a) (LK_k a) (LK_j (res_shift lk) a) of None \<Rightarrow> 0 | Some v \<Rightarrow> v)"
  using assms by (simp add: LK_sm_def Let_def lk_inv_def indices_push)

lemma LK_lookup_sm:
  assumes "lk_inv lk" "LK_valid a"
  shows "LK_lookup lk a = Inr (LK_sm lk (LK_addr_cell (res_shift lk) a))"
  using assms by (simp add: LK_lookup_def LK_valid_def LK_sm_addr LK_cell_def split: option.split)

lemma LK_insert_cell:
  assumes "LK_valid a"
  shows "\<exists>lk'. LK_insert lk a ts =
      Inr (lk', case LK_cell lk (LK_i a) (LK_k a) (LK_j (res_shift lk) a) of None \<Rightarrow> 0 | Some v \<Rightarrow> v) \<and>
    res_shift lk' = res_shift lk \<and> flt_size lk' = flt_size lk \<and>
    (\<forall>i k j. LK_cell lk' i k j =
      (if i = LK_i a \<and> k = LK_k a then
         (if j = LK_j (res_shift lk) a then Some ts
          else case LK_cell lk i k j of None \<Rightarrow> Some 0 | Some v \<Rightarrow> Some v)
       else LK_cell lk i k j))"
  using assms by (auto simp: LK_insert_def LK_valid_def LK_cell_def Let_def split: option.splits)

lemma LK_insert_ok:
  assumes inv: "lk_inv lk" and v: "LK_valid a"
  shows "\<exists>lk'. LK_insert lk a ts = Inr (lk', LK_sm lk (LK_addr_cell (res_shift lk) a)) \<and> lk_inv lk' \<and>
    LK_sm lk' = (LK_sm lk)(LK_addr_cell (res_shift lk) a := ts) \<and> res_shift lk' = res_shift lk"
proof -
  let ?s = "res_shift lk" let ?c = "LK_addr_cell ?s a"
  have s: "unat ?s \<le> 16" using inv by (simp add: lk_inv_def)
  from LK_insert_cell [OF v, of lk ts] obtain lk' where
    r: "LK_insert lk a ts = Inr (lk', case LK_cell lk (LK_i a) (LK_k a) (LK_j ?s a) of None \<Rightarrow> 0 | Some v \<Rightarrow> v)"
    and f: "res_shift lk' = ?s" "flt_size lk' = flt_size lk"
    and c: "\<And>i k j. LK_cell lk' i k j = (if i = LK_i a \<and> k = LK_k a then
         (if j = LK_j ?s a then Some ts else case LK_cell lk i k j of None \<Rightarrow> Some 0 | Some v \<Rightarrow> Some v)
       else LK_cell lk i k j)" by blast
  have inv': "lk_inv lk'"
    using inv f v LK_k_less [of a] by (auto simp: lk_inv_def c LK_valid_def split: option.splits)
  have "LK_sm lk' d = ((LK_sm lk)(?c := ts)) d" for d
  proof (cases "LK_addr_cell ?s (push_bit (unat ?s) d) = d")
    case False
    then have "d \<noteq> ?c" by auto
    with False show ?thesis by (simp add: LK_sm_def Let_def f)
  next
    case True
    define b where "b = push_bit (unat ?s) d"
    have d: "d = LK_addr_cell ?s b" using True by (simp add: b_def)
    have "LK_sm lk' d = (case LK_cell lk' (LK_i b) (LK_k b) (LK_j ?s b) of None \<Rightarrow> 0 | Some v \<Rightarrow> v)"
      using LK_sm_addr [OF inv', of b] by (simp add: d f)
    moreover have "LK_sm lk d = (case LK_cell lk (LK_i b) (LK_k b) (LK_j ?s b) of None \<Rightarrow> 0 | Some v \<Rightarrow> v)"
      using LK_sm_addr [OF inv, of b] by (simp add: d)
    ultimately show ?thesis
      using LK_indices_cell [OF s, of b a] by (auto simp: c d split: option.splits)
  qed
  then show ?thesis using r inv' f by (auto simp: LK_sm_addr [OF inv])
qed

lemma LK_create_ok:
  assumes "LK_create m = Inr lk"
  shows "lk_inv lk" "LK_sm lk = (\<lambda>_. 0)" "m = 2 ^ unat (res_shift lk)"
  using assms
  by (auto simp: LK_create_def lk_inv_def LK_sm_def LK_cell_def Let_def fun_eq_iff split: if_splits)

subsection \<open>The contract the memory analysis relies on\<close>

locale shadow_memory =
  fixes inv :: "'m \<Rightarrow> bool"
    and valid :: "u64 \<Rightarrow> bool"
    and cell :: "'m \<Rightarrow> u64 \<Rightarrow> u64"
    and sm :: "'m \<Rightarrow> u64 \<Rightarrow> u32"
    and insert :: "'m \<Rightarrow> u64 \<Rightarrow> u32 \<Rightarrow> ('m \<times> u32) res"
    and lookup :: "'m \<Rightarrow> u64 \<Rightarrow> u32 res"
  assumes lookup_ok: "inv m \<Longrightarrow> valid a \<Longrightarrow> lookup m a = Inr (sm m (cell m a))"
    and insert_ok: "inv m \<Longrightarrow> valid a \<Longrightarrow> \<exists>m'. insert m a ts = Inr (m', sm m (cell m a)) \<and> inv m' \<and>
      sm m' = (sm m)(cell m a := ts) \<and> cell m' = cell m"
begin

lemma lookup_after_insert:
  assumes "inv m" "valid a" "valid b"
  shows "\<exists>m' old. insert m a ts = Inr (m', old) \<and> lookup m a = Inr old \<and>
    (cell m b = cell m a \<longrightarrow> lookup m' b = Inr ts) \<and> (cell m b \<noteq> cell m a \<longrightarrow> lookup m' b = lookup m b)"
proof -
  from insert_ok [OF assms(1,2), of ts] obtain m' where
    m': "insert m a ts = Inr (m', sm m (cell m a))" "inv m'" "sm m' = (sm m)(cell m a := ts)" "cell m' = cell m"
    by blast
  then show ?thesis using assms by (auto simp: lookup_ok)
qed

end

interpretation lk: shadow_memory lk_inv LK_valid "\<lambda>lk. LK_addr_cell (res_shift lk)" LK_sm LK_insert LK_lookup
proof
  show "\<exists>m'. LK_insert m a ts = Inr (m', LK_sm m (LK_addr_cell (res_shift m) a)) \<and> lk_inv m' \<and>
      LK_sm m' = (LK_sm m)(LK_addr_cell (res_shift m) a := ts) \<and>
      LK_addr_cell (res_shift m') = LK_addr_cell (res_shift m)"
    if "lk_inv m" "LK_valid a" for m a ts
    using LK_insert_ok [OF that, of ts] by auto
qed (rule LK_lookup_sm)

section \<open>The binary search\<close>

text \<open>What the callers ask for: the greatest index below \<open>sz\<close> whose entry is not above \<open>ts\<close>.\<close>

definition greatest_le :: "u32 list \<Rightarrow> nat \<Rightarrow> u32 \<Rightarrow> nat \<Rightarrow> bool" where
  "greatest_le array sz ts r \<longleftrightarrow> r < sz \<and> array ! r \<le> ts \<and> (\<forall>i. r < i \<and> i < sz \<longrightarrow> ts < array ! i)"

lemma greatest_leI:
  assumes "sorted_wrt (<) array" "sz \<le> length array" "r < sz" "array ! r \<le> ts" "r + 1 < sz \<Longrightarrow> ts < array ! (r + 1)"
  shows "greatest_le array sz ts r"
  unfolding greatest_le_def
proof (intro conjI allI impI)
  fix i
  assume i: "r < i \<and> i < sz"
  then have "ts < array ! (r + 1)" using assms(5) by simp
  also have "array ! (r + 1) \<le> array ! i"
    using sorted_wrt_nth_less [OF assms(1), of "r + 1" i] i assms(2) by (cases "i = r + 1") auto
  finally show "ts < array ! i" .
qed (use assms in auto)

lemma arr_get_nat [simp]: "i < length array \<Longrightarrow> arr_get array (int i) = Inr (array ! i)"
  by (simp add: arr_get_def)

lemma binary_search_loop_ok:
  assumes "sorted_wrt (<) array" "sz \<le> length array" "mn \<le> mx" "mx < sz"
    and "array ! mn \<le> ts" "ts < array ! (sz - 1)" "\<And>i. mx < i \<Longrightarrow> i < sz \<Longrightarrow> ts < array ! i"
  shows "\<exists>r. binary_search_loop array ts (int mn) (int mx) = Inr (of_nat r) \<and> greatest_le array sz ts r"
  using assms(3-)
proof (induction "mx - mn" arbitrary: mn mx rule: less_induct)
  case less
  define idx where "idx = (mn + mx) div 2"
  have i: "mn \<le> idx" "idx \<le> mx" using less.prems(1) by (simp_all add: idx_def)
  have ii: "(int mn + int mx) div 2 = int idx" by (simp add: idx_def)
  have g: "arr_get array (int idx) = Inr (array ! idx)" using i less.prems(2) assms(2) by simp
  note unf = binary_search_loop.simps [of array ts "int mn" "int mx", unfolded Let_def ii g bindR_simps]
  consider "array ! idx = ts" | "ts < array ! idx" | "array ! idx < ts" by (meson linorder_neqE)
  then show ?case
  proof cases
    case 1
    have "greatest_le array sz ts idx"
    proof (rule greatest_leI [OF assms(1,2)])
      show "ts < array ! (idx + 1)" if "idx + 1 < sz"
        using sorted_wrt_nth_less [OF assms(1), of idx "idx + 1"] that assms(2) 1 by simp
    qed (use i 1 less.prems in simp_all)
    then show ?thesis using 1 by (intro exI [of _ idx]) (simp add: unf)
  next
    case 2
    have "mn \<noteq> idx" using 2 less.prems(3) by auto
    with i have lt: "mn \<le> idx - 1" "idx - 1 < mx" "0 < idx" by simp_all
    have above: "ts < array ! k" if "idx - 1 < k" "k < sz" for k
    proof -
      from that(1) have "k = idx \<or> idx < k" by linarith
      then show ?thesis
        using sorted_wrt_nth_less [OF assms(1), of idx k] that(2) 2 assms(2) by auto
    qed
    have "\<exists>r. binary_search_loop array ts (int mn) (int (idx - 1)) = Inr (of_nat r) \<and> greatest_le array sz ts r"
      by (rule less.hyps) (use lt less.prems above in simp_all)
    moreover have "binary_search_loop array ts (int mn) (int mx) = binary_search_loop array ts (int mn) (int (idx - 1))"
    proof -
      have "array ! idx \<noteq> ts" "int mn \<le> int idx - 1" "int (idx - 1) = int idx - 1" using 2 lt by auto
      then show ?thesis using 2 by (simp only: unf if_False if_True)
    qed
    ultimately show ?thesis by simp
  next
    case 3
    have nl: "idx + 1 < sz"
    proof (rule ccontr)
      assume "\<not> idx + 1 < sz"
      with i less.prems(2) have "idx = sz - 1" by simp
      with 3 less.prems(4) show False by simp
    qed
    have g1: "arr_get array (int idx + 1) = Inr (array ! (idx + 1))"
      using arr_get_nat [of "idx + 1" array] nl assms(2) by (simp add: add.commute)
    have n3: "array ! idx \<noteq> ts" "\<not> ts < array ! idx" using 3 by auto
    note unf3 = unf [simplified n3 if_False g1 bindR_simps]
    show ?thesis
    proof (cases "ts < array ! (idx + 1)")
      case True
      have "greatest_le array sz ts idx"
        by (rule greatest_leI [OF assms(1,2)]) (use i 3 True less.prems in simp_all)
      then show ?thesis using True by (intro exI [of _ idx]) (simp add: unf3)
    next
      case False
      have le: "idx + 1 \<le> mx"
        using less.prems(5) [of "idx + 1"] nl False by (cases "idx + 1 \<le> mx") simp_all
      have "\<exists>r. binary_search_loop array ts (int (idx + 1)) (int mx) = Inr (of_nat r) \<and> greatest_le array sz ts r"
        by (rule less.hyps) (use le i less.prems False in simp_all)
      moreover have "binary_search_loop array ts (int mn) (int mx) = binary_search_loop array ts (int (idx + 1)) (int mx)"
        using False le by (simp add: unf3 add.commute)
      ultimately show ?thesis by simp
    qed
  qed
qed

lemma binary_search_ok:
  assumes sorted: "sorted_wrt (<) array" and len: "length array < 2 ^ 31"
    and sz: "0 < unat sz" "unat sz \<le> length array"
    and init: "unat init < unat sz" "array ! unat init \<le> ts"
  shows "\<exists>r. binary_search array init sz ts = Inr (of_nat r) \<and> greatest_le array (unat sz) ts r"
proof -
  have sz1: "unat (sz - 1) = unat sz - 1" using sz(1) by (simp add: unat_minus_one unat_gt_0)
  have u1: "uint (sz - 1) = int (unat sz - 1)" by (simp only: uint_nat sz1)
  have g: "arr_get array (uint (sz - 1)) = Inr (array ! (unat sz - 1))"
    unfolding u1 by (rule arr_get_nat) (use sz in simp)
  have a0: "array ! 0 \<le> ts"
    using sorted_wrt_nth_less [OF sorted, of 0 "unat init"] init sz(2) by (cases "unat init = 0") auto
  consider "unat sz = 1" | "1 < unat sz" "ts < array ! 1" | "1 < unat sz" "array ! 1 \<le> ts" "array ! (unat sz - 1) \<le> ts"
    | "1 < unat sz" "array ! 1 \<le> ts" "ts < array ! (unat sz - 1)"
  proof -
    from sz(1) have "unat sz = 1 \<or> 1 < unat sz" by linarith
    then show ?thesis
      using that by (cases "ts < array ! 1"; cases "ts < array ! (unat sz - 1)") (auto simp: not_less)
  qed
  then show ?thesis
  proof cases
    case 1
    then have "sz = 1" by (simp add: word_unat_eq_iff)
    with a0 show ?thesis by (intro exI [of _ 0]) (simp add: binary_search_def greatest_le_def)
  next
    case 2
    have "greatest_le array (unat sz) ts 0"
      by (rule greatest_leI [OF sorted sz(2)]) (use 2 a0 in simp_all)
    then show ?thesis using 2 sz arr_get_nat [of 1 array]
      by (intro exI [of _ 0]) (auto simp: binary_search_def)
  next
    case 3
    have "greatest_le array (unat sz) ts (unat sz - 1)"
      by (rule greatest_leI [OF sorted sz(2)]) (use 3 in simp_all)
    moreover have "binary_search array init sz ts = Inr (of_nat (unat sz - 1))"
      using 3 sz arr_get_nat [of 1 array] g by (auto simp: binary_search_def simp flip: sz1)
    ultimately show ?thesis by blast
  next
    case 4
    have "unat init < 2 ^ 31" "unat (sz - 1) < 2 ^ 31" using init(1) sz(2) len sz1 by linarith+
    then have si: "sint init = int (unat init)" "sint (sz - 1) = int (unat sz - 1)"
      by (simp_all only: sint_small sz1)
    have "binary_search array init sz ts = binary_search_loop array ts (int (unat init)) (int (unat sz - 1))"
      using 4 sz arr_get_nat [of 1 array] g by (auto simp: binary_search_def si)
    moreover have "\<exists>r. binary_search_loop array ts (int (unat init)) (int (unat sz - 1)) = Inr (of_nat r) \<and>
        greatest_le array (unat sz) ts r"
      by (rule binary_search_loop_ok [OF sorted sz(2)]) (use init 4 in simp_all)
    ultimately show ?thesis by simp
  qed
qed

section \<open>Compression preserves the order of the timestamps\<close>

subsection \<open>RMS\<close>

lemma compress_rms_scan_le: "n < 2 ^ 32 \<Longrightarrow> unat (compress_rms_scan arr n x) \<le> n"
proof (induction n)
  case (Suc n)
  have "unat ((of_nat n :: u32) + 1) = Suc n" by (rule unat_of_nat_Suc [OF Suc.prems])
  then show ?case using Suc by simp
qed simp

lemma compress_rms_scan_order:
  assumes "sorted_wrt (<) arr" "n \<le> length arr" "n < 2 ^ 32" "i < n"
  shows "Suc i \<le> unat (compress_rms_scan arr n x) \<longleftrightarrow> arr ! i \<le> x"
  using assms(2-)
proof (induction n)
  case (Suc n)
  have n1: "unat ((of_nat n :: u32) + 1) = Suc n" by (rule unat_of_nat_Suc [OF Suc.prems(2)])
  show ?case
  proof (cases "arr ! n \<le> x")
    case True
    have "arr ! i \<le> arr ! n"
      using sorted_wrt_nth_less [OF assms(1), of i n] Suc.prems by (cases "i = n") auto
    with True n1 Suc.prems show ?thesis by simp
  next
    case False
    with Suc compress_rms_scan_le [of n arr x] show ?thesis by (cases "i = n") auto
  qed
qed simp

lemma compress_rms_cell_order:
  assumes "sorted_wrt (<) arr" "length arr < 2 ^ 32" "i < length arr" "0 < arr ! i"
  shows "Suc i \<le> unat (compress_rms_cell arr x) \<longleftrightarrow> arr ! i \<le> x"
  using compress_rms_scan_order [OF assms(1) order_refl assms(2,3), of x] assms(4)
  by (auto simp: compress_rms_cell_def)

lemma compress_rms_cell_le: "length arr < 2 ^ 32 \<Longrightarrow> unat (compress_rms_cell arr x) \<le> length arr"
  by (simp add: compress_rms_cell_def compress_rms_scan_le)

lemma LK_cell_map_cells:
  assumes "lk_inv lk"
  shows "LK_cell (LK_map_cells f lk) i k j =
    (if j < ucast (flt_size lk) then map_option (f i k j) (LK_cell lk i k j) else LK_cell lk i k j)"
proof (cases "LK_cell lk i k j")
  case None
  then show ?thesis
    by (auto simp: LK_map_cells_def LK_cell_def split: option.splits)
next
  case (Some v)
  with assms have "i < LK_SIZE" "k < ILT_SIZE" by (auto simp: lk_inv_def)
  with Some show ?thesis by (auto simp: LK_map_cells_def LK_cell_def split: option.splits)
qed

lemma LK_map_cells_fields [simp]:
  "res_shift (LK_map_cells f lk) = res_shift lk" "flt_size (LK_map_cells f lk) = flt_size lk"
  by (simp_all add: LK_map_cells_def)

lemma lk_inv_map_cells [inv_intros]: "lk_inv lk \<Longrightarrow> lk_inv (LK_map_cells f lk)"
  unfolding lk_inv_def [of "LK_map_cells f lk"]
  by (auto simp: LK_cell_map_cells lk_inv_def split: if_splits)

lemma LK_j_in_chunk:
  assumes "lk_inv lk"
  shows "LK_j (res_shift lk) a < ucast (flt_size lk)"
proof -
  from LK_j_less [of "res_shift lk" a] assms show ?thesis
    by (simp add: word_less_nat_alt lk_inv_def unat_ucast_32_64)
qed

lemma LK_sm_map_cells:
  assumes inv: "lk_inv lk" and f0: "f 0 = 0"
  shows "LK_sm (LK_map_cells (\<lambda>_ _ _. f) lk) c = f (LK_sm lk c)"
proof -
  let ?a = "push_bit (unat (res_shift lk)) c"
  show ?thesis
    using LK_j_in_chunk [OF inv, of ?a] f0
    by (auto simp: LK_sm_def Let_def LK_cell_map_cells [OF inv] split: option.splits)
qed

lemma LK_compress_rms_sm:
  assumes "lk_inv lk"
  shows "lk_inv (LK_compress_rms lk arr)" "LK_sm (LK_compress_rms lk arr) c = compress_rms_cell arr (LK_sm lk c)"
    "res_shift (LK_compress_rms lk arr) = res_shift lk"
  using assms by (simp_all add: LK_compress_rms_def lk_inv_map_cells LK_sm_map_cells compress_rms_cell_def)

subsection \<open>DRMS\<close>

lemma greatest_le_order:
  assumes "sorted_wrt (<) array" "n = length array" "greatest_le array n x r" "i < n"
  shows "i \<le> r \<longleftrightarrow> array ! i \<le> x"
proof (cases "i \<le> r")
  case True
  then have "array ! i \<le> array ! r"
    using sorted_wrt_nth_less [OF assms(1), of i r] assms by (cases "i = r") (auto simp: greatest_le_def)
  with True assms(3) show ?thesis by (auto simp: greatest_le_def)
next
  case False
  with assms(3,4) have "x < array ! i" by (simp add: greatest_le_def)
  with False show ?thesis by auto
qed

text \<open>The array of active timestamps as the overflow handler builds it: strictly increasing from an
  initial 0, and short enough for the new timestamps to stay clear of bit 31.\<close>

definition active_array :: "u32 list \<Rightarrow> u32 \<Rightarrow> bool" where
  "active_array array sz \<longleftrightarrow> sorted_wrt (<) array \<and> length array = unat sz \<and> 0 < unat sz \<and> array ! 0 = 0 \<and>
     3 * length array < 2 ^ 31"

lemma unat_small_mult3: "3 * n + d < 2 ^ 32 \<Longrightarrow> unat (3 * (of_nat n :: u32) + of_nat d) = 3 * n + d"
  using unat_of_nat32 [of "3 * n + d"] by simp

lemma drms_local_ok:
  assumes act: "active_array array sz" and t: "greatest_le array (length array) gts t"
  shows "\<exists>r d. drms_local array sz gts (of_nat t) l = Inr (3 * of_nat r + of_nat d) \<and>
    greatest_le array (length array) l r \<and> d \<le> 2 \<and>
    (r = t \<longrightarrow> (d = 0 \<longleftrightarrow> l < gts) \<and> (d = 1 \<longleftrightarrow> l = gts)) \<and> (r \<noteq> t \<longrightarrow> d = 0)"
proof -
  have A: "sorted_wrt (<) array" "length array = unat sz" "0 < unat sz" "array ! 0 = 0" "3 * length array < 2 ^ 31"
    using act by (simp_all add: active_array_def)
  then have len: "length array < 2 ^ 31" by linarith
  have tl: "t < length array" "array ! t \<le> gts" using t by (simp_all add: greatest_le_def)
  have ut: "unat (of_nat t :: u32) = t" by (rule unat_of_nat32) (use tl(1) len in simp)
  have gt: "arr_get array (uint (of_nat t :: u32)) = Inr (array ! t)"
    using arr_get_nat [OF tl(1)] by (simp add: uint_nat ut)
  have u1: "unat ((of_nat t :: u32) + 1) = t + 1"
    using unat_of_nat_Suc [of t] tl(1) len by simp
  have lt1: "(of_nat t :: u32) + 1 < sz \<longleftrightarrow> t + 1 < length array"
    by (simp add: word_less_nat_alt u1 A(2))
  consider "l < array ! t" | "array ! t \<le> l" "t + 1 < length array" "array ! (t + 1) \<le> l"
    | "array ! t \<le> l" "t + 1 < length array \<Longrightarrow> l < array ! (t + 1)" by (meson not_le)
  then show ?thesis
  proof cases
    case 1
    with A(4) have t0: "0 < t" by (cases t) auto
    have "\<exists>r. binary_search array 0 (of_nat t) l = Inr (of_nat r) \<and>
        greatest_le array (unat (of_nat t :: u32)) l r"
      by (rule binary_search_ok [OF A(1) len]) (use t0 tl A(4) in \<open>simp_all add: ut\<close>)
    then obtain r where r: "binary_search array 0 (of_nat t) l = Inr (of_nat r)" "greatest_le array t l r"
      by (auto simp: ut)
    then have "r < t" by (simp add: greatest_le_def)
    moreover have "greatest_le array (length array) l r"
    proof (rule greatest_leI [OF A(1) order_refl])
      show "l < array ! (r + 1)"
        using r(2) 1 \<open>r < t\<close> by (cases "r + 1 = t") (auto simp: greatest_le_def)
    qed (use r(2) tl \<open>r < t\<close> in \<open>auto simp: greatest_le_def\<close>)
    ultimately show ?thesis using 1 r gt by (intro exI [of _ r] exI [of _ 0]) (simp add: drms_local_def)
  next
    case 2
    have g1: "arr_get array (uint ((of_nat t :: u32) + 1)) = Inr (array ! (t + 1))"
      using arr_get_nat [OF 2(2)] by (simp add: uint_nat u1)
    have "\<exists>r. binary_search array (of_nat t) sz l = Inr (of_nat r) \<and> greatest_le array (unat sz) l r"
      by (rule binary_search_ok [OF A(1) len A(3)]) (use tl 2 A(2) in \<open>simp_all add: ut\<close>)
    then obtain r where r: "binary_search array (of_nat t) sz l = Inr (of_nat r)" "greatest_le array (length array) l r"
      by (auto simp: A(2))
    have "t + 1 \<le> r" using greatest_le_order [OF A(1) refl r(2) 2(2)] 2(3) by blast
    have "drms_local array sz gts (of_nat t) l = Inr (3 * of_nat r)"
      using 2 r(1) gt g1 lt1 by (simp add: drms_local_def leD)
    then show ?thesis using r(2) \<open>t + 1 \<le> r\<close> by (intro exI [of _ r] exI [of _ 0]) simp
  next
    case 3
    have gl: "greatest_le array (length array) l t"
      by (rule greatest_leI [OF A(1) order_refl tl(1) 3(1) 3(2)])
    have g1: "arr_get array (uint ((of_nat t :: u32) + 1)) = Inr (array ! (t + 1))" if "t + 1 < length array"
      using arr_get_nat [OF that] by (simp add: uint_nat u1)
    have r: "drms_local array sz gts (of_nat t) l =
        (if l < gts then Inr (3 * of_nat t) else if l = gts then Inr (3 * of_nat t + 1) else Inr (3 * of_nat t + 2))"
      using 3 gt g1 lt1 by (auto simp: drms_local_def)
    show ?thesis
      using gl r by (intro exI [of _ t] exI [of _ "if l < gts then 0 else if l = gts then 1 else 2"]) auto
  qed
qed

text \<open>What must survive the re-assignment, for one cell of one thread: how its local timestamp
  compares with the global one, and how both compare with the timestamp of every active
  activation (whose new timestamp is three times its index).\<close>

definition drms_order :: "u32 list \<Rightarrow> u32 \<Rightarrow> u32 \<Rightarrow> u32 \<Rightarrow> u32 \<Rightarrow> bool" where
  "drms_order array gts l gts' l' \<longleftrightarrow>
     (l < gts \<longleftrightarrow> l' < gts') \<and>
     (\<forall>i < length array. (array ! i \<le> l \<longleftrightarrow> 3 * of_nat i \<le> l') \<and> (array ! i \<le> gts \<longleftrightarrow> 3 * of_nat i \<le> gts'))"

lemma syscall_mask: "(0x80000000 :: u32) = push_bit 31 1" by simp
lemma SYSCALL_bit: "SYSCALL x \<longleftrightarrow> bit x 31"
  unfolding SYSCALL_def syscall_mask by (simp only: bit_iff_and_push_bit_not_eq_0)
lemma bit_SET_SYSCALL: "bit (SET_SYSCALL x) n \<longleftrightarrow> n = 31 \<or> bit x n"
  unfolding SET_SYSCALL_def syscall_mask
  by (auto simp only: bit_or_iff bit_push_bit_iff bit_1_iff)  auto
lemma TS_take_bit: "TS x = take_bit 31 x"
proof -
  have "(0x7FFFFFFF :: u32) = mask 31" by (simp add: mask_eq_exp_minus_1)
  then show ?thesis by (simp only: TS_def take_bit_eq_mask)
qed
lemma TS_le: "unat (TS x) < 2 ^ 31"
  unfolding TS_take_bit unsigned_take_bit_eq by (rule take_bit_nat_less_exp)
lemma TS_small [simp]: "unat x < 2 ^ 31 \<Longrightarrow> TS x = x"
  by (simp add: TS_take_bit word_unat_eq_iff unsigned_take_bit_eq take_bit_nat_eq_self)
lemma SYSCALL_small: "unat x < 2 ^ 31 \<Longrightarrow> \<not> SYSCALL x"
proof -
  assume "unat x < 2 ^ 31"
  then have "x = take_bit 31 x" using TS_small [of x] by (simp add: TS_take_bit)
  then have "bit x 31 = bit (take_bit 31 x) 31" by simp
  then show ?thesis by (simp add: SYSCALL_bit bit_take_bit_iff)
qed
lemma TS_SET_SYSCALL [simp]: "TS (SET_SYSCALL x) = TS x"
  unfolding TS_take_bit by (rule bit_word_eqI) (auto simp: bit_take_bit_iff bit_SET_SYSCALL)

lemma SYSCALL_SET_SYSCALL [simp]: "SYSCALL (SET_SYSCALL x)"
  by (simp add: SYSCALL_bit bit_SET_SYSCALL)

text \<open>The value the readers see in the global memory: 0 where no chunk was allocated.\<close>

definition global_ts :: "u32 option \<Rightarrow> u32" where
  "global_ts g = (case g of None \<Rightarrow> 0 | Some v \<Rightarrow> TS v)"

lemma active_array_zero:
  assumes "active_array array sz"
  shows "greatest_le array (length array) 0 0"
proof -
  have A: "sorted_wrt (<) array" "length array = unat sz" "0 < unat sz" "array ! 0 = 0"
    using assms by (simp_all add: active_array_def)
  show ?thesis
    by (rule greatest_leI [OF A(1) order_refl])
      (use A sorted_wrt_nth_less [OF A(1), of 0 1] in \<open>simp_all add: A(2)\<close>)
qed

lemma drms_global_ts_ok:
  assumes act: "active_array array sz"
  shows "\<exists>t. drms_global_ts array sz g = Inr (global_ts g, of_nat t) \<and>
    greatest_le array (length array) (global_ts g) t \<and> (g = None \<longrightarrow> t = 0)"
proof -
  have A: "sorted_wrt (<) array" "length array = unat sz" "0 < unat sz" "array ! 0 = 0" "length array < 2 ^ 31"
    using act by (simp_all add: active_array_def)
  show ?thesis
  proof (cases "0 < global_ts g")
    case False
    then have z: "global_ts g = 0" by (simp add: word_gt_0)
    have "drms_global_ts array sz g = Inr (0, of_nat 0)"
      using z by (auto simp: drms_global_ts_def global_ts_def Let_def split: option.splits)
    with z active_array_zero [OF act] show ?thesis by (intro exI [of _ 0]) simp
  next
    case True
    then obtain v where g: "g = Some v" by (cases g) (simp_all add: global_ts_def)
    have "\<exists>r. binary_search array 0 sz (TS v) = Inr (of_nat r) \<and> greatest_le array (unat sz) (TS v) r"
      by (rule binary_search_ok [OF A(1,5,3)]) (use A in simp_all)
    then show ?thesis using True by (auto simp: g global_ts_def drms_global_ts_def Let_def A(2))
  qed
qed

lemma drms_new_order:
  assumes "active_array array sz" "greatest_le array (length array) x r" "d \<le> 2"
  shows "unat (3 * of_nat r + of_nat d :: u32) = 3 * r + d" "3 * r + d < 2 ^ 31"
    "i < length array \<Longrightarrow> array ! i \<le> x \<longleftrightarrow> 3 * of_nat i \<le> (3 * of_nat r + of_nat d :: u32)"
proof -
  have A: "sorted_wrt (<) array" "3 * length array < 2 ^ 31" "r < length array"
    using assms by (simp_all add: active_array_def greatest_le_def)
  then show b: "3 * r + d < 2 ^ 31" using assms(3) by linarith
  then show u: "unat (3 * of_nat r + of_nat d :: u32) = 3 * r + d" by (intro unat_small_mult3) simp
  show "array ! i \<le> x \<longleftrightarrow> 3 * of_nat i \<le> (3 * of_nat r + of_nat d :: u32)" if i: "i < length array"
  proof -
    have "unat (3 * of_nat i :: u32) = 3 * i" using unat_small_mult3 [of i 0] A i by simp
    then have "3 * of_nat i \<le> (3 * of_nat r + of_nat d :: u32) \<longleftrightarrow> i \<le> r"
      using assms(3) by (simp only: word_le_nat_alt u) arith
    with greatest_le_order [OF A(1) refl assms(2) i] show ?thesis by simp
  qed
qed

lemma drms_less:
  assumes act: "active_array array sz" and t: "greatest_le array (length array) gts t"
    and r: "greatest_le array (length array) l r" and d: "d \<le> 2"
    and same: "r = t \<longrightarrow> (d = 0 \<longleftrightarrow> l < gts)"
  shows "l < gts \<longleftrightarrow> (3 * of_nat r + of_nat d :: u32) < 3 * of_nat t + 1"
proof -
  have A: "sorted_wrt (<) array" "r < length array" "t < length array"
    using act t r by (simp_all add: active_array_def greatest_le_def)
  have "unat (3 * of_nat t + 1 :: u32) = 3 * t + 1" using drms_new_order(1) [OF act t, of 1] by simp
  then have n: "(3 * of_nat r + of_nat d :: u32) < 3 * of_nat t + 1 \<longleftrightarrow> 3 * r + d < 3 * t + 1"
    by (simp only: word_less_nat_alt drms_new_order(1) [OF act r d])
  consider "r = t" | "r < t" | "t < r" by linarith
  then show ?thesis
  proof cases
    case 1
    with same d n show ?thesis by auto
  next
    case 2
    then have "l < array ! t" using r A by (simp add: greatest_le_def)
    also have "\<dots> \<le> gts" using t by (simp add: greatest_le_def)
    finally show ?thesis using 2 n d by simp
  next
    case 3
    then have "gts < array ! r" using t A by (simp add: greatest_le_def)
    also have "\<dots> \<le> l" using r by (simp add: greatest_le_def)
    finally have "\<not> l < gts" by auto
    then show ?thesis using 3 n by simp
  qed
qed

lemma mapR_ok:
  assumes "\<And>x. x \<in> set xs \<Longrightarrow> \<exists>y. f x = Inr y \<and> P x y"
  shows "\<exists>ys. mapR f xs = Inr ys \<and> list_all2 P xs ys"
  using assms
proof (induction xs)
  case (Cons x xs)
  from Cons.prems [of x] obtain y where y: "f x = Inr y" "P x y" by auto
  from Cons obtain ys where "mapR f xs = Inr ys" "list_all2 P xs ys" by auto
  with y show ?case by (intro exI [of _ "y # ys"]) simp
qed simp

definition drms_local_rel :: "u32 list \<Rightarrow> u32 option \<Rightarrow> u32 option \<Rightarrow> u32 option \<Rightarrow> u32 option \<Rightarrow> bool" where
  "drms_local_rel array g g' l l' \<longleftrightarrow> (case l of None \<Rightarrow> l' = None
     | Some v \<Rightarrow> (\<exists>v'. l' = Some v' \<and> drms_order array (global_ts g) v (global_ts g') v'))"

lemma compress_drms_cell_ok:
  assumes act: "active_array array sz"
  shows "\<exists>g' ls'. compress_drms_cell array sz g ls = Inr (g', ls') \<and>
    (case g of None \<Rightarrow> g' = None | Some v \<Rightarrow> (\<exists>v'. g' = Some v' \<and> SYSCALL v' = SYSCALL v)) \<and>
    list_all2 (drms_local_rel array g g') ls ls'"
proof -
  from drms_global_ts_ok [OF act, of g] obtain t where
    t: "drms_global_ts array sz g = Inr (global_ts g, of_nat t)" "greatest_le array (length array) (global_ts g) t"
    and t0: "g = None \<longrightarrow> t = 0" by blast
  let ?g' = "map_option (drms_global (of_nat t)) g"
  have n1: "unat (3 * of_nat t + 1 :: u32) < 2 ^ 31"
    using drms_new_order(1,2) [OF act t(2), of 1] by simp
  have g': "global_ts ?g' = (if g = None then 0 else 3 * of_nat t + 1)"
    using n1 by (auto simp: global_ts_def drms_global_def split: option.splits)
  have ord: "drms_order array (global_ts g) v (global_ts ?g') (3 * of_nat r + of_nat d)"
    if r: "greatest_le array (length array) v r" and d: "d \<le> 2" and same: "r = t \<longrightarrow> (d = 0 \<longleftrightarrow> v < global_ts g)"
    for v r d
  proof (cases g)
    case None
    have z: "array ! i \<le> 0 \<longleftrightarrow> 3 * of_nat i \<le> (0 :: u32)" if "i < length array" for i
      using drms_new_order(3) [OF act active_array_zero [OF act] _ that, of 0] by simp
    then show ?thesis
      using drms_new_order(3) [OF act r d] None by (simp add: drms_order_def g' global_ts_def)
  next
    case (Some w)
    then show ?thesis
      using drms_new_order(3) [OF act r d] drms_new_order(3) [OF act t(2), of 1]
        drms_less [OF act t(2) r d same] g' by (simp add: drms_order_def)
  qed
  have "\<exists>ls'. mapR (\<lambda>l. case l of None \<Rightarrow> Inr None
      | Some v \<Rightarrow> bindR (drms_local array sz (global_ts g) (of_nat t) v) (\<lambda>v'. Inr (Some v'))) ls = Inr ls' \<and>
    list_all2 (drms_local_rel array g ?g') ls ls'"
  proof (rule mapR_ok)
    fix l
    show "\<exists>y. (case l of None \<Rightarrow> Inr None
        | Some v \<Rightarrow> bindR (drms_local array sz (global_ts g) (of_nat t) v) (\<lambda>v'. Inr (Some v'))) = Inr y \<and>
      drms_local_rel array g ?g' l y"
    proof (cases l)
      case (Some v)
      from drms_local_ok [OF act t(2), of v] obtain r d where
        "drms_local array sz (global_ts g) (of_nat t) v = Inr (3 * of_nat r + of_nat d)"
        "greatest_le array (length array) v r" "d \<le> 2" "r = t \<longrightarrow> (d = 0 \<longleftrightarrow> v < global_ts g)" by metis
      with ord [of v r d] Some show ?thesis by (simp add: drms_local_rel_def)
    qed (simp add: drms_local_rel_def)
  qed
  then obtain ls' where ls': "mapR (\<lambda>l. case l of None \<Rightarrow> Inr None
      | Some v \<Rightarrow> bindR (drms_local array sz (global_ts g) (of_nat t) v) (\<lambda>v'. Inr (Some v'))) ls = Inr ls'"
    "list_all2 (drms_local_rel array g ?g') ls ls'" by blast
  have "case g of None \<Rightarrow> ?g' = None | Some v \<Rightarrow> (\<exists>v'. ?g' = Some v' \<and> SYSCALL v' = SYSCALL v)"
    using SYSCALL_small [OF n1] by (simp add: drms_global_def split: option.split)
  with t(1) ls' show ?thesis
    by (intro exI [of _ ?g'] exI [of _ ls']) (simp add: compress_drms_cell_def)
qed

text \<open>The whole tables.  A cell is described by the three indices of its address.\<close>

definition LK_at :: "LookupTable \<Rightarrow> u64 \<Rightarrow> u32 option" where
  "LK_at lk a = LK_cell lk (LK_i a) (LK_k a) (LK_j (res_shift lk) a)"

lemma LK_sm_LK_at: "lk_inv lk \<Longrightarrow> LK_sm lk (LK_addr_cell (res_shift lk) a) = (case LK_at lk a of None \<Rightarrow> 0 | Some v \<Rightarrow> v)"
  by (simp add: LK_sm_addr LK_at_def)

lemma LK_cell_map_cells_the:
  assumes "lk_inv lk" "j < ucast (flt_size lk)" "LK_cell lk i k j = None \<longleftrightarrow> r = None" "f i k j = (\<lambda>_. the r)"
  shows "LK_cell (LK_map_cells f lk) i k j = r"
  using assms by (cases r) (auto simp: LK_cell_map_cells)

lemma LK_compress_drms_ok:
  assumes act: "active_array array sz" and g: "lk_inv g" and ls: "\<And>l. l \<in> set ls \<Longrightarrow> lk_inv l \<and> res_shift l = res_shift g"
  shows "\<exists>g' ls'. LK_compress_drms array sz g ls = Inr (g', ls') \<and> lk_inv g' \<and> res_shift g' = res_shift g \<and>
    length ls' = length ls \<and> (\<forall>t < length ls. lk_inv (ls' ! t) \<and> res_shift (ls' ! t) = res_shift g) \<and>
    (\<forall>a. compress_drms_cell array sz (LK_at g a) (map (\<lambda>l. LK_at l a) ls) =
       Inr (LK_at g' a, map (\<lambda>l. LK_at l a) ls'))"
proof -
  define cell where "cell i k j = compress_drms_cell array sz (LK_cell g i k j) (map (\<lambda>l. LK_cell l i k j) ls)" for i k j
  have ok: "\<exists>g' ls'. cell i k j = Inr (g', ls') \<and> (LK_cell g i k j = None \<longleftrightarrow> g' = None) \<and>
      list_all2 (\<lambda>l l'. LK_cell l i k j = None \<longleftrightarrow> l' = None) ls ls'" for i k j
  proof -
    from compress_drms_cell_ok [OF act, of "LK_cell g i k j" "map (\<lambda>l. LK_cell l i k j) ls"] obtain g' ls' where
      r: "cell i k j = Inr (g', ls')" and c: "case LK_cell g i k j of None \<Rightarrow> g' = None
        | Some v \<Rightarrow> (\<exists>v'. g' = Some v' \<and> SYSCALL v' = SYSCALL v)"
      and l: "list_all2 (drms_local_rel array (LK_cell g i k j) g') (map (\<lambda>l. LK_cell l i k j) ls) ls'"
      unfolding cell_def by blast
    from l have "list_all2 (\<lambda>l l'. LK_cell l i k j = None \<longleftrightarrow> l' = None) ls ls'"
      unfolding list_all2_map1 by (rule list_all2_mono) (auto simp: drms_local_rel_def split: option.splits)
    with r c show ?thesis by (auto split: option.splits)
  qed
  have none: "find (\<lambda>(i, k, j). isl (cell i k j)) (LK_indices (flt_size g)) = None"
    unfolding find_None_iff using ok by (auto, metis isl_def Inl_Inr_False)
  let ?g = "LK_map_cells (\<lambda>i k j _. the (fst (projr (cell i k j)))) g"
  let ?l = "\<lambda>t. LK_map_cells (\<lambda>i k j _. the (snd (projr (cell i k j)) ! t)) (ls ! t)"
  have r: "LK_compress_drms array sz g ls = Inr (?g, map ?l [0..<length ls])"
    using none by (simp add: LK_compress_drms_def cell_def)
  have lt: "lk_inv (ls ! t) \<and> res_shift (ls ! t) = res_shift g \<and> flt_size (ls ! t) = flt_size g" if "t < length ls" for t
    using ls [OF nth_mem [OF that]] g by (auto simp: lk_inv_def word_unat_eq_iff)
  have "compress_drms_cell array sz (LK_at g a) (map (\<lambda>l. LK_at l a) ls) =
      Inr (LK_at ?g a, map (\<lambda>l. LK_at l a) (map ?l [0..<length ls]))" for a
  proof -
    let ?i = "LK_i a" and ?k = "LK_k a" and ?j = "LK_j (res_shift g) a"
    have j: "?j < ucast (flt_size g)" by (rule LK_j_in_chunk [OF g])
    from ok [of ?i ?k ?j] obtain g' ls' where c: "cell ?i ?k ?j = Inr (g', ls')"
      and cg: "LK_cell g ?i ?k ?j = None \<longleftrightarrow> g' = None"
      and cl: "list_all2 (\<lambda>l l'. LK_cell l ?i ?k ?j = None \<longleftrightarrow> l' = None) ls ls'" by (elim exE conjE)
    have "LK_at ?g a = g'"
      using LK_cell_map_cells_the [OF g j cg] c by (simp add: LK_at_def)
    moreover have "map (\<lambda>l. LK_at l a) (map ?l [0..<length ls]) = ls'"
    proof (rule nth_equalityI)
      show len: "length (map (\<lambda>l. LK_at l a) (map ?l [0..<length ls])) = length ls'"
        using cl by (simp add: list_all2_lengthD)
      fix t
      assume "t < length (map (\<lambda>l. LK_at l a) (map ?l [0..<length ls]))"
      then have t: "t < length ls" by simp
      have "LK_cell (?l t) ?i ?k ?j = ls' ! t"
        by (rule LK_cell_map_cells_the) (use lt [OF t] j list_all2_nthD [OF cl t] c in simp_all)
      then show "map (\<lambda>l. LK_at l a) (map ?l [0..<length ls]) ! t = ls' ! t"
        using t lt [OF t] by (simp add: LK_at_def)
    qed
    moreover have "compress_drms_cell array sz (LK_at g a) (map (\<lambda>l. LK_at l a) ls) = cell ?i ?k ?j"
    proof -
      have "map (\<lambda>l. LK_at l a) ls = map (\<lambda>l. LK_cell l ?i ?k ?j) ls"
        using ls by (auto simp: LK_at_def)
      moreover have "LK_at g a = LK_cell g ?i ?k ?j" by (simp add: LK_at_def)
      ultimately show ?thesis unfolding cell_def by (simp only:)
    qed
    ultimately show ?thesis using c by simp
  qed
  with r show ?thesis using g lt by (auto simp: lk_inv_map_cells)
qed

section \<open>Properties\<close>



text \<open>C15. The shadow memory behaves as one array of timestamps: writing a cell returns what a read of
  it would have returned, later reads of the cell return the value written, and reads of every other
  cell are unaffected; neither operation fails on a mapped address.\<close>

theorem lookup_table_read_write:
  assumes "lk_inv lk" "LK_valid a" "LK_valid b"
  shows "\<exists>lk' old. LK_insert lk a ts = Inr (lk', old) \<and> LK_lookup lk a = Inr old \<and>
    (LK_addr_cell (res_shift lk) b = LK_addr_cell (res_shift lk) a \<longrightarrow> LK_lookup lk' b = Inr ts) \<and>
    (LK_addr_cell (res_shift lk) b \<noteq> LK_addr_cell (res_shift lk) a \<longrightarrow> LK_lookup lk' b = LK_lookup lk b)"
  by (rule lk.lookup_after_insert [OF assms])

definition empty_LK :: LookupTable where
  "empty_LK = \<lparr>table = (\<lambda>_. None), flt_size = 16384, res_shift = 2\<rparr>"

lemma empty_LK_ok: "lk_inv empty_LK" "LK_sm empty_LK = (\<lambda>_. 0)" "res_shift empty_LK = 2"
  using LK_create_ok [of 4 empty_LK] by (simp_all add: LK_create_def empty_LK_def)

theorem lookup_table_read_write_witness:
  "\<exists>lk' old. LK_insert empty_LK 0x1000 7 = Inr (lk', old) \<and> old = 0 \<and> LK_lookup lk' 0x1003 = Inr 7"
proof -
  have v: "LK_valid 0x1000" "LK_valid 0x1003" by (simp_all add: LK_valid_def LK_i_def LK_SIZE_def)
  have l: "LK_lookup empty_LK 0x1000 = Inr 0"
    using LK_lookup_sm [OF empty_LK_ok(1) v(1)] by (simp add: empty_LK_ok)
  from lookup_table_read_write [OF empty_LK_ok(1) v, of 7] show ?thesis
    by (auto simp: l LK_addr_cell_def empty_LK_ok(3))
qed





text \<open>C19. DRMS compression, over the global memory and every thread's memory at once, succeeds and
  keeps, for every address whose chunk the thread has allocated, the order between the thread's
  timestamp and the global one and between each of them and every active timestamp; the kernel
  bit of the global cell is kept.\<close>

theorem compress_drms_keeps_order:
  assumes "active_array array sz" "lk_inv g" "\<And>l. l \<in> set ls \<Longrightarrow> lk_inv l \<and> res_shift l = res_shift g"
  shows "\<exists>g' ls'. LK_compress_drms array sz g ls = Inr (g', ls') \<and> length ls' = length ls \<and>
    (\<forall>a t. t < length ls \<longrightarrow>
       drms_local_rel array (LK_at g a) (LK_at g' a) (LK_at (ls ! t) a) (LK_at (ls' ! t) a)) \<and>
    (\<forall>a v. LK_at g a = Some v \<longrightarrow> (\<exists>v'. LK_at g' a = Some v' \<and> SYSCALL v' = SYSCALL v))"
proof -
  from LK_compress_drms_ok [OF assms] obtain g' ls' where r: "LK_compress_drms array sz g ls = Inr (g', ls')"
    "length ls' = length ls"
    "\<And>a. compress_drms_cell array sz (LK_at g a) (map (\<lambda>l. LK_at l a) ls) = Inr (LK_at g' a, map (\<lambda>l. LK_at l a) ls')"
    by blast
  have c: "case LK_at g a of None \<Rightarrow> LK_at g' a = None | Some v \<Rightarrow> (\<exists>v'. LK_at g' a = Some v' \<and> SYSCALL v' = SYSCALL v)"
    "list_all2 (drms_local_rel array (LK_at g a) (LK_at g' a)) (map (\<lambda>l. LK_at l a) ls) (map (\<lambda>l. LK_at l a) ls')" for a
    using compress_drms_cell_ok [OF assms(1), of "LK_at g a" "map (\<lambda>l. LK_at l a) ls"] r(3) [of a] by auto
  have "drms_local_rel array (LK_at g a) (LK_at g' a) (LK_at (ls ! t) a) (LK_at (ls' ! t) a)" if "t < length ls" for a t
    using list_all2_nthD [OF c(2), of t a] that r(2) by simp
  moreover have "\<exists>v'. LK_at g' a = Some v' \<and> SYSCALL v' = SYSCALL v" if "LK_at g a = Some v" for a v
    using c(1) [of a] that by simp
  ultimately show ?thesis using r(1,2) by blast
qed

theorem compress_drms_keeps_order_witness:
  "\<exists>g' ls'. LK_compress_drms [0, 5, 9] 3 empty_LK [empty_LK, empty_LK] = Inr (g', ls') \<and> length ls' = 2"
  using compress_drms_keeps_order [of "[0, 5, 9]" 3 empty_LK "[empty_LK, empty_LK]"]
  by (auto simp: active_array_def empty_LK_ok)


end
