(* ===== verification/DataModel.thy ===== *)
theory DataModel
  imports HashTable LookupTable
begin

text \<open>
  The shared data of \<open>data-common.h\<close> and the access macros of \<open>aprof.h\<close>.
  Records keep the C fields (a field name that two C structs share gets the struct's initial).
  Pointers whose value the code never inspects are indices into the list of allocated
  objects (objects, basic blocks, CCT nodes) or, for a thread's data, its slot in
  \<open>threads\<close>; a function's address is used as a hash key and is a \<open>u64\<close>.  A
  \<open>RoutineInfo\<close> is owned by its thread's \<open>rtn_ht\<close> and addressed by its key there.
  Arrays on the C heap are functions from the index with the bound checked at each access.
\<close>

section \<open>Enumerations\<close>

datatype input_metric_t = RMS | DRMS | INVALID

datatype access_t = LOAD | STORE | MODIFY

datatype jump_t = BB_INIT | CALL | RET | OTHER | BBCALL | BBRET | BBOTHER | NONE

datatype VgSectKind = Vg_SectUnknown | Vg_SectText | Vg_SectData | Vg_SectBSS | Vg_SectGOT | Vg_SectPLT
  | Vg_SectGOTPLT | Vg_SectOPD

section \<open>Structures\<close>

record Object =
  o_name :: string
  o_filename :: "string option"

record Input =
  i_input_size :: u64
  i_context_id :: u64
  calls :: u64
  min_cumulative_cost :: u64
  max_cumulative_cost :: u64
  sum_cumulative_cost :: u64
  min_self_cost :: u64
  max_self_cost :: u64
  sum_self_cost :: u64
  sum_cumul_real_cost :: u64
  sqr_cumulative_cost :: u64
  sqr_self_cost :: u64
  sum_cumul_syscall :: u64
  sum_cumul_thread :: u64
  sum_self_syscall :: u64
  sum_self_thread :: u64

record Function =
  fn_name :: string
  fn_obj :: "nat option"
  mangled :: "string option"
  discard :: bool
  fn_skip :: bool
  fn_input_map :: "Input HashTable option"
  function_id :: u64

record BB =
  bb_key :: u64
  instr_offset :: u32
  exit :: jump_t
  obj_section :: VgSectKind
  is_dl_runtime_resolve :: bool
  is_entry :: bool
  bb_fn :: "u64 option"

record CCTNode =
  first_child :: "nat option"
  next_sibling :: "nat option"
  n_routine_id :: u64
  n_context_id :: u32

text \<open>The \<open>input_map\<close> pointer of a routine: null, a table of its own, or (with
  \<open>single_report\<close>) the table of its function, shared by all threads.\<close>

datatype input_ref = NoMap | OwnMap "Input HashTable" | FnMap

record RoutineInfo =
  routine_id :: u64
  ri_fn :: u64
  recursion_pending :: u32
  input_map :: input_ref

record Activation =
  start :: u64
  sum_children_cost :: u64
  a_input_size :: u32
  routine_info :: u64
  activation_id :: u32
  node :: "nat option"
  sp :: u64
  ret_addr :: u64
  cumul_syscall :: u64
  cumul_thread :: u64
  self_syscall :: u64
  self_thread :: u64

record ThreadData =
  shadow_memory :: LookupTable
  rtn_ht :: "RoutineInfo HashTable"
  t_cost :: u64
  stack_depth :: u32
  stack :: "nat \<Rightarrow> Activation"
  max_stack_size :: u32
  t_last_bb :: "nat option"
  t_last_exit :: jump_t
  next_routine_id :: u64
  t_skip :: u32
  skip_cost :: u64
  next_activation_id :: u32
  t_root :: "nat option"
  next_context_id :: u64

record Config =
  memory_resolution :: u32
  input_metric :: input_metric_t
  collect_CCT :: bool
  log_dir :: "string option"
  function_tracing :: bool
  single_report :: bool
  incremental_report :: bool
  dope_fn :: "string option"

record Runtime =
  cfg :: Config
  current_TID :: u32
  current_tdata :: "nat option"
  running_threads :: u32
  threads :: "nat \<Rightarrow> ThreadData option"
  bb_ht :: "nat HashTable option"
  bbs :: "BB list"
  last_exit :: jump_t
  last_bb :: "nat option"
  obj_ht :: "nat HashTable"
  objs :: "Object list"
  fn_ht :: "u64 HashTable"
  fns :: "u64 \<Rightarrow> Function option"
  binary_mtime :: u64
  application :: string
  cmd_line :: string
  extra_cost :: u64
  r_root :: "nat option"
  ccts :: "CCTNode list"
  global_shadow_memory :: "LookupTable option"
  global_counter :: u32
  dl_runtime_resolve_addr :: u64
  dl_runtime_resolve_length :: int
  loaded_report :: bool
  next_function_id :: u32

section \<open>Constants\<close>

definition MAX_STACK_SIZE :: nat where "MAX_STACK_SIZE = 15000"
definition STACK_SIZE :: u32 where "STACK_SIZE = 64"
definition VG_N_THREADS :: nat where "VG_N_THREADS = 500"
definition VG_INVALID_THREADID :: u32 where "VG_INVALID_THREADID = 0"

text \<open>The configuration before the command line is read (\<open>default_params\<close> of \<open>main.c\<close>).\<close>

definition default_params :: Config where
  "default_params = \<lparr>memory_resolution = 4, input_metric = RMS, collect_CCT = False, log_dir = None,
     function_tracing = True, single_report = False, incremental_report = False, dope_fn = None\<rparr>"

section \<open>Access to threads and activations\<close>

definition get_td :: "Runtime \<Rightarrow> nat \<Rightarrow> ThreadData res" where
  "get_td rt t = derefR (threads rt t)"

definition put_td :: "Runtime \<Rightarrow> nat \<Rightarrow> ThreadData \<Rightarrow> Runtime" where
  "put_td rt t td = rt\<lparr>threads := (threads rt)(t := Some td)\<rparr>"

text \<open>A pointer into the activation stack is the (signed) offset from its base.\<close>

type_synonym aptr = int

definition get_act :: "ThreadData \<Rightarrow> aptr \<Rightarrow> Activation res" where
  "get_act td p = (if 0 \<le> p \<and> p < uint (max_stack_size td) then Inr (stack td (nat p)) else Inl OutOfBounds)"

definition set_act :: "ThreadData \<Rightarrow> aptr \<Rightarrow> Activation \<Rightarrow> ThreadData" where
  "set_act td p a = td\<lparr>stack := (stack td)(nat p := a)\<rparr>"

text \<open>\<open>resize_stack\<close> doubles the stack; what the new half holds is whatever the memory held, which
  the stack function leaves open.\<close>

definition resize_stack :: "ThreadData \<Rightarrow> u32 \<Rightarrow> (ThreadData \<times> aptr) res" where
  "resize_stack td depth =
     bindR (assertR (0 < unat depth \<and> unat depth < MAX_STACK_SIZE) ''Invalid depth'') (\<lambda>_.
       Inr (if depth - 1 \<ge> max_stack_size td then td\<lparr>max_stack_size := max_stack_size td * 2\<rparr> else td,
            uint depth - 1))"

definition get_activation_noresize :: "u32 \<Rightarrow> aptr" where
  "get_activation_noresize depth = uint depth - 1"

definition get_activation :: "ThreadData \<Rightarrow> u32 \<Rightarrow> (ThreadData \<times> aptr) res" where
  "get_activation td depth =
     (if depth \<ge> max_stack_size td then resize_stack td depth else Inr (td, uint depth - 1))"

fun by_aid_loop :: "(nat \<Rightarrow> Activation) \<Rightarrow> u32 \<Rightarrow> nat \<Rightarrow> aptr res" where
  "by_aid_loop st aid n =
     (if activation_id (st n) > aid
      then (case n of 0 \<Rightarrow> Inl OutOfBounds | Suc m \<Rightarrow> by_aid_loop st aid m)
      else Inr (int n))"

definition get_activation_by_aid :: "ThreadData \<Rightarrow> u32 \<Rightarrow> aptr res" where
  "get_activation_by_aid td aid =
     (let n = stack_depth td - 2
      in if n < max_stack_size td then by_aid_loop (stack td) aid (unat n) else Inl OutOfBounds)"

definition aprof_time :: "ThreadData \<Rightarrow> u64" where
  "aprof_time td = t_cost td - skip_cost td"

definition aprof_hash :: "u32 \<Rightarrow> u32 \<Rightarrow> u32" where
  "aprof_hash a b = a + drop_bit 16 b"

definition fix_access_size :: "u32 \<Rightarrow> u64 \<Rightarrow> int \<Rightarrow> u64 \<times> int" where
  "fix_access_size res addr sz =
     (let diff = (ucast (addr AND ucast (res - 1)) :: u32)
      in (addr - ucast diff, sint (of_int sz + diff :: u32)))"

end
