(* ===== verification/Libc.thy ===== *)
theory Libc
  imports Prelude "HOL-Library.Char_ord"
begin

text \<open>
  What the profiler uses of Valgrind's C library (\<open>coregrind/m_libcbase.c\<close>,
  \<open>coregrind/m_libcprint.c\<close>): printing and reading of decimal numbers, tokens, the bounded
  \<open>vsnprintf\<close>, \<open>basename\<close>.  A string is the list of its characters before the terminating zero.
\<close>

section \<open>Printing numbers\<close>

definition NUL :: char where "NUL = CHR 0x00"
definition LF :: char where "LF = CHR 0x0A"
definition DQ :: char where "DQ = CHR 0x22"

definition digit_char :: "nat \<Rightarrow> char" where
  "digit_char d = char_of (48 + d)"

fun dec_str :: "nat \<Rightarrow> string" where
  "dec_str n = (if n < 10 then [digit_char n] else dec_str (n div 10) @ [digit_char (n mod 10)])"

declare dec_str.simps [simp del]

definition fmt_llu :: "u64 \<Rightarrow> string" where "fmt_llu w = dec_str (unat w)"
definition fmt_u :: "u32 \<Rightarrow> string" where "fmt_u w = dec_str (unat w)"
definition fmt_d :: "u32 \<Rightarrow> string" where
  "fmt_d w = (if sint w < 0 then ''-'' @ dec_str (nat (- sint w)) else dec_str (nat (sint w)))"

text \<open>\<open>vsnprintf\<close> into a buffer of \<open>n\<close> bytes: what is in the first bytes it reports as written.\<close>

definition vsnprintf :: "nat \<Rightarrow> string \<Rightarrow> string" where
  "vsnprintf n s = (if length s < n then s else take (n - 1) s @ [NUL])"

section \<open>Reading numbers\<close>

definition isspace :: "char \<Rightarrow> bool" where
  "isspace c \<longleftrightarrow> c \<in> {CHR '' '', CHR 0x0A, CHR 0x09, CHR 0x0C, CHR 0x0B, CHR 0x0D}"

definition is_dec_digit :: "char \<Rightarrow> bool" where
  "is_dec_digit c \<longleftrightarrow> 48 \<le> (of_char c :: nat) \<and> (of_char c :: nat) \<le> 57"

fun digits_loop :: "u64 \<Rightarrow> string \<Rightarrow> u64 \<times> string" where
  "digits_loop n [] = (n, [])"
| "digits_loop n (c # s) = (if is_dec_digit c then digits_loop (10 * n + of_nat (of_char c - 48)) s else (n, c # s))"

text \<open>The value, and what \<open>endptr\<close> points to: the whole string when there was no digit.\<close>

definition strtoull10 :: "string \<Rightarrow> u64 \<times> string" where
  "strtoull10 str0 =
     (let s = dropWhile isspace str0;
          s = (case s of c # s' \<Rightarrow> if c = CHR ''+'' then s' else s | [] \<Rightarrow> []);
          (n, r) = digits_loop 0 s
      in (n, if r = s then str0 else r))"

section \<open>Tokens\<close>

text \<open>One call of \<open>strtok\<close> with a single delimiter: the token, and what is left for the next call.\<close>

definition strtok :: "char \<Rightarrow> string \<Rightarrow> string option \<times> string" where
  "strtok d s =
     (let s' = dropWhile (\<lambda>c. c = d) s
      in if s' = [] then (None, [])
         else (Some (takeWhile (\<lambda>c. c \<noteq> d) s'), drop 1 (dropWhile (\<lambda>c. c \<noteq> d) s')))"

section \<open>Round trip of numbers\<close>

lemma of_char_digit: "d < 10 \<Longrightarrow> (of_char (digit_char d) :: nat) = 48 + d"
  by (simp add: digit_char_def)

lemma is_dec_digit_digit: "d < 10 \<Longrightarrow> is_dec_digit (digit_char d)"
  by (simp add: is_dec_digit_def of_char_digit)

lemma dec_str_digits: "c \<in> set (dec_str n) \<Longrightarrow> is_dec_digit c"
proof (induction n rule: dec_str.induct)
  case (1 n)
  show ?case
    using 1 by (auto simp: dec_str.simps [of n] is_dec_digit_digit split: if_splits)
qed

lemma dec_str_Nil [simp]: "dec_str n \<noteq> []"
  by (subst dec_str.simps) simp

lemma digits_loop_append:
  "\<forall>c \<in> set s. is_dec_digit c \<Longrightarrow> digits_loop n (s @ s') = digits_loop (fst (digits_loop n s)) s'"
  by (induction s arbitrary: n) auto

lemma digits_loop_dec: "fst (digits_loop 0 (dec_str n)) = of_nat n"
proof (induction n rule: dec_str.induct)
  case (1 n)
  show ?case
  proof (cases "n < 10")
    case True
    then show ?thesis by (subst dec_str.simps) (simp add: is_dec_digit_digit of_char_digit)
  next
    case False
    have "fst (digits_loop 0 (dec_str n)) = 10 * of_nat (n div 10) + of_nat (n mod 10)"
      using 1 [OF False] False dec_str_digits
      by (subst dec_str.simps) (simp add: digits_loop_append is_dec_digit_digit of_char_digit)
    also have "\<dots> = (of_nat (10 * (n div 10) + n mod 10) :: u64)" by (simp only: of_nat_add of_nat_mult of_nat_numeral)
    finally show ?thesis by simp
  qed
qed

lemma digits_loop_rest: "\<forall>c \<in> set s. is_dec_digit c \<Longrightarrow> snd (digits_loop n s) = []"
  by (induction s arbitrary: n) auto

lemma digit_not_space: "is_dec_digit c \<Longrightarrow> \<not> isspace c \<and> c \<noteq> CHR ''+''"
  by (auto simp: is_dec_digit_def isspace_def)

text \<open>A printed number is read back, and the reading stops right behind it.\<close>

lemma strtoull10_dec:
  assumes "rest = [] \<or> \<not> is_dec_digit (hd rest)"
  shows "strtoull10 (dec_str n @ rest) = (of_nat n, rest)"
proof -
  obtain c s where c: "dec_str n = c # s" by (cases "dec_str n") auto
  then have d: "is_dec_digit c" using dec_str_digits [of c n] by simp
  have r: "digits_loop m rest = (m, rest)" for m using assms by (cases rest) auto
  have "\<forall>c \<in> set (dec_str n). is_dec_digit c" using dec_str_digits by blast
  then have l: "digits_loop 0 (dec_str n @ rest) = (of_nat n, rest)"
    by (simp add: digits_loop_append digits_loop_dec r)
  from l c have "digits_loop 0 (c # s @ rest) = (of_nat n, rest)" by simp
  then show ?thesis
    using digit_not_space [OF d] by (simp add: strtoull10_def c)
qed

lemma strtoull10_fmt:
  assumes "rest = [] \<or> \<not> is_dec_digit (hd rest)"
  shows "strtoull10 (fmt_llu w @ rest) = (w, rest)" "strtoull10 (fmt_u v @ rest) = (ucast v, rest)"
proof -
  show "strtoull10 (fmt_llu w @ rest) = (w, rest)" using strtoull10_dec [OF assms] by (simp add: fmt_llu_def)
  have "of_nat (unat v) = (ucast v :: u64)"
    using unat_ucast_32_64 [of v] by (metis word_of_unat)
  then show "strtoull10 (fmt_u v @ rest) = (ucast v, rest)" using strtoull10_dec [OF assms] by (simp add: fmt_u_def)
qed

end
