(* ===== verification/CCT.thy ===== *)
theory CCT
  imports DataModel Libc
begin

text \<open>
  The calling context tree (\<open>cct.c\<close>, and the child search of \<open>function_enter\<close>): finding the
  parent of a call, printing the tree into a report and freeing it.
  Nodes live in \<open>ccts\<close> and point at each other by index; following a sibling list is
  bounded by the number of nodes, since a list that ran longer would be circular.
\<close>

fun parent_scan :: "(nat \<Rightarrow> Activation) \<Rightarrow> nat \<Rightarrow> nat option" where
  "parent_scan st 0 = None"
| "parent_scan st (Suc d) = (case node (st d) of Some n \<Rightarrow> Some n | None \<Rightarrow> parent_scan st d)"

text \<open>\<open>parent_CCT\<close>: the node of the deepest activation below the current one that has a node,
  else the root.\<close>

definition parent_CCT :: "ThreadData \<Rightarrow> nat option" where
  "parent_CCT td =
     (if stack_depth td \<le> 1 then t_root td
      else case parent_scan (stack td) (unat (stack_depth td) - 1) of Some n \<Rightarrow> Some n | None \<Rightarrow> t_root td)"

definition cct_get :: "CCTNode list \<Rightarrow> nat \<Rightarrow> CCTNode res" where
  "cct_get cs n = (if n < length cs then Inr (cs ! n) else Inl NullDeref)"

text \<open>The loop over the children: \<open>fuel\<close> bounds the number of siblings visited.\<close>

fun find_child :: "nat \<Rightarrow> CCTNode list \<Rightarrow> nat option \<Rightarrow> u64 \<Rightarrow> nat option res" where
  "find_child fuel cs None rid = Inr None"
| "find_child 0 cs (Some n) rid = Inl Diverges"
| "find_child (Suc fuel) cs (Some n) rid =
     bindR (cct_get cs n) (\<lambda>c. if n_routine_id c = rid then Inr (Some n)
                              else find_child fuel cs (next_sibling c) rid)"

definition new_child :: "CCTNode list \<Rightarrow> nat \<Rightarrow> u64 \<Rightarrow> u32 \<Rightarrow> CCTNode list" where
  "new_child cs parent rid cid =
     (let c = \<lparr>first_child = None, next_sibling = first_child (cs ! parent), n_routine_id = rid, n_context_id = cid\<rparr>
      in (cs @ [c])[parent := (cs ! parent)\<lparr>first_child := Some (length cs)\<rparr>])"

definition empty_node :: CCTNode where
  "empty_node = \<lparr>first_child = None, next_sibling = None, n_routine_id = 0, n_context_id = 0\<rparr>"

text \<open>Every pointer leads to a node, and a sibling was allocated earlier: sibling lists end.\<close>

definition cct_inv :: "CCTNode list \<Rightarrow> bool" where
  "cct_inv cs \<longleftrightarrow> (\<forall>n < length cs.
     (\<forall>c. first_child (cs ! n) = Some c \<longrightarrow> n < c \<and> c < length cs) \<and>
     (\<forall>s. next_sibling (cs ! n) = Some s \<longrightarrow> s < n))"

lemma cct_invD:
  assumes "cct_inv cs" "n < length cs"
  shows "first_child (cs ! n) = Some c \<Longrightarrow> n < c \<and> c < length cs"
    "next_sibling (cs ! n) = Some s \<Longrightarrow> s < n"
  using assms unfolding cct_inv_def by blast+

lemma new_child_nth:
  assumes "p < length cs"
  shows "length (new_child cs p rid cid) = Suc (length cs)"
    "n < Suc (length cs) \<Longrightarrow> first_child (new_child cs p rid cid ! n) =
       (if n = p then Some (length cs) else if n = length cs then None else first_child (cs ! n))"
    "n < Suc (length cs) \<Longrightarrow> next_sibling (new_child cs p rid cid ! n) = (if n = length cs then first_child (cs ! p) else next_sibling (cs ! n))"
    "n < Suc (length cs) \<Longrightarrow> n_routine_id (new_child cs p rid cid ! n) = (if n = length cs then rid else n_routine_id (cs ! n))"
  using assms by (auto simp: new_child_def Let_def nth_append nth_list_update)

lemma cct_inv_new_child [inv_intros]:
  assumes inv: "cct_inv cs" and p: "p < length cs"
  shows "cct_inv (new_child cs p rid cid)"
  unfolding cct_inv_def
proof (intro allI impI conjI)
  fix n c
  assume "n < length (new_child cs p rid cid)"
  then have n: "n < Suc (length cs)" by (simp add: new_child_nth(1) [OF p])
  {
    assume "first_child (new_child cs p rid cid ! n) = Some c"
    then consider "n = p" "c = length cs" | "n < length cs" "first_child (cs ! n) = Some c"
      using n by (auto simp: new_child_nth(2) [OF p] less_Suc_eq split: if_splits)
    then show "n < c" "c < length (new_child cs p rid cid)"
      using cct_invD(1) [OF inv, of n c] p by (cases; simp add: new_child_nth(1) [OF p])+
  next
    assume "next_sibling (new_child cs p rid cid ! n) = Some c"
    then consider "n = length cs" "first_child (cs ! p) = Some c" | "n < length cs" "next_sibling (cs ! n) = Some c"
      using n by (auto simp: new_child_nth(3) [OF p] less_Suc_eq split: if_splits)
    then show "c < n"
      using cct_invD(1) [OF inv p, of c] cct_invD(2) [OF inv, of n c] by cases simp_all
  }
qed

lemma find_child_ok:
  assumes "cct_inv cs" "\<And>c. cn = Some c \<Longrightarrow> c < length cs \<and> c < fuel"
  shows "\<exists>r. find_child fuel cs cn rid = Inr r \<and> (\<forall>n. r = Some n \<longrightarrow> n < length cs \<and> n_routine_id (cs ! n) = rid)"
  using assms
proof (induction fuel cs cn rid rule: find_child.induct)
  case (3 fuel cs n rid)
  then have n: "n < length cs" "n < Suc fuel" by simp_all
  have "next_sibling (cs ! n) = Some s \<Longrightarrow> s < length cs \<and> s < fuel" for s
    using cct_invD(2) [OF "3.prems"(1) n(1), of s] n by linarith
  with 3 n show ?case by (auto simp: cct_get_def)
qed simp_all

section \<open>Printing and freeing\<close>

text \<open>\<open>print_report_CCT\<close>: what is written for a node and, in \<open>print_siblings\<close>, for the nodes of a
  child list.  The C recursion has no bound of its own; \<open>fuel\<close> stands for one.\<close>

definition cct_line :: "CCTNode \<Rightarrow> u32 \<Rightarrow> string list" where
  "cct_line c parent_id =
     (if n_context_id c > 0 then
        (if parent_id > 0
         then [''x '' @ fmt_llu (n_routine_id c) @ '' '' @ fmt_u (n_context_id c) @ '' '' @ fmt_u parent_id @ [LF]]
         else [''x '' @ fmt_llu (n_routine_id c) @ '' '' @ fmt_u (n_context_id c) @ '' -1'' @ [LF]])
      else [])"

fun print_report_CCT :: "nat \<Rightarrow> CCTNode list \<Rightarrow> nat option \<Rightarrow> u32 \<Rightarrow> string list res"
  and print_siblings :: "nat \<Rightarrow> CCTNode list \<Rightarrow> nat option \<Rightarrow> u32 \<Rightarrow> string list res" where
  "print_report_CCT fuel cs None parent_id = Inr []"
| "print_report_CCT 0 cs (Some n) parent_id = Inl Diverges"
| "print_report_CCT (Suc fuel) cs (Some n) parent_id = bindR (cct_get cs n) (\<lambda>c.
     bindR (print_siblings fuel cs (first_child c) (n_context_id c)) (\<lambda>ls. Inr (cct_line c parent_id @ ls)))"
| "print_siblings fuel cs None parent_id = Inr []"
| "print_siblings 0 cs (Some n) parent_id = Inl Diverges"
| "print_siblings (Suc fuel) cs (Some n) parent_id = bindR (cct_get cs n) (\<lambda>c.
     bindR (print_report_CCT fuel cs (Some n) parent_id) (\<lambda>ls.
     bindR (print_siblings fuel cs (next_sibling c) parent_id) (\<lambda>ls'. Inr (ls @ ls'))))"

text \<open>\<open>free_CCT\<close>: the nodes handed to \<open>free\<close>, in that order.  A node's sibling pointer is read
  before the node is freed.\<close>

fun free_CCT :: "nat \<Rightarrow> CCTNode list \<Rightarrow> nat option \<Rightarrow> nat list res"
  and free_siblings :: "nat \<Rightarrow> CCTNode list \<Rightarrow> nat option \<Rightarrow> nat list res" where
  "free_CCT fuel cs None = Inr []"
| "free_CCT 0 cs (Some n) = Inl Diverges"
| "free_CCT (Suc fuel) cs (Some n) = bindR (cct_get cs n) (\<lambda>c.
     bindR (free_siblings fuel cs (first_child c)) (\<lambda>ns. Inr (ns @ [n])))"
| "free_siblings fuel cs None = Inr []"
| "free_siblings 0 cs (Some n) = Inl Diverges"
| "free_siblings (Suc fuel) cs (Some n) = bindR (cct_get cs n) (\<lambda>c.
     bindR (free_CCT fuel cs (Some n)) (\<lambda>ns.
     bindR (free_siblings fuel cs (next_sibling c)) (\<lambda>ns'. Inr (ns @ ns'))))"

text \<open>Fuel that is enough for a tree of \<open>length cs\<close> nodes: every nested call goes to a child or to
  an earlier sibling.\<close>

definition cct_fuel :: "CCTNode list \<Rightarrow> nat" where
  "cct_fuel cs = 2 * (Suc (length cs) * Suc (length cs))"

text \<open>The nodes form a forest: \<open>par\<close> gives each node's parent, and the children of a node are
  linked in decreasing order.\<close>

definition cct_forest :: "(nat \<Rightarrow> nat) \<Rightarrow> CCTNode list \<Rightarrow> bool" where
  "cct_forest par cs \<longleftrightarrow> (\<forall>n < length cs.
     (\<forall>c. first_child (cs ! n) = Some c \<longrightarrow> n < c \<and> c < length cs \<and> par c = n) \<and>
     (\<forall>s. next_sibling (cs ! n) = Some s \<longrightarrow> s < n \<and> par s = par n \<and> par s < s))"

definition cct_rank :: "nat \<Rightarrow> nat \<Rightarrow> nat \<Rightarrow> nat" where
  "cct_rank len p n = 2 * ((len - p) * Suc len + n)"

lemma cct_forestD:
  assumes "cct_forest par cs" "n < length cs"
  shows "first_child (cs ! n) = Some c \<Longrightarrow> n < c \<and> c < length cs \<and> par c = n"
    "next_sibling (cs ! n) = Some s \<Longrightarrow> s < n \<and> par s = par n \<and> par s < s"
  using assms unfolding cct_forest_def by blast+

lemma cct_forest_inv: "cct_forest par cs \<Longrightarrow> cct_inv cs"
  unfolding cct_inv_def using cct_forestD by blast

lemma cct_forest_empty: "cct_forest par [empty_node]"
  by (simp add: cct_forest_def empty_node_def)

lemma cct_forest_new_child:
  assumes F: "cct_forest par cs" and p: "p < length cs"
  shows "cct_forest (par(length cs := p)) (new_child cs p rid cid)"
  unfolding cct_forest_def
proof (intro allI impI)
  fix n
  let ?par = "par(length cs := p)" and ?cs = "new_child cs p rid cid"
  assume "n < length ?cs"
  then have n: "n < Suc (length cs)" by (simp add: new_child_nth(1) [OF p])
  have c: "n < c \<and> c < length ?cs \<and> ?par c = n" if "first_child (?cs ! n) = Some c" for c
  proof -
    from that consider "n = p" "c = length cs" | "n < length cs" "first_child (cs ! n) = Some c"
      using n by (auto simp: new_child_nth(2) [OF p] less_Suc_eq split: if_splits)
    then show ?thesis
      using cct_forestD(1) [OF F, of n c] p by cases (simp_all add: new_child_nth(1) [OF p])
  qed
  have s: "s < n \<and> ?par s = ?par n \<and> ?par s < s" if "next_sibling (?cs ! n) = Some s" for s
  proof -
    from that consider "n = length cs" "first_child (cs ! p) = Some s" | "n < length cs" "next_sibling (cs ! n) = Some s"
      using n by (auto simp: new_child_nth(3) [OF p] less_Suc_eq split: if_splits)
    then show ?thesis
    proof cases
      case 1
      with cct_forestD(1) [OF F p, of s] show ?thesis by simp
    next
      case 2
      with cct_forestD(2) [OF F, of n s] show ?thesis by simp
    qed
  qed
  show "(\<forall>c. first_child (?cs ! n) = Some c \<longrightarrow> n < c \<and> c < length ?cs \<and> ?par c = n) \<and>
    (\<forall>s. next_sibling (?cs ! n) = Some s \<longrightarrow> s < n \<and> ?par s = ?par n \<and> ?par s < s)"
    using c s by blast
qed

text \<open>The rank of a child list falls along every nested call.\<close>

lemma cct_rank_child:
  assumes "p < n" "n < len" "c < len"
  shows "cct_rank len n c + 2 \<le> cct_rank len p n"
proof -
  have "Suc (len - n) \<le> len - p" using assms by simp
  then have "Suc (len - n) * Suc len \<le> (len - p) * Suc len" by (rule mult_right_mono) simp
  then show ?thesis using assms(3) by (simp add: cct_rank_def)
qed

lemma cct_rank_sibling: "s < n \<Longrightarrow> cct_rank len p s + 2 \<le> cct_rank len p n"
  by (simp add: cct_rank_def)

lemma cct_rank_root:
  assumes "c < len" shows "Suc (cct_rank len n c) < 2 * (Suc len * Suc len)"
proof -
  have "(len - n) * Suc len \<le> len * Suc len" by (rule mult_right_mono) simp_all
  then show ?thesis using assms by (simp add: cct_rank_def)
qed

lemma print_CCT_ok:
  assumes F: "cct_forest par cs"
  shows "(\<And>n. no = Some n \<Longrightarrow> n < length cs \<and> 0 < fuel \<and>
      (\<forall>c. first_child (cs ! n) = Some c \<longrightarrow> Suc (cct_rank (length cs) n c) < fuel)) \<Longrightarrow>
      \<exists>ls. print_report_CCT fuel cs no pid = Inr ls"
    and "(\<And>n. no = Some n \<Longrightarrow> n < length cs \<and> par n < n \<and> cct_rank (length cs) (par n) n < fuel) \<Longrightarrow>
      \<exists>ls. print_siblings fuel cs no pid = Inr ls"
  using F
proof (induction fuel cs no pid and fuel cs no pid rule: print_report_CCT_print_siblings.induct)
  case (3 fuel cs n pid)
  then have n: "n < length cs" by simp
  have "\<exists>ls. print_siblings fuel cs (first_child (cs ! n)) (n_context_id (cs ! n)) = Inr ls"
    by (rule "3.IH") (use n 3 cct_forestD(1) [OF "3.prems"(2) n] in \<open>auto simp: cct_get_def\<close>)
  with n show ?case by (auto simp: cct_get_def)
next
  case (6 fuel cs n pid)
  then have n: "n < length cs" "par n < n" "cct_rank (length cs) (par n) n < Suc fuel" by simp_all
  note D = cct_forestD [OF "6.prems"(2) n(1)]
  have g: "cct_get cs n = Inr (cs ! n)" using n(1) by (simp add: cct_get_def)
  have "2 \<le> cct_rank (length cs) (par n) n" using n(2) by (simp add: cct_rank_def)
  with n have "0 < fuel" by simp
  then have "\<exists>ls. print_report_CCT fuel cs (Some n) pid = Inr ls"
    using "6.IH"(1) [OF g _ "6.prems"(2)] n D(1) cct_rank_child [OF n(2,1)] by fastforce
  then obtain ls where ls: "print_report_CCT fuel cs (Some n) pid = Inr ls" by blast
  have "\<exists>ls'. print_siblings fuel cs (next_sibling (cs ! n)) pid = Inr ls'"
    by (rule "6.IH"(2) [OF g ls _ "6.prems"(2)])
      (use n D(2) cct_rank_sibling [of _ n "length cs" "par n"] in fastforce)
  with ls g show ?case by auto
qed simp_all

text \<open>The nodes of the subtree of \<open>n\<close>: those whose chain of parents reaches \<open>n\<close> from above.\<close>

definition below :: "(nat \<Rightarrow> nat) \<Rightarrow> nat \<Rightarrow> nat \<Rightarrow> bool" where
  "below par n x \<longleftrightarrow> (\<exists>k. (par ^^ k) x = n \<and> (\<forall>j < k. n < (par ^^ j) x))"

lemma below_refl [simp]: "below par n n"
  unfolding below_def by (rule exI [of _ 0]) simp

lemma below_child: "below par c x \<Longrightarrow> n < c \<Longrightarrow> par c = n \<Longrightarrow> below par n x"
  unfolding below_def
proof (elim exE conjE)
  fix k assume k: "n < c" "par c = n" "(par ^^ k) x = c" "\<forall>j < k. c < (par ^^ j) x"
  have "\<forall>j < Suc k. n < (par ^^ j) x" using k by (auto simp: less_Suc_eq intro: less_trans)
  moreover have "(par ^^ Suc k) x = n" using k by simp
  ultimately show "\<exists>k. (par ^^ k) x = n \<and> (\<forall>j < k. n < (par ^^ j) x)" by blast
qed

lemma below_le: "below par n x \<Longrightarrow> n \<le> x"
  unfolding below_def by (metis funpow_0 gr0I less_imp_le order_refl)

lemma below_siblings:
  assumes x: "below par a x" "below par b x" and sib: "par a = p" "par b = p" "p < a" "p < b"
  shows "a = b"
proof -
  have one: "a = b" if kl: "k \<le> l" and k: "(par ^^ k) x = a" and l: "(par ^^ l) x = b" "\<forall>j < l. b < (par ^^ j) x"
    and s: "par a = p" "p < b" for k l a b
  proof (rule ccontr)
    assume ab: "a \<noteq> b"
    then have kl': "k < l" using kl k l(1) by (cases "k = l") auto
    have pk: "(par ^^ Suc k) x = p" using k s by simp
    show False
    proof (cases "Suc k = l")
      case True
      with pk l(1) s show False by simp
    next
      case False
      then have "Suc k < l" using kl' by simp
      with l(2) pk s show False by fastforce
    qed
  qed
  from x obtain k l where "(par ^^ k) x = a" "\<forall>j < k. a < (par ^^ j) x" "(par ^^ l) x = b" "\<forall>j < l. b < (par ^^ j) x"
    unfolding below_def by blast
  with one [of k l a b] one [of l k b a] sib show ?thesis by (cases "k \<le> l") auto
qed

lemma free_CCT_ok:
  assumes F: "cct_forest par cs"
  shows "(\<And>n. no = Some n \<Longrightarrow> n < length cs \<and> 0 < fuel \<and>
      (\<forall>c. first_child (cs ! n) = Some c \<longrightarrow> Suc (cct_rank (length cs) n c) < fuel)) \<Longrightarrow>
      \<exists>ns. free_CCT fuel cs no = Inr ns \<and> distinct ns \<and> (\<forall>x \<in> set ns. \<exists>n. no = Some n \<and> below par n x) \<and>
        (\<forall>n. no = Some n \<longrightarrow> n \<in> set ns)"
    and "(\<And>n. no = Some n \<Longrightarrow> n < length cs \<and> par n < n \<and> cct_rank (length cs) (par n) n < fuel) \<Longrightarrow>
      \<exists>ns. free_siblings fuel cs no = Inr ns \<and> distinct ns \<and>
        (\<forall>x \<in> set ns. \<exists>n s. no = Some n \<and> s \<le> n \<and> par s = par n \<and> par s < s \<and> below par s x)"
  using F
proof (induction fuel cs no and fuel cs no rule: free_CCT_free_siblings.induct)
  case (3 fuel cs n)
  then have n: "n < length cs" by simp
  note D = cct_forestD [OF "3.prems"(2) n]
  have "\<exists>ns. free_siblings fuel cs (first_child (cs ! n)) = Inr ns \<and> distinct ns \<and>
    (\<forall>x \<in> set ns. \<exists>m s. first_child (cs ! n) = Some m \<and> s \<le> m \<and> par s = par m \<and> par s < s \<and> below par s x)"
    by (rule "3.IH") (use n 3 D(1) in \<open>auto simp: cct_get_def\<close>)
  then obtain ns where ns: "free_siblings fuel cs (first_child (cs ! n)) = Inr ns" "distinct ns"
    "\<forall>x \<in> set ns. \<exists>m s. first_child (cs ! n) = Some m \<and> s \<le> m \<and> par s = par m \<and> par s < s \<and> below par s x" by blast
  have desc: "below par n x \<and> n < x" if x: "x \<in> set ns" for x
  proof -
    from ns(3) x obtain m s where ms: "first_child (cs ! n) = Some m" "par s = par m" "par s < s" "below par s x" by blast
    with D(1) [OF ms(1)] have "par s = n" "n < s" by simp_all
    with below_child [OF ms(4)] below_le [OF ms(4)] show ?thesis by simp
  qed
  then have "distinct (ns @ [n])" using ns(2) by auto
  with ns(1) n desc show ?case by (auto simp: cct_get_def)
next
  case (6 fuel cs n)
  then have n: "n < length cs" "par n < n" "cct_rank (length cs) (par n) n < Suc fuel" by simp_all
  note D = cct_forestD [OF "6.prems"(2) n(1)]
  have g: "cct_get cs n = Inr (cs ! n)" using n(1) by (simp add: cct_get_def)
  have "2 \<le> cct_rank (length cs) (par n) n" using n(2) by (simp add: cct_rank_def)
  with n have "0 < fuel" by simp
  then have "\<exists>ns. free_CCT fuel cs (Some n) = Inr ns \<and> distinct ns \<and> (\<forall>x \<in> set ns. \<exists>m. Some n = Some m \<and> below par m x) \<and>
      (\<forall>m. Some n = Some m \<longrightarrow> m \<in> set ns)"
    by (intro "6.IH"(1) [OF g _ "6.prems"(2)]) (use n D(1) cct_rank_child [OF n(2,1)] in fastforce)
  then obtain ns where ns: "free_CCT fuel cs (Some n) = Inr ns" "distinct ns" "\<forall>x \<in> set ns. below par n x" by blast
  have "\<exists>ns'. free_siblings fuel cs (next_sibling (cs ! n)) = Inr ns' \<and> distinct ns' \<and>
      (\<forall>x \<in> set ns'. \<exists>m s. next_sibling (cs ! n) = Some m \<and> s \<le> m \<and> par s = par m \<and> par s < s \<and> below par s x)"
    by (rule "6.IH"(2) [OF g ns(1) _ "6.prems"(2)])
      (use n D(2) cct_rank_sibling [of _ n "length cs" "par n"] in fastforce)
  then obtain ns' where ns': "free_siblings fuel cs (next_sibling (cs ! n)) = Inr ns'" "distinct ns'"
    "\<forall>x \<in> set ns'. \<exists>m s. next_sibling (cs ! n) = Some m \<and> s \<le> m \<and> par s = par m \<and> par s < s \<and> below par s x" by blast
  have sib: "\<exists>s < n. par s = par n \<and> par s < s \<and> below par s x" if x: "x \<in> set ns'" for x
  proof -
    from ns'(3) x obtain m s where ms: "next_sibling (cs ! n) = Some m" "s \<le> m" "par s = par m" "par s < s" "below par s x" by blast
    with D(2) [OF ms(1)] show ?thesis by (intro exI [of _ s]) auto
  qed
  have "set ns \<inter> set ns' = {}"
  proof (intro equals0I)
    fix x assume "x \<in> set ns \<inter> set ns'"
    with ns(3) have x: "below par n x" "x \<in> set ns'" by auto
    from sib [OF x(2)] obtain s where "s < n" "par s = par n" "par s < s" "below par s x" by blast
    with below_siblings [OF x(1), of s "par n"] n(2) show False by simp
  qed
  then have dist: "distinct (ns @ ns')" using ns(2) ns'(2) by simp
  have "\<exists>s \<le> n. par s = par n \<and> par s < s \<and> below par s x" if "x \<in> set (ns @ ns')" for x
  proof (cases "x \<in> set ns")
    case True
    with ns(3) n(2) show ?thesis by blast
  next
    case False
    with that sib [of x] less_imp_le show ?thesis by (metis Un_iff set_append)
  qed
  with dist ns(1) ns'(1) g show ?case by auto
qed simp_all



end
