(* ===== verification/Util.thy ===== *)
theory Util
  imports DataModel
begin

text \<open>
  \<open>util.c\<close>: the string hash, and the records that tie a function to the tables of a thread.
  With \<open>single_report\<close> a routine's tuples live in the table of its function, shared by all
  threads; otherwise every thread keeps tables and routine ids of its own.
\<close>

section \<open>String hash\<close>

text \<open>\<open>HChar\<close> is a signed 8 bit type; the loop stops at the terminating zero.\<close>

definition HChar_val :: "char \<Rightarrow> int" where
  "HChar_val c = (let n = of_char c :: int in if n < 128 then n else n - 256)"

fun str_hash_loop :: "u32 \<Rightarrow> string \<Rightarrow> u32" where
  "str_hash_loop hash_value [] = hash_value"
| "str_hash_loop hash_value (c # s) =
     (if HChar_val c = 0 then hash_value else str_hash_loop (31 * hash_value + of_int (HChar_val c)) s)"

definition str_hash :: "string \<Rightarrow> u32" where
  "str_hash s = str_hash_loop 0 s"

section \<open>Routines of a thread\<close>

definition get_ri :: "ThreadData \<Rightarrow> u64 \<Rightarrow> RoutineInfo res" where
  "get_ri td k = bindR (derefR (HT_lookup (rtn_ht td) k)) (\<lambda>n. Inr (val n))"

definition upd_ri :: "ThreadData \<Rightarrow> u64 \<Rightarrow> (RoutineInfo \<Rightarrow> RoutineInfo) \<Rightarrow> ThreadData" where
  "upd_ri td k f = td\<lparr>rtn_ht := HT_modify (rtn_ht td) k (\<lambda>_. True) f\<rparr>"

definition get_fn :: "Runtime \<Rightarrow> u64 \<Rightarrow> Function res" where
  "get_fn rt f = derefR (fns rt f)"

definition add_routine :: "Runtime \<Rightarrow> nat \<Rightarrow> u64 \<Rightarrow> RoutineInfo \<Rightarrow> Runtime res" where
  "add_routine rt t target ri =
     bindR (get_td rt t) (\<lambda>td.
     bindR (HT_add_node (rtn_ht td) target \<lparr>key = target, val = ri\<rparr>) (\<lambda>h.
     Inr (put_td rt t (td\<lparr>rtn_ht := h\<rparr>))))"

definition new_routine_info :: "Runtime \<Rightarrow> nat \<Rightarrow> u64 \<Rightarrow> u64 \<Rightarrow> Runtime res" where
  "new_routine_info rt t f target =
     (let rtn_info = \<lparr>routine_id = 0, ri_fn = f, recursion_pending = 0, input_map = NoMap\<rparr> in
      bindR (get_fn rt f) (\<lambda>fn.
      if \<not> discard fn then
        if single_report (cfg rt) then
          let fn' = (case fn_input_map fn of None \<Rightarrow> fn\<lparr>fn_input_map := Some (HT_construct True)\<rparr> | Some _ \<Rightarrow> fn)
          in add_routine (rt\<lparr>fns := (fns rt)(f := Some fn')\<rparr>) t target
               (rtn_info\<lparr>input_map := FnMap, routine_id := function_id fn\<rparr>)
        else bindR (get_td rt t) (\<lambda>td.
          add_routine (put_td rt t (td\<lparr>next_routine_id := next_routine_id td + 1\<rparr>)) t target
            (rtn_info\<lparr>routine_id := next_routine_id td, input_map := OwnMap (HT_construct False)\<rparr>))
      else add_routine rt t target rtn_info))"

text \<open>The \<open>destroy\<close> functions free records; what they release besides the record itself is the
  list of tuples.\<close>

definition destroy_function :: "Function \<Rightarrow> Input HashNode list" where
  "destroy_function fn = (case fn_input_map fn of None \<Rightarrow> [] | Some m \<Rightarrow> HT_destruct m)"

definition destroy_routine_info :: "Runtime \<Rightarrow> RoutineInfo \<Rightarrow> Input HashNode list res" where
  "destroy_routine_info rt ri = (case input_map ri of
     NoMap \<Rightarrow> Inr []
   | OwnMap m \<Rightarrow> Inr (HT_destruct m)
   | FnMap \<Rightarrow> bindR (get_fn rt (ri_fn ri)) (\<lambda>fn. Inr (destroy_function fn)))"

section \<open>Functions and objects by name\<close>

text \<open>The search both \<open>BB_start\<close> and \<open>merge_tuple\<close> make: from the first node with the hash of the
  name on along the chain, comparing names.\<close>

definition find_fn :: "Runtime \<Rightarrow> string \<Rightarrow> u64 option" where
  "find_fn rt name =
     map_option val (find (\<lambda>n. case fns rt (val n) of Some fn \<Rightarrow> fn_name fn = name | None \<Rightarrow> False)
       (HT_chain_from (fn_ht rt) (ucast (str_hash name))))"

text \<open>An object is created when its name is new.\<close>

definition find_obj :: "Runtime \<Rightarrow> string \<Rightarrow> nat option" where
  "find_obj rt name =
     map_option val (find (\<lambda>n. val n < length (objs rt) \<and> o_name (objs rt ! val n) = name)
       (HT_chain_from (obj_ht rt) (ucast (str_hash name))))"

definition obj_of :: "Runtime \<Rightarrow> string \<Rightarrow> (Runtime \<times> nat) res" where
  "obj_of rt name = (case find_obj rt name of
     Some i \<Rightarrow> Inr (rt, i)
   | None \<Rightarrow>
       (let hash = ucast (str_hash name); i = length (objs rt)
        in bindR (HT_add_node (obj_ht rt) hash \<lparr>key = hash, val = i\<rparr>) (\<lambda>h.
           Inr (rt\<lparr>obj_ht := h, objs := objs rt @ [\<lparr>o_name = name, o_filename = None\<rparr>]\<rparr>, i))))"

section \<open>Properties of the hash\<close>

text \<open>The loop computes the polynomial \<open>\<Sum> c\<^sub>i 31\<^bsup>n-1-i\<^esup>\<close> modulo \<open>2\<^bsup>32\<^esup>\<close>.\<close>

lemma str_hash_loop_append:
  "\<forall>c \<in> set s. HChar_val c \<noteq> 0 \<Longrightarrow> str_hash_loop h (s @ s') = str_hash_loop (str_hash_loop h s) s'"
  by (induction s arbitrary: h) auto

lemma str_hash_loop_poly:
  "\<forall>c \<in> set s. HChar_val c \<noteq> 0 \<Longrightarrow>
     str_hash_loop h s = h * 31 ^ length s + of_int (\<Sum>i < length s. HChar_val (s ! i) * 31 ^ (length s - 1 - i))"
proof (induction s rule: rev_induct)
  case (snoc c s)
  have "(\<Sum>i < length s. HChar_val ((s @ [c]) ! i) * 31 ^ (length s - i)) =
      31 * (\<Sum>i < length s. HChar_val (s ! i) * 31 ^ (length s - 1 - i))"
    unfolding sum_distrib_left
    by (rule sum.cong) (auto simp: nth_append power_Suc [symmetric] Suc_diff_Suc simp del: power_Suc)
  with snoc show ?case
    by (simp add: str_hash_loop_append algebra_simps)
qed simp

section \<open>Invariant of a thread's routines\<close>

lemma ht_uniq_get: "ht_inv t \<Longrightarrow> ht.uniq t \<longleftrightarrow> (\<forall>k. length (ht_get t k) \<le> 1)"
  unfolding ht.uniq_def by (simp flip: ht_get_mset)

lemma ht_uniq_HT_modify [inv_intros]:
  assumes "ht_inv t" "ht.uniq t"
  shows "ht.uniq (HT_modify t k P f)"
  using assms by (auto simp: ht_uniq_get ht_inv_HT_modify ht_get_HT_modify)

text \<open>One routine per function of a thread, and one tuple per key where tuples are told apart by
  their key alone.\<close>

definition routines_inv :: "ThreadData \<Rightarrow> bool" where
  "routines_inv td \<longleftrightarrow> ht_inv (rtn_ht td) \<and> ht.uniq (rtn_ht td)"

lemma get_ri_Inr: "get_ri td k = Inr ri \<longleftrightarrow> (\<exists>n. HT_lookup (rtn_ht td) k = Some n \<and> val n = ri)"
  by (auto simp: get_ri_def bindR_eq_Inr)

lemma upd_ri_fields [simp]:
  "shadow_memory (upd_ri td k f) = shadow_memory td" "stack (upd_ri td k f) = stack td"
  "stack_depth (upd_ri td k f) = stack_depth td" "max_stack_size (upd_ri td k f) = max_stack_size td"
  "next_activation_id (upd_ri td k f) = next_activation_id td" "t_skip (upd_ri td k f) = t_skip td"
  "t_cost (upd_ri td k f) = t_cost td" "skip_cost (upd_ri td k f) = skip_cost td" "t_root (upd_ri td k f) = t_root td"
  by (simp_all add: upd_ri_def)

lemma routines_inv_upd_ri [inv_intros]: "routines_inv td \<Longrightarrow> routines_inv (upd_ri td k f)"
  by (simp add: routines_inv_def upd_ri_def inv_intros)

lemma get_ri_upd_ri:
  assumes "routines_inv td" "get_ri td k = Inr ri"
  shows "get_ri (upd_ri td k f) k' = (if k' = k then Inr (f ri) else get_ri td k')"
  using assms
  by (auto simp: get_ri_def upd_ri_def routines_inv_def HT_lookup_HT_modify bindR_eq_Inr)

lemma add_routine_ok:
  assumes "threads rt t = Some td" "routines_inv td" "HT_lookup (rtn_ht td) target = None"
  shows "\<exists>h. add_routine rt t target ri = Inr (put_td rt t (td\<lparr>rtn_ht := h\<rparr>)) \<and>
    routines_inv (td\<lparr>rtn_ht := h\<rparr>) \<and>
    (\<forall>k. get_ri (td\<lparr>rtn_ht := h\<rparr>) k = (if k = target then Inr ri else get_ri td k))"
proof -
  let ?n = "\<lparr>key = target, val = ri\<rparr>"
  from assms ht.add_fresh [of "rtn_ht td" ?n] obtain h where
    "HT_add_node (rtn_ht td) target ?n = Inr h" "ht_inv h" "ht.uniq h"
    "\<forall>k. HT_lookup h k = (if k = target then Some ?n else HT_lookup (rtn_ht td) k)"
    by (auto simp: routines_inv_def)
  with assms show ?thesis
    by (intro exI [of _ h]) (auto simp: add_routine_def get_td_def routines_inv_def get_ri_def)
qed

end
