(* ===== verification/Overflow.thy ===== *)
theory Overflow
  imports DataModel
begin

text \<open>
  \<open>overflow.c\<close>: renumbering the timestamps when a counter is exhausted.  The RMS handler numbers
  the activations of the current thread by their depth; the DRMS handler merges the stacks of all
  threads from the top and numbers the activations by three times their rank.  Both then rewrite
  the shadow memories (theory LookupTable).
\<close>

section \<open>RMS\<close>

text \<open>The loop over \<open>j\<close>, \<open>n\<close> activations left.\<close>

fun overflow_rms_loop :: "ThreadData \<Rightarrow> nat \<Rightarrow> nat \<Rightarrow> u32 list \<Rightarrow> (ThreadData \<times> u32 list) res" where
  "overflow_rms_loop td 0 j arr_aid = Inr (td, arr_aid)"
| "overflow_rms_loop td (Suc n) j arr_aid =
     bindR (get_activation td (of_nat (j + 1))) (\<lambda>(td', p).
     bindR (get_act td' p) (\<lambda>act_c.
       overflow_rms_loop (set_act td' p (act_c\<lparr>activation_id := of_nat (j + 1)\<rparr>)) n (j + 1)
         (arr_aid @ [activation_id act_c])))"

definition overflow_handler_rms :: "Runtime \<Rightarrow> (Runtime \<times> u32) res" where
  "overflow_handler_rms rt =
     bindR (derefR (current_tdata rt)) (\<lambda>t.
     bindR (get_td rt t) (\<lambda>tdata.
     bindR (overflow_rms_loop tdata (unat (stack_depth tdata)) 0 []) (\<lambda>(td, arr_aid).
       Inr (put_td rt t (td\<lparr>shadow_memory := LK_compress_rms (shadow_memory td) arr_aid\<rparr>), stack_depth td + 1))))"

section \<open>DRMS\<close>

text \<open>The slots of the running threads, in the order both loops meet them.\<close>

definition live_slots :: "Runtime \<Rightarrow> nat list" where
  "live_slots rt = take (unat (running_threads rt)) (filter (\<lambda>j. threads rt j \<noteq> None) [0..<VG_N_THREADS])"

text \<open>The loop over \<open>j\<close> that looks for the greatest timestamp on top of the stacks: \<open>act_max\<close> is
  the index \<open>max_ind\<close>, the slot and the stack offset of the activation.\<close>

fun drms_find_max :: "Runtime \<Rightarrow> nat list \<Rightarrow> u32 list \<Rightarrow> nat \<Rightarrow> u32 \<Rightarrow> (nat \<times> nat \<times> aptr) option
    \<Rightarrow> (Runtime \<times> u32 \<times> (nat \<times> nat \<times> aptr) option) res" where
  "drms_find_max rt (k # ks) (d # ds) j mx act_max =
     (if d > 0 then
        bindR (get_td rt k) (\<lambda>td. bindR (get_activation td d) (\<lambda>(td', p). bindR (get_act td' p) (\<lambda>act_tmp.
          if mx < activation_id act_tmp
          then drms_find_max (put_td rt k td') ks ds (j + 1) (activation_id act_tmp) (Some (j, k, p))
          else drms_find_max (put_td rt k td') ks ds (j + 1) mx act_max)))
      else drms_find_max rt ks ds (j + 1) mx act_max)"
| "drms_find_max rt _ _ j mx act_max = Inr (rt, mx, act_max)"

text \<open>The loop over \<open>i\<close> from \<open>sum - 1\<close> down to 1; \<open>active\<close> is \<open>active_ts\<close> above \<open>i\<close>.\<close>

fun drms_merge :: "Runtime \<Rightarrow> nat list \<Rightarrow> u32 list \<Rightarrow> nat \<Rightarrow> u32 list \<Rightarrow> (Runtime \<times> u32 list) res" where
  "drms_merge rt ks stack_depths 0 active = Inr (rt, active)"
| "drms_merge rt ks stack_depths (Suc i) active =
     bindR (drms_find_max rt ks stack_depths 0 0 None) (\<lambda>(rt', mx, act_max).
       case act_max of None \<Rightarrow> Inl NullDeref
       | Some (max_ind, k, p) \<Rightarrow>
           bindR (get_td rt' k) (\<lambda>td. bindR (get_act td p) (\<lambda>a.
             drms_merge (put_td rt' k (set_act td p (a\<lparr>activation_id := of_nat (Suc i) * 3\<rparr>))) ks
               (stack_depths[max_ind := stack_depths ! max_ind - 1]) i (mx # active))))"

fun store_memories :: "(nat \<Rightarrow> ThreadData option) \<Rightarrow> nat list \<Rightarrow> LookupTable list \<Rightarrow> nat \<Rightarrow> ThreadData option" where
  "store_memories ths (k # ks) (m # ms) =
     store_memories (ths(k := map_option (\<lambda>td. td\<lparr>shadow_memory := m\<rparr>) (ths k))) ks ms"
| "store_memories ths _ _ = ths"

definition overflow_handler_drms :: "Runtime \<Rightarrow> (Runtime \<times> u32) res" where
  "overflow_handler_drms rt =
     (let ks = live_slots rt in
      if length ks < unat (running_threads rt) then Inl OutOfBounds
      else bindR (mapR (get_td rt) ks) (\<lambda>tds.
        let stack_depths = map stack_depth tds;
            shamem = map shadow_memory tds;
            sum = sum_list stack_depths + 1
        in bindR (drms_merge rt ks stack_depths (unat (sum - 1)) []) (\<lambda>(rt', active).
           bindR (derefR (global_shadow_memory rt')) (\<lambda>g.
           bindR (LK_compress_drms (0 # active) sum g shamem) (\<lambda>(g', shamem').
             Inr (rt'\<lparr>global_shadow_memory := Some g', threads := store_memories (threads rt') ks shamem'\<rparr>,
                  3 * (sum + 1)))))))"

section \<open>The RMS handler keeps the order of the timestamps\<close>

text \<open>The identifiers of the activations, from the bottom of the stack.\<close>

definition aids :: "ThreadData \<Rightarrow> u32 list" where
  "aids td = map (\<lambda>i. activation_id (stack td i)) [0..<unat (stack_depth td)]"

text \<open>The check of \<open>resize_stack\<close> runs only when the depth reaches the allocated size, which is
  64 times a power of two: what it guarantees is \<open>stack_ok\<close>.\<close>

definition stack_size_ok :: "nat \<Rightarrow> bool" where
  "stack_size_ok n \<longleftrightarrow> (\<exists>k \<le> 8. n = 64 * 2 ^ k)"

definition stack_ok :: "ThreadData \<Rightarrow> bool" where
  "stack_ok td \<longleftrightarrow> stack_size_ok (unat (max_stack_size td)) \<and> 0 < unat (max_stack_size td) \<and> unat (max_stack_size td) \<le> 16384 \<and>
     unat (stack_depth td) \<le> unat (max_stack_size td) \<and>
     (unat (stack_depth td) = unat (max_stack_size td) \<longrightarrow> unat (stack_depth td) < MAX_STACK_SIZE)"

lemma uint_of_depth: "0 < unat (d :: u32) \<Longrightarrow> uint d - 1 = int (unat d - 1)"
  by (simp add: of_nat_diff)

lemma get_activation_in_stack:
  assumes "stack_ok td" "0 < unat d" "unat d \<le> unat (stack_depth td)"
  shows "get_activation td d = Inr (td, int (unat d - 1))"
proof (cases "max_stack_size td \<le> d")
  case True
  then have "unat d = unat (max_stack_size td)" "unat d = unat (stack_depth td)"
    using assms by (simp_all add: stack_ok_def word_le_nat_alt)
  with assms have b: "unat d < MAX_STACK_SIZE" by (auto simp: stack_ok_def)
  have "\<not> d - 1 \<ge> max_stack_size td"
  proof -
    have "unat (d - 1) = unat d - 1"
      using assms(2) by (simp add: unat_sub word_le_nat_alt)
    with assms(2) show ?thesis
      using \<open>unat d = unat (max_stack_size td)\<close> by (simp add: word_le_nat_alt)
  qed
  with True b assms(2) show ?thesis
    unfolding get_activation_def resize_stack_def uint_of_depth [OF assms(2)] by simp
next
  case False
  then show ?thesis unfolding get_activation_def uint_of_depth [OF assms(2)] by simp
qed

lemma get_act_in_stack:
  assumes "stack_ok td" "i < unat (stack_depth td)"
  shows "get_act td (int i) = Inr (stack td i)"
proof -
  from assms have "i < unat (max_stack_size td)" by (auto simp: stack_ok_def)
  then have "int i < int (unat (max_stack_size td))" by (simp only: of_nat_less_iff)
  then show ?thesis by (simp add: get_act_def)
qed

definition renumber :: "nat \<Rightarrow> nat \<Rightarrow> (nat \<Rightarrow> Activation) \<Rightarrow> nat \<Rightarrow> Activation" where
  "renumber j n st i = (if j \<le> i \<and> i < j + n then (st i)\<lparr>activation_id := of_nat (i + 1)\<rparr> else st i)"

lemma stack_ok_stack [simp]: "stack_ok (td\<lparr>stack := st\<rparr>) = stack_ok td"
  by (simp add: stack_ok_def)

lemma overflow_rms_loop_ok:
  assumes "stack_ok td" "j + n \<le> unat (stack_depth td)"
  shows "overflow_rms_loop td n j arr =
    Inr (td\<lparr>stack := renumber j n (stack td)\<rparr>, arr @ map (\<lambda>i. activation_id (stack td i)) [j..<j + n])"
  using assms
proof (induction n arbitrary: td j arr)
  case 0
  have "renumber j 0 (stack td) = stack td" by (auto simp: renumber_def fun_eq_iff)
  then show ?case by simp
next
  case (Suc n)
  let ?td = "set_act td (int j) ((stack td j)\<lparr>activation_id := of_nat (j + 1)\<rparr>)"
  have j: "unat (of_nat (j + 1) :: u32) = Suc j"
    using Suc.prems(2) unat_less_32 [of "stack_depth td"] unat_of_nat32 [of "j + 1"] by simp
  have g: "get_activation td (of_nat (j + 1)) = Inr (td, int j)"
    using get_activation_in_stack [OF Suc.prems(1), of "of_nat (j + 1)", unfolded j] Suc.prems(2)
    by simp
  have a: "get_act td (int j) = Inr (stack td j)"
    using get_act_in_stack [OF Suc.prems(1), of j] Suc.prems(2) by simp
  have "stack_ok ?td" "j + 1 + n \<le> unat (stack_depth ?td)"
    using Suc.prems by (simp_all add: set_act_def)
  note ih = Suc.IH [OF this, of "arr @ [activation_id (stack td j)]"]
  have "overflow_rms_loop td (Suc n) j arr =
      Inr (?td\<lparr>stack := renumber (j + 1) n (stack ?td)\<rparr>,
        (arr @ [activation_id (stack td j)]) @ map (\<lambda>i. activation_id (stack ?td i)) [j + 1..<j + 1 + n])"
    unfolding overflow_rms_loop.simps g bindR_simps prod.case a by (rule ih)
  also have "?td\<lparr>stack := renumber (j + 1) n (stack ?td)\<rparr> = td\<lparr>stack := renumber j (Suc n) (stack td)\<rparr>"
    by (auto simp: renumber_def set_act_def fun_eq_iff)
  also have "map (\<lambda>i. activation_id (stack ?td i)) [j + 1..<j + 1 + n] = map (\<lambda>i. activation_id (stack td i)) [Suc j..<j + Suc n]"
    by (auto simp: set_act_def)
  also have "(arr @ [activation_id (stack td j)]) @ map (\<lambda>i. activation_id (stack td i)) [Suc j..<j + Suc n] =
      arr @ map (\<lambda>i. activation_id (stack td i)) [j..<j + Suc n]"
    using upt_conv_Cons [of j "j + Suc n"] by (simp del: upt_Suc)
  finally show ?case .
qed

text \<open>After the handler the activations are numbered from 1, and a cell's timestamp reaches an
  activation exactly when it did before.\<close>

lemma overflow_handler_rms_ok:
  assumes cur: "current_tdata rt = Some t" "threads rt t = Some td"
    and ok: "stack_ok td" "lk_inv (shadow_memory td)"
    and ids: "sorted_wrt (<) (aids td)" "\<forall>a \<in> set (aids td). 0 < a"
  shows "\<exists>td'. overflow_handler_rms rt = Inr (put_td rt t td', stack_depth td + 1) \<and>
    td' = td\<lparr>stack := renumber 0 (unat (stack_depth td)) (stack td), shadow_memory := shadow_memory td'\<rparr> \<and>
    lk_inv (shadow_memory td') \<and> res_shift (shadow_memory td') = res_shift (shadow_memory td) \<and>
    (\<forall>c. LK_sm (shadow_memory td') c \<le> stack_depth td) \<and>
    (\<forall>c i. i < unat (stack_depth td) \<longrightarrow>
       activation_id (stack td' i) \<le> LK_sm (shadow_memory td') c \<longleftrightarrow> activation_id (stack td i) \<le> LK_sm (shadow_memory td) c)"
proof -
  let ?d = "unat (stack_depth td)"
  let ?td = "td\<lparr>stack := renumber 0 ?d (stack td), shadow_memory := LK_compress_rms (shadow_memory td) (aids td)\<rparr>"
  have d: "?d < 2 ^ 32" by (rule unat_less_32)
  have len: "length (aids td) = ?d" by (simp add: aids_def)
  have l: "overflow_rms_loop td ?d 0 [] = Inr (td\<lparr>stack := renumber 0 ?d (stack td)\<rparr>, aids td)"
    using overflow_rms_loop_ok [OF ok(1), of 0 ?d "[]"] by (simp add: aids_def)
  have sm: "LK_sm (shadow_memory ?td) c = compress_rms_cell (aids td) (LK_sm (shadow_memory td) c)" for c
    using LK_compress_rms_sm(2) [OF ok(2)] by simp
  have le: "LK_sm (shadow_memory ?td) c \<le> stack_depth td" for c
    unfolding sm word_le_nat_alt using compress_rms_cell_le [of "aids td"] d by (simp add: len)
  have ord: "activation_id (stack ?td i) \<le> LK_sm (shadow_memory ?td) c \<longleftrightarrow> activation_id (stack td i) \<le> LK_sm (shadow_memory td) c"
    if i: "i < ?d" for i c
  proof -
    have n: "aids td ! i = activation_id (stack td i)" using i by (simp add: aids_def)
    have z: "0 < aids td ! i" using ids(2) i len by simp
    have u: "unat (of_nat (i + 1) :: u32) = Suc i"
      using i d unat_of_nat32 [of "i + 1"] by simp
    have "activation_id (stack ?td i) = of_nat (i + 1)" using i by (simp add: renumber_def)
    then have "activation_id (stack ?td i) \<le> LK_sm (shadow_memory ?td) c \<longleftrightarrow>
        Suc i \<le> unat (compress_rms_cell (aids td) (LK_sm (shadow_memory td) c))"
      by (simp only: sm word_le_nat_alt u)
    also have "\<dots> \<longleftrightarrow> aids td ! i \<le> LK_sm (shadow_memory td) c"
      using compress_rms_cell_order [OF ids(1) _ _ z] i len d by simp
    finally show ?thesis by (simp only: n)
  qed
  show ?thesis
    using cur ok(2) le ord
    by (intro exI [of _ ?td])
      (simp add: overflow_handler_rms_def get_td_def l LK_compress_rms_sm [OF ok(2)])
qed

end
