(* ===== verification/Functions.thy ===== *)
theory Functions
  imports Util CCT Overflow
begin

unbundle bit_operations_syntax

text \<open>
  \<open>function.c\<close> and \<open>cost.c\<close>: what happens when a routine is entered and left.  Entry gives the
  activation a fresh timestamp (and compresses the old ones when the counter overflows), exit adds
  the activation's costs to the tuple of its input size and its input size to the parent.
\<close>

section \<open>Cost\<close>

definition increase_cost :: "Runtime \<Rightarrow> Runtime res" where
  "increase_cost rt = bindR (derefR (current_tdata rt)) (\<lambda>t. bindR (get_td rt t) (\<lambda>td.
     Inr (put_td rt t (td\<lparr>t_cost := t_cost td + 1\<rparr>))))"

section \<open>Entry\<close>

definition upd_act :: "Runtime \<Rightarrow> nat \<Rightarrow> aptr \<Rightarrow> (Activation \<Rightarrow> Activation) \<Rightarrow> Runtime res" where
  "upd_act rt t p f = bindR (get_td rt t) (\<lambda>td. bindR (get_act td p) (\<lambda>a. Inr (put_td rt t (set_act td p (f a)))))"

text \<open>The timestamp of the new activation.\<close>

definition enter_id_rms :: "Runtime \<Rightarrow> nat \<Rightarrow> aptr \<Rightarrow> Runtime res" where
  "enter_id_rms rt t p =
     bindR (get_td rt t) (\<lambda>td. bindR (get_act td p) (\<lambda>a.
       let td1 = (set_act td p (a\<lparr>activation_id := next_activation_id td\<rparr>))
                   \<lparr>next_activation_id := next_activation_id td + 1\<rparr>;
           rt1 = put_td rt t td1
       in if next_activation_id td1 = 0
          then bindR (overflow_handler_rms rt1) (\<lambda>(rt2, v). bindR (get_td rt2 t) (\<lambda>td2.
                 Inr (put_td rt2 t (td2\<lparr>next_activation_id := v\<rparr>))))
          else Inr rt1))"

definition enter_id_drms :: "Runtime \<Rightarrow> nat \<Rightarrow> aptr \<Rightarrow> Runtime res" where
  "enter_id_drms rt t p =
     (let g = global_counter rt + 1 in
      bindR (upd_act (rt\<lparr>global_counter := g\<rparr>) t p (\<lambda>a. a\<lparr>activation_id := g\<rparr>)) (\<lambda>rt1.
      if g = MAX_COUNT_VAL
      then bindR (get_td rt1 t) (\<lambda>td1.
           bindR (overflow_handler_drms (put_td rt1 t (td1\<lparr>stack_depth := stack_depth td1 - 1\<rparr>))) (\<lambda>(rt2, v).
           bindR (upd_act (rt2\<lparr>global_counter := v\<rparr>) t p (\<lambda>a. a\<lparr>activation_id := v\<rparr>)) (\<lambda>rt3.
           bindR (get_td rt3 t) (\<lambda>td3. Inr (put_td rt3 t (td3\<lparr>stack_depth := stack_depth td3 + 1\<rparr>))))))
      else Inr rt1))"

definition enter_reset :: "Runtime \<Rightarrow> nat \<Rightarrow> aptr \<Rightarrow> Runtime res" where
  "enter_reset rt t p =
     bindR (get_td rt t) (\<lambda>td. bindR (get_act td p) (\<lambda>a.
       let td1 = upd_ri td (routine_info a) (\<lambda>ri. ri\<lparr>recursion_pending := recursion_pending ri + 1\<rparr>)
       in Inr (put_td rt t (set_act td1 p (a\<lparr>sum_children_cost := 0, a_input_size := 0,
            cumul_syscall := 0, cumul_thread := 0, self_syscall := 0, self_thread := 0\<rparr>)))))"

text \<open>The node of the context: an existing child of the parent's node, else a new one.\<close>

definition enter_cct :: "Runtime \<Rightarrow> nat \<Rightarrow> aptr \<Rightarrow> RoutineInfo \<Rightarrow> Runtime res" where
  "enter_cct rt t p ri =
     bindR (get_td rt t) (\<lambda>td.
     bindR (derefR (parent_CCT td)) (\<lambda>parent.
     bindR (cct_get (ccts rt) parent) (\<lambda>pn.
     bindR (find_child (length (ccts rt)) (ccts rt) (first_child pn) (routine_id ri)) (\<lambda>found.
       case found of
         Some cnode \<Rightarrow> upd_act rt t p (\<lambda>a. a\<lparr>node := Some cnode\<rparr>)
       | None \<Rightarrow>
           let rt1 = put_td rt t (td\<lparr>next_context_id := next_context_id td + 1\<rparr>);
               rt2 = rt1\<lparr>ccts := new_child (ccts rt) parent (routine_id ri) (ucast (next_context_id td))\<rparr>
           in upd_act rt2 t p (\<lambda>a. a\<lparr>node := Some (length (ccts rt))\<rparr>)))))"

definition function_enter :: "Runtime \<Rightarrow> nat \<Rightarrow> aptr \<Rightarrow> Runtime res" where
  "function_enter rt t p =
     bindR (get_td rt t) (\<lambda>td. bindR (get_act td p) (\<lambda>act.
       let td1 = set_act td p (act\<lparr>start := aprof_time td\<rparr>); rt1 = put_td rt t td1 in
       bindR (get_ri td (routine_info act)) (\<lambda>rtn_info.
       bindR (get_fn rt (ri_fn rtn_info)) (\<lambda>fn.
       if fn_skip fn then Inr (put_td rt t (td1\<lparr>t_skip := t_skip td1 + 1\<rparr>))
       else if t_skip td > 0 then Inr rt1
       else bindR (if input_metric (cfg rt) = RMS then enter_id_rms rt1 t p else enter_id_drms rt1 t p) (\<lambda>rt2.
            bindR (enter_reset rt2 t p) (\<lambda>rt3.
            if \<not> discard fn \<and> collect_CCT (cfg rt) then enter_cct rt3 t p rtn_info else Inr rt3))))))"

section \<open>Exit\<close>

definition max_u64 :: "u64 \<Rightarrow> u64 \<Rightarrow> u64" where
  "max_u64 x y = x XOR ((x XOR y) AND - (if x < y then 1 else 0))"

definition min_u64 :: "u64 \<Rightarrow> u64 \<Rightarrow> u64" where
  "min_u64 y x = y XOR ((x XOR y) AND - (if x < y then 1 else 0))"

text \<open>The tuple as \<open>calloc\<close> and the initialisation leave it.\<close>

definition new_tuple :: "u64 \<Rightarrow> u64 \<Rightarrow> Input" where
  "new_tuple sz ctx = \<lparr>i_input_size = sz, i_context_id = ctx, calls = 0,
     min_cumulative_cost = - 1, max_cumulative_cost = 0, sum_cumulative_cost = 0,
     min_self_cost = - 1, max_self_cost = 0, sum_self_cost = 0, sum_cumul_real_cost = 0,
     sqr_cumulative_cost = 0, sqr_self_cost = 0, sum_cumul_syscall = 0, sum_cumul_thread = 0,
     sum_self_syscall = 0, sum_self_thread = 0\<rparr>"

text \<open>What one exit adds to the tuple of its input size.\<close>

record Sample =
  s_cumul :: u64
  s_self :: u64
  s_real :: bool   \<comment> \<open>no pending recursive activation\<close>
  s_cumul_syscall :: u64
  s_cumul_thread :: u64
  s_self_syscall :: u64
  s_self_thread :: u64

definition tuple_add :: "Sample \<Rightarrow> Input \<Rightarrow> Input" where
  "tuple_add s tuple = tuple\<lparr>calls := calls tuple + 1,
     sum_cumulative_cost := sum_cumulative_cost tuple + s_cumul s,
     sqr_cumulative_cost := sqr_cumulative_cost tuple + s_cumul s * s_cumul s,
     max_cumulative_cost := max_u64 (max_cumulative_cost tuple) (s_cumul s),
     min_cumulative_cost := min_u64 (min_cumulative_cost tuple) (s_cumul s),
     sum_self_cost := sum_self_cost tuple + s_self s,
     sqr_self_cost := sqr_self_cost tuple + s_self s * s_self s,
     max_self_cost := max_u64 (max_self_cost tuple) (s_self s),
     min_self_cost := min_u64 (min_self_cost tuple) (s_self s),
     sum_cumul_real_cost := (if s_real s then sum_cumul_real_cost tuple + s_cumul s else sum_cumul_real_cost tuple),
     sum_cumul_syscall := sum_cumul_syscall tuple + s_cumul_syscall s,
     sum_cumul_thread := sum_cumul_thread tuple + s_cumul_thread s,
     sum_self_syscall := sum_self_syscall tuple + s_self_syscall s,
     sum_self_thread := sum_self_thread tuple + s_self_thread s\<rparr>"

text \<open>The tuple of input size \<open>sz\<close> (and context, when calling contexts are collected): the search
  follows the chain from the node \<open>HT_lookup\<close> returns.  \<open>ctx\<close> is \<open>None\<close> without contexts.\<close>

definition tuple_key :: "u32 option \<Rightarrow> u32 \<Rightarrow> u64" where
  "tuple_key ctx sz = (case ctx of Some c \<Rightarrow> ucast (aprof_hash sz c) | None \<Rightarrow> ucast sz)"

definition tuple_matches :: "u32 option \<Rightarrow> u32 \<Rightarrow> Input \<Rightarrow> bool" where
  "tuple_matches ctx sz tuple = (case ctx of
     Some c \<Rightarrow> i_context_id tuple = ucast c \<and> i_input_size tuple = ucast sz
   | None \<Rightarrow> True)"

definition find_tuple :: "Input HashTable \<Rightarrow> u32 option \<Rightarrow> u32 \<Rightarrow> Input HashNode option" where
  "find_tuple m ctx sz = (case ctx of
     Some c \<Rightarrow> find (\<lambda>n. tuple_matches ctx sz (val n)) (HT_chain_from m (tuple_key ctx sz))
   | None \<Rightarrow> HT_lookup m (tuple_key ctx sz))"

definition exit_map :: "Input HashTable \<Rightarrow> u32 option \<Rightarrow> u32 \<Rightarrow> Sample \<Rightarrow> Input HashTable res" where
  "exit_map m ctx sz s =
     (let k = tuple_key ctx sz in
      bindR (if find_tuple m ctx sz = None
             then HT_add_node m k \<lparr>key = k, val = new_tuple (ucast sz) (case ctx of Some c \<Rightarrow> ucast c | None \<Rightarrow> 0)\<rparr>
             else Inr m)
        (\<lambda>m'. Inr (HT_modify m' k (tuple_matches ctx sz) (tuple_add s))))"

text \<open>The map a routine's \<open>input_map\<close> points to, and writing it back.\<close>

definition routine_map :: "Runtime \<Rightarrow> RoutineInfo \<Rightarrow> Input HashTable res" where
  "routine_map rt ri = (case input_map ri of
     NoMap \<Rightarrow> Inl NullDeref
   | OwnMap m \<Rightarrow> Inr m
   | FnMap \<Rightarrow> bindR (get_fn rt (ri_fn ri)) (\<lambda>fn. derefR (fn_input_map fn)))"

definition put_routine_map :: "Runtime \<Rightarrow> nat \<Rightarrow> u64 \<Rightarrow> RoutineInfo \<Rightarrow> Input HashTable \<Rightarrow> Runtime res" where
  "put_routine_map rt t k ri m = (case input_map ri of
     NoMap \<Rightarrow> Inl NullDeref
   | OwnMap _ \<Rightarrow> bindR (get_td rt t) (\<lambda>td. Inr (put_td rt t (upd_ri td k (\<lambda>r. r\<lparr>input_map := OwnMap m\<rparr>))))
   | FnMap \<Rightarrow> bindR (get_fn rt (ri_fn ri)) (\<lambda>fn. Inr (rt\<lparr>fns := (fns rt)(ri_fn ri := Some (fn\<lparr>fn_input_map := Some m\<rparr>))\<rparr>)))"

definition exit_tuple :: "Runtime \<Rightarrow> nat \<Rightarrow> Activation \<Rightarrow> RoutineInfo \<Rightarrow> u64 \<Rightarrow> u64 \<Rightarrow> Runtime res" where
  "exit_tuple rt t act ri cumul_cost self_cost =
     bindR (if collect_CCT (cfg rt)
            then bindR (derefR (node act)) (\<lambda>n. bindR (cct_get (ccts rt) n) (\<lambda>c. Inr (Some (n_context_id c))))
            else Inr None) (\<lambda>ctx.
     bindR (routine_map rt ri) (\<lambda>m.
     bindR (exit_map m ctx (a_input_size act)
        \<lparr>s_cumul = cumul_cost, s_self = self_cost, s_real = (recursion_pending ri < 1),
         s_cumul_syscall = cumul_syscall act, s_cumul_thread = cumul_thread act,
         s_self_syscall = self_syscall act, s_self_thread = self_thread act\<rparr>) (\<lambda>m'.
     put_routine_map rt t (routine_info act) ri m')))"

definition exit_parent :: "Runtime \<Rightarrow> nat \<Rightarrow> Activation \<Rightarrow> u64 \<Rightarrow> Runtime res" where
  "exit_parent rt t act cumul_cost =
     bindR (get_td rt t) (\<lambda>td.
       if stack_depth td > 1
       then upd_act rt t (get_activation_noresize (stack_depth td - 1)) (\<lambda>parent. parent
              \<lparr>a_input_size := a_input_size parent + a_input_size act,
               sum_children_cost := sum_children_cost parent + cumul_cost,
               cumul_syscall := cumul_syscall parent + cumul_syscall act,
               cumul_thread := cumul_thread parent + cumul_thread act\<rparr>)
       else Inr rt)"

definition function_exit :: "Runtime \<Rightarrow> nat \<Rightarrow> aptr \<Rightarrow> Runtime res" where
  "function_exit rt t p =
     bindR (get_td rt t) (\<lambda>td. bindR (get_act td p) (\<lambda>act.
     bindR (get_ri td (routine_info act)) (\<lambda>ri0. bindR (get_fn rt (ri_fn ri0)) (\<lambda>fn.
       let doping = ucast (a_input_size act) :: u64;
           td1 = (if dope_fn (cfg rt) = Some (fn_name fn) then td\<lparr>t_cost := t_cost td + doping * doping\<rparr> else td);
           cumul_cost = aprof_time td1 - start act
       in if t_skip td1 > 0 then
            Inr (put_td rt t (if fn_skip fn then td1\<lparr>t_skip := t_skip td1 - 1, skip_cost := skip_cost td1 + cumul_cost\<rparr> else td1))
          else
            let self_cost = cumul_cost - sum_children_cost act;
                ri = ri0\<lparr>recursion_pending := recursion_pending ri0 - 1\<rparr>;
                rt1 = put_td rt t (upd_ri td1 (routine_info act) (\<lambda>_. ri))
            in bindR (if \<not> discard fn then exit_tuple rt1 t act ri cumul_cost self_cost else Inr rt1)
                 (\<lambda>rt2. exit_parent rt2 t act cumul_cost)))))"

section \<open>Access lemmas\<close>

lemma stack_set_act [simp]: "stack (set_act td (int i) a) = (stack td)(i := a)"
  by (simp add: set_act_def)

lemma set_act_fields [simp]:
  "shadow_memory (set_act td p a) = shadow_memory td" "stack_depth (set_act td p a) = stack_depth td"
  "max_stack_size (set_act td p a) = max_stack_size td" "next_activation_id (set_act td p a) = next_activation_id td"
  "rtn_ht (set_act td p a) = rtn_ht td" "t_skip (set_act td p a) = t_skip td"
  "t_cost (set_act td p a) = t_cost td" "skip_cost (set_act td p a) = skip_cost td"
  "t_root (set_act td p a) = t_root td" "next_context_id (set_act td p a) = next_context_id td"
  "stack_ok (set_act td p a) = stack_ok td"
  by (simp_all add: set_act_def)

lemma stack_ok_upd_ri [simp]: "stack_ok (upd_ri td k f) = stack_ok td"
  by (simp add: stack_ok_def)

lemma put_td_put_td [simp]: "put_td (put_td rt t td) t td' = put_td rt t td'"
  by (simp add: put_td_def)

lemma get_td_put_td [simp]: "get_td (put_td rt t td) t = Inr td"
  by (simp add: get_td_def put_td_def)

lemma put_td_fields [simp]:
  "current_tdata (put_td rt t td) = current_tdata rt" "threads (put_td rt t td) t = Some td"
  "cfg (put_td rt t td) = cfg rt" "fns (put_td rt t td) = fns rt" "ccts (put_td rt t td) = ccts rt"
  "global_counter (put_td rt t td) = global_counter rt" "global_shadow_memory (put_td rt t td) = global_shadow_memory rt"
  by (simp_all add: put_td_def)

lemma get_ri_cong: "rtn_ht td' = rtn_ht td \<Longrightarrow> get_ri td' = get_ri td"
  by (simp add: get_ri_def fun_eq_iff)

lemma routines_inv_cong: "rtn_ht td' = rtn_ht td \<Longrightarrow> routines_inv td' = routines_inv td"
  by (simp add: routines_inv_def)

section \<open>The tuples summarise the exits\<close>

lemma max_u64_eq [simp]: "max_u64 x y = max x y"
proof (cases "x < y")
  case True
  then have "max x y = y" by (intro max_absorb2 order.strict_implies_order)
  with True show ?thesis by (simp add: max_u64_def flip: xor.assoc)
next
  case False
  then have "max x y = x" by (intro max_absorb1) (simp add: not_less)
  with False show ?thesis by (simp add: max_u64_def)
qed

lemma min_u64_eq [simp]: "min_u64 y x = min y x"
proof (cases "x < y")
  case True
  then have "min y x = x" by (intro min_absorb2 order.strict_implies_order)
  with True show ?thesis by (simp add: min_u64_def xor.assoc xor.left_commute)
next
  case False
  then have "min y x = y" by (intro min_absorb1) (simp add: not_less)
  with False show ?thesis by (simp add: min_u64_def)
qed

text \<open>The tuple that summarises the samples \<open>ss\<close>.\<close>

definition tuple_of :: "u64 \<Rightarrow> u64 \<Rightarrow> Sample list \<Rightarrow> Input" where
  "tuple_of sz ctx ss = \<lparr>i_input_size = sz, i_context_id = ctx, calls = of_nat (length ss),
     min_cumulative_cost = Min (insert (- 1) (s_cumul ` set ss)),
     max_cumulative_cost = Max (insert 0 (s_cumul ` set ss)),
     sum_cumulative_cost = sum_list (map s_cumul ss),
     min_self_cost = Min (insert (- 1) (s_self ` set ss)),
     max_self_cost = Max (insert 0 (s_self ` set ss)),
     sum_self_cost = sum_list (map s_self ss),
     sum_cumul_real_cost = sum_list (map s_cumul (filter s_real ss)),
     sqr_cumulative_cost = sum_list (map (\<lambda>s. s_cumul s * s_cumul s) ss),
     sqr_self_cost = sum_list (map (\<lambda>s. s_self s * s_self s) ss),
     sum_cumul_syscall = sum_list (map s_cumul_syscall ss),
     sum_cumul_thread = sum_list (map s_cumul_thread ss),
     sum_self_syscall = sum_list (map s_self_syscall ss),
     sum_self_thread = sum_list (map s_self_thread ss)\<rparr>"

lemma Min_insert_snd:
  fixes x :: "'a :: linorder"
  assumes "finite A"
  shows "Min (insert a (insert x A)) = min (Min (insert a A)) x"
proof -
  have "insert a (insert x A) = insert x (insert a A)" by auto
  then show ?thesis using assms by (simp add: min.commute)
qed

lemma Max_insert_snd:
  fixes x :: "'a :: linorder"
  assumes "finite A"
  shows "Max (insert a (insert x A)) = max (Max (insert a A)) x"
proof -
  have "insert a (insert x A) = insert x (insert a A)" by auto
  then show ?thesis using assms by (simp add: max.commute)
qed

lemma new_tuple_tuple_of: "new_tuple sz ctx = tuple_of sz ctx []"
  by (simp add: new_tuple_def tuple_of_def)

lemma tuple_add_tuple_of: "tuple_add s (tuple_of sz ctx ss) = tuple_of sz ctx (s # ss)"
  by (simp add: tuple_add_def tuple_of_def Min_insert_snd Max_insert_snd add.commute del: Min_insert Max_insert)

section \<open>The table of a routine\<close>

lemma mset_modify_first:
  "mset (modify_first P f xs) = (case find P xs of None \<Rightarrow> mset xs | Some x \<Rightarrow> add_mset (f x) (mset xs - {#x#}))"
proof (induction xs)
  case (Cons y ys)
  then show ?case
  proof (cases "P y")
    case False
    show ?thesis
    proof (cases "find P ys")
      case (Some x)
      then have "P x" "x \<in># mset ys" by (auto simp: find_Some_iff)
      with False have "y \<noteq> x" by auto
      with Cons False Some show ?thesis by simp
    qed (use Cons False in simp)
  qed simp
qed simp

lemma ht_nodes_HT_modify:
  assumes inv: "ht_inv t" and n: "n \<in># ht_nodes t" "key n = k" "P (val n)"
    and u: "\<And>n'. n' \<in># ht_nodes t \<Longrightarrow> key n' = k \<Longrightarrow> P (val n') \<Longrightarrow> n' = n"
  shows "ht_nodes (HT_modify t k P f) = add_mset (n\<lparr>val := f (val n)\<rparr>) (ht_nodes t - {#n#})"
proof -
  let ?c = "CHAIN_NO k (n_chains t)"
  let ?Q = "\<lambda>n. key n = k \<and> P (val n)"
  have c: "?c < length (chains t)" by (rule ht_inv_chain_less [OF inv])
  have sub: "x \<in> set (chains t ! ?c) \<Longrightarrow> x \<in># ht_nodes t" for x
    using c nth_mem by (fastforce simp: ht_nodes_def)
  have "n \<in># mset (ht_get t k)" using n by (simp add: ht_get_mset [OF inv])
  then have nc: "n \<in> set (chains t ! ?c)" by (simp add: ht_get_def)
  have fnd: "find ?Q (chains t ! ?c) = Some n"
  proof (cases "find ?Q (chains t ! ?c)")
    case None
    with nc n show ?thesis by (simp add: find_None_iff)
  next
    case (Some x)
    then have "x \<in> set (chains t ! ?c)" "?Q x" by (auto simp: find_Some_iff)
    with u sub have "x = n" by blast
    with Some show ?thesis by simp
  qed
  have "ht_nodes (HT_modify t k P f) + mset (chains t ! ?c) =
      ht_nodes t + mset (modify_first ?Q (\<lambda>n. n\<lparr>val := f (val n)\<rparr>) (chains t ! ?c))"
    using mset_concat_list_update [OF c] by (simp add: ht_nodes_def HT_modify_def Let_def)
  also have "\<dots> = ht_nodes t + add_mset (n\<lparr>val := f (val n)\<rparr>) (mset (chains t ! ?c) - {#n#})"
    by (simp add: mset_modify_first fnd)
  also have "\<dots> = add_mset (n\<lparr>val := f (val n)\<rparr>) (ht_nodes t - {#n#}) + mset (chains t ! ?c)"
    using nc n(1) by (simp add: add_mset_remove_trivial_If multiset_eq_iff)
  finally show ?thesis by simp
qed

text \<open>What was observed of a routine: the samples of every input size, per context where contexts
  are collected.  Its table holds exactly one tuple for every pair that was observed.\<close>

type_synonym observed = "u32 option \<times> u32 \<Rightarrow> Sample list"

definition observed_pairs :: "observed \<Rightarrow> (u32 option \<times> u32) set" where
  "observed_pairs obs = {x. obs x \<noteq> []}"

definition tuple_node :: "observed \<Rightarrow> u32 option \<times> u32 \<Rightarrow> Input HashNode" where
  "tuple_node obs x = \<lparr>key = tuple_key (fst x) (snd x),
     val = tuple_of (ucast (snd x)) (case fst x of Some c \<Rightarrow> ucast c | None \<Rightarrow> 0) (obs x)\<rparr>"

definition map_rel :: "bool \<Rightarrow> Input HashTable \<Rightarrow> observed \<Rightarrow> bool" where
  "map_rel cct m obs \<longleftrightarrow> ht_inv m \<and> (\<forall>x \<in> observed_pairs obs. (fst x \<noteq> None) = cct) \<and>
     ht_nodes m = image_mset (tuple_node obs) (mset_set (observed_pairs obs))"

lemma finite_observed_pairs [simp]: "finite (observed_pairs obs)"
  by simp

lemma tuple_of_fields [simp]:
  "i_input_size (tuple_of sz ctx ss) = sz" "i_context_id (tuple_of sz ctx ss) = ctx" "calls (tuple_of sz ctx ss) = of_nat (length ss)"
  by (simp_all add: tuple_of_def)

lemma ucast_u32_u64_inj [simp]: "(ucast (a :: u32) :: u64) = ucast b \<longleftrightarrow> a = b"
  using unat_ucast_32_64 [of a] unat_ucast_32_64 [of b] by (metis word_unat_eq_iff)

text \<open>Within one mode a tuple found by key and content is the tuple of that pair.\<close>

lemma tuple_node_key: "key (tuple_node obs x) = tuple_key (fst x) (snd x)"
  by (simp add: tuple_node_def)

lemma tuple_node_matches:
  assumes "(fst x \<noteq> None) = (ctx \<noteq> None)"
  shows "key (tuple_node obs x) = tuple_key ctx sz \<and> tuple_matches ctx sz (val (tuple_node obs x)) \<longleftrightarrow> x = (ctx, sz)"
  using assms by (cases x) (auto simp: tuple_node_def tuple_key_def tuple_matches_def split: option.splits)

lemma find_dropWhile_in:
  "(\<And>x. x \<in> set xs \<Longrightarrow> P x \<Longrightarrow> Q x) \<Longrightarrow> find P (dropWhile (\<lambda>x. \<not> Q x) xs) = find P xs"
  by (induction xs) auto

lemma find_tuple_None:
  assumes rel: "map_rel cct m obs" and ctx: "(ctx \<noteq> None) = cct"
  shows "find_tuple m ctx sz = None \<longleftrightarrow> obs (ctx, sz) = []"
proof -
  from rel have inv: "ht_inv m" and mode: "\<And>x. x \<in> observed_pairs obs \<Longrightarrow> (fst x \<noteq> None) = cct"
    and nodes: "ht_nodes m = image_mset (tuple_node obs) (mset_set (observed_pairs obs))"
    by (simp_all add: map_rel_def)
  let ?k = "tuple_key ctx sz"
  have "(\<exists>n \<in># ht_nodes m. key n = ?k \<and> tuple_matches ctx sz (val n)) \<longleftrightarrow> (ctx, sz) \<in> observed_pairs obs"
    using mode ctx tuple_node_matches by (auto simp: nodes)
  then have ex: "(\<exists>n \<in> set (ht_get m ?k). tuple_matches ctx sz (val n)) \<longleftrightarrow> obs (ctx, sz) \<noteq> []"
    unfolding set_mset_mset [symmetric] ht_get_mset [OF inv] by (auto simp: observed_pairs_def)
  show ?thesis
  proof (cases ctx)
    case None
    then have "tuple_matches ctx sz t" for t by (simp add: tuple_matches_def)
    with ex None show ?thesis by (cases "ht_get m ?k") (auto simp: find_tuple_def HT_lookup_ht_get)
  next
    case (Some c)
    let ?ch = "chains m ! CHAIN_NO ?k (n_chains m)"
    have k: "key n = ?k" if "n \<in> set ?ch" "tuple_matches ctx sz (val n)" for n
    proof -
      have "n \<in># ht_nodes m" using that(1) ht_inv_chain_less [OF inv, of ?k] nth_mem by (fastforce simp: ht_nodes_def)
      then obtain x where x: "x \<in> observed_pairs obs" "n = tuple_node obs x" by (auto simp: nodes)
      with mode [OF x(1)] ctx Some that(2) have "x = (ctx, sz)"
        by (cases x) (auto simp: tuple_node_def tuple_matches_def)
      with x show ?thesis by (simp add: tuple_node_key)
    qed
    have "find_tuple m ctx sz = find (\<lambda>n. tuple_matches ctx sz (val n)) ?ch"
      unfolding find_tuple_def HT_chain_from_def Some option.case
      by (rule find_dropWhile_in) (use k Some in blast)
    also have "\<dots> = None \<longleftrightarrow> \<not> (\<exists>n \<in> set (ht_get m ?k). tuple_matches ctx sz (val n))"
      using k by (auto simp: find_None_iff ht_get_def)
    finally show ?thesis using ex by blast
  qed
qed

lemma mset_set_update:
  assumes "finite A" "x \<in> A"
  shows "image_mset f (mset_set A) = add_mset (f x) (image_mset f (mset_set (A - {x})))"
  using assms by (simp add: mset_set.remove)

lemma tuple_node_other: "y \<noteq> x \<Longrightarrow> tuple_node (obs(x := ss)) y = tuple_node obs y"
  by (simp add: tuple_node_def)

lemma image_tuple_node_other:
  "image_mset (tuple_node (obs(x := ss))) (mset_set (A - {x})) = image_mset (tuple_node obs) (mset_set (A - {x}))"
  by (rule image_mset_cong) (auto simp: tuple_node_other dest: elem_mset_set [THEN iffD1, rotated])

text \<open>Adding a sample to the tuple that is there.\<close>

lemma modify_tuple_ok:
  assumes rel: "map_rel cct m obs" and ctx: "(ctx \<noteq> None) = cct" and seen: "obs (ctx, sz) \<noteq> []"
  shows "map_rel cct (HT_modify m (tuple_key ctx sz) (tuple_matches ctx sz) (tuple_add s))
    (obs((ctx, sz) := s # obs (ctx, sz)))"
proof -
  let ?x = "(ctx, sz)" and ?m = "HT_modify m (tuple_key ctx sz) (tuple_matches ctx sz) (tuple_add s)"
  let ?obs = "obs(?x := s # obs ?x)"
  from rel have inv: "ht_inv m" and mode: "\<And>x. x \<in> observed_pairs obs \<Longrightarrow> (fst x \<noteq> None) = cct"
    and nodes: "ht_nodes m = image_mset (tuple_node obs) (mset_set (observed_pairs obs))"
    by (simp_all add: map_rel_def)
  have P: "observed_pairs ?obs = observed_pairs obs" using seen by (auto simp: observed_pairs_def)
  have x: "?x \<in> observed_pairs obs" using seen by (simp add: observed_pairs_def)
  let ?n = "tuple_node obs ?x"
  have mem: "?n \<in># ht_nodes m" using x by (auto simp: nodes)
  have match: "key ?n = tuple_key ctx sz" "tuple_matches ctx sz (val ?n)"
    using tuple_node_matches [of ?x ctx obs sz] by simp_all
  have u: "n' = ?n" if "n' \<in># ht_nodes m" "key n' = tuple_key ctx sz" "tuple_matches ctx sz (val n')" for n'
  proof -
    from that(1) obtain y where y: "y \<in> observed_pairs obs" "n' = tuple_node obs y" by (auto simp: nodes)
    with mode [OF y(1)] ctx that tuple_node_matches [of y ctx obs sz] have "y = ?x" by simp
    with y show ?thesis by simp
  qed
  have "ht_nodes ?m = add_mset (?n\<lparr>val := tuple_add s (val ?n)\<rparr>) (ht_nodes m - {#?n#})"
    using ht_nodes_HT_modify [where P = "tuple_matches ctx sz", OF inv mem match u] .
  also have "?n\<lparr>val := tuple_add s (val ?n)\<rparr> = tuple_node ?obs ?x"
    by (simp add: tuple_node_def tuple_add_tuple_of)
  also have "ht_nodes m - {#?n#} = image_mset (tuple_node ?obs) (mset_set (observed_pairs obs - {?x}))"
    unfolding nodes mset_set_update [OF finite_observed_pairs x] image_tuple_node_other
    by (rule add_mset_remove_trivial)
  finally have "ht_nodes ?m = image_mset (tuple_node ?obs) (mset_set (observed_pairs ?obs))"
    unfolding P mset_set_update [OF finite_observed_pairs x] .
  with mode P ht_inv_HT_modify [OF inv] show ?thesis by (simp add: map_rel_def del: fun_upd_apply)
qed

lemma exit_map_ok:
  assumes rel: "map_rel cct m obs" and ctx: "(ctx \<noteq> None) = cct"
  shows "\<exists>m'. exit_map m ctx sz s = Inr m' \<and> map_rel cct m' (obs((ctx, sz) := s # obs (ctx, sz)))"
proof (cases "obs (ctx, sz) = []")
  case False
  with find_tuple_None [OF rel ctx, of sz] have "find_tuple m ctx sz \<noteq> None" by simp
  then have "exit_map m ctx sz s = Inr (HT_modify m (tuple_key ctx sz) (tuple_matches ctx sz) (tuple_add s))"
    unfolding exit_map_def Let_def by auto
  with modify_tuple_ok [OF rel ctx False] show ?thesis by blast
next
  case True
  let ?x = "(ctx, sz)" and ?k = "tuple_key ctx sz"
  let ?n = "\<lparr>key = ?k, val = new_tuple (ucast sz) (case ctx of Some c \<Rightarrow> ucast c | None \<Rightarrow> 0)\<rparr>"
  from rel have inv: "ht_inv m" by (simp add: map_rel_def)
  from HT_add_node_ok [OF inv, of ?n] obtain m1 where
    m1: "HT_add_node m ?k ?n = Inr m1" "ht_inv m1" "ht_nodes m1 = add_mset ?n (ht_nodes m)" by auto
  have e: "exit_map m ctx sz s = Inr (HT_modify m1 ?k (tuple_matches ctx sz) (tuple_add s))"
    using True find_tuple_None [OF rel ctx, of sz] by (simp add: exit_map_def Let_def m1(1))
  let ?m = "HT_modify m1 ?k (tuple_matches ctx sz) (tuple_add s)"
  let ?obs = "obs(?x := [s])"
  have mode: "\<And>y. y \<in> observed_pairs obs \<Longrightarrow> (fst y \<noteq> None) = cct"
    and nodes: "ht_nodes m = image_mset (tuple_node obs) (mset_set (observed_pairs obs))"
    using rel by (simp_all add: map_rel_def)
  have P: "observed_pairs ?obs - {?x} = observed_pairs obs" "?x \<in> observed_pairs ?obs" "?x \<notin> observed_pairs obs"
    using True by (auto simp: observed_pairs_def)
  have match: "tuple_matches ctx sz (val ?n)"
    by (simp add: new_tuple_tuple_of tuple_matches_def split: option.split)
  have u: "n' = ?n" if n': "n' \<in># ht_nodes m1" "key n' = ?k" "tuple_matches ctx sz (val n')" for n'
  proof (rule ccontr)
    assume "n' \<noteq> ?n"
    with n'(1) obtain y where y: "y \<in> observed_pairs obs" "n' = tuple_node obs y" by (auto simp: m1(3) nodes)
    with mode [OF y(1)] ctx n' tuple_node_matches [of y ctx obs sz] have "y = ?x" by simp
    with y P(3) show False by simp
  qed
  have mem: "?n \<in># ht_nodes m1" and nk: "key ?n = ?k" by (simp_all add: m1(3))
  have "ht_nodes ?m = add_mset (?n\<lparr>val := tuple_add s (val ?n)\<rparr>) (ht_nodes m1 - {#?n#})"
    using ht_nodes_HT_modify [where P = "tuple_matches ctx sz", OF m1(2) mem nk match u] .
  also have "?n\<lparr>val := tuple_add s (val ?n)\<rparr> = tuple_node ?obs ?x"
    by (simp add: tuple_node_def new_tuple_tuple_of tuple_add_tuple_of)
  also have "ht_nodes m1 - {#?n#} = image_mset (tuple_node ?obs) (mset_set (observed_pairs ?obs - {?x}))"
    using image_tuple_node_other [of obs ?x "[s]" "observed_pairs ?obs"] unfolding P(1) m1(3) nodes by simp
  finally have "ht_nodes ?m = image_mset (tuple_node ?obs) (mset_set (observed_pairs ?obs))"
    unfolding mset_set_update [OF finite_observed_pairs P(2)] .
  moreover have "(fst y \<noteq> None) = cct" if "y \<in> observed_pairs ?obs" for y
    using that ctx mode by (cases "y = ?x") (auto simp: observed_pairs_def)
  ultimately have "map_rel cct ?m ?obs"
    using ht_inv_HT_modify [OF m1(2)] by (simp add: map_rel_def del: fun_upd_apply)
  with e True show ?thesis by simp
qed

lemma map_rel_construct: "map_rel cct (HT_construct b) (\<lambda>_. [])"
  by (simp add: map_rel_def HT_construct_ok observed_pairs_def)

text \<open>Looking an input size up finds the summary of its samples.\<close>

lemma map_rel_lookup:
  assumes rel: "map_rel False m obs"
  shows "map_option val (HT_lookup m (ucast sz)) =
    (if obs (None, sz) = [] then None else Some (tuple_of (ucast sz) 0 (obs (None, sz))))"
proof (cases "HT_lookup m (ucast sz)")
  case None
  then show ?thesis using find_tuple_None [OF rel, of None sz] by (simp add: find_tuple_def tuple_key_def)
next
  case (Some n)
  from rel have inv: "ht_inv m" and mode: "\<And>x. x \<in> observed_pairs obs \<Longrightarrow> fst x = None"
    and nodes: "ht_nodes m = image_mset (tuple_node obs) (mset_set (observed_pairs obs))"
    by (auto simp: map_rel_def)
  from Some have "n \<in># mset (ht_get m (ucast sz))" by (cases "ht_get m (ucast sz)") (auto simp: HT_lookup_ht_get)
  then have n: "n \<in># ht_nodes m" "key n = ucast sz" by (auto simp: ht_get_mset [OF inv])
  then obtain x where x: "x \<in> observed_pairs obs" "n = tuple_node obs x" by (auto simp: nodes)
  have "x = (None, sz)"
  proof (cases x)
    case (Pair a b)
    with mode [OF x(1)] have "a = None" by simp
    with Pair n(2) x(2) show ?thesis by (simp add: tuple_node_def tuple_key_def)
  qed
  with x Some show ?thesis by (auto simp: tuple_node_def observed_pairs_def)
qed

section \<open>What an exit changes\<close>

text \<open>The thread after the exit of activation \<open>d\<close>: everything but the parent, the routine and the
  clock (which doping advances) is as before.\<close>

definition exit_cost :: "Runtime \<Rightarrow> Function \<Rightarrow> Activation \<Rightarrow> ThreadData \<Rightarrow> u64" where
  "exit_cost rt fn act td = (if dope_fn (cfg rt) = Some (fn_name fn)
     then t_cost td + ucast (a_input_size act) * ucast (a_input_size act) else t_cost td)"

definition add_to_parent :: "Activation \<Rightarrow> u64 \<Rightarrow> Activation \<Rightarrow> Activation" where
  "add_to_parent act cumul_cost parent = parent\<lparr>a_input_size := a_input_size parent + a_input_size act,
     sum_children_cost := sum_children_cost parent + cumul_cost,
     cumul_syscall := cumul_syscall parent + cumul_syscall act,
     cumul_thread := cumul_thread parent + cumul_thread act\<rparr>"

definition exited :: "nat \<Rightarrow> u64 \<Rightarrow> u64 \<Rightarrow> ThreadData \<Rightarrow> ThreadData \<Rightarrow> bool" where
  "exited d cost cumul td td' \<longleftrightarrow>
     td' = td\<lparr>t_cost := cost, rtn_ht := rtn_ht td', stack := stack td'\<rparr> \<and> routines_inv td' \<and>
     stack td' = (if d = 0 then stack td
                  else (stack td)(d - 1 := add_to_parent (stack td d) cumul (stack td (d - 1))))"

lemma exit_parent_ok:
  assumes td: "threads rt t = Some td" and ok: "stack_ok td" and depth: "unat (stack_depth td) = Suc d"
  shows "exit_parent rt t act cumul = Inr (if d = 0 then rt else
    put_td rt t (td\<lparr>stack := (stack td)(d - 1 := add_to_parent act cumul (stack td (d - 1)))\<rparr>))"
proof (cases d)
  case 0
  then have "\<not> 1 < stack_depth td" using depth by (simp add: word_less_nat_alt)
  with 0 td show ?thesis by (simp add: exit_parent_def get_td_def)
next
  case (Suc n)
  then have one: "1 < stack_depth td" using depth by (simp add: word_less_nat_alt)
  have "unat (stack_depth td - 1) = Suc n"
    using one depth Suc by (simp add: unat_sub word_le_nat_alt)
  then have p: "get_activation_noresize (stack_depth td - 1) = int n"
    unfolding get_activation_noresize_def using uint_of_depth [of "stack_depth td - 1"] by simp
  have a: "get_act td (int n) = Inr (stack td n)"
    by (rule get_act_in_stack [OF ok]) (use depth Suc in simp)
  from Suc one td a show ?thesis
    by (simp add: exit_parent_def get_td_def p upd_act_def add_to_parent_def set_act_def)
qed

text \<open>The sample an exit adds, and the context it is filed under.\<close>

definition exit_sample :: "Activation \<Rightarrow> RoutineInfo \<Rightarrow> u64 \<Rightarrow> u64 \<Rightarrow> Sample" where
  "exit_sample act ri cumul_cost self_cost =
     \<lparr>s_cumul = cumul_cost, s_self = self_cost, s_real = (recursion_pending ri < 1),
      s_cumul_syscall = cumul_syscall act, s_cumul_thread = cumul_thread act,
      s_self_syscall = self_syscall act, s_self_thread = self_thread act\<rparr>"

definition act_ctx :: "Runtime \<Rightarrow> Activation \<Rightarrow> u32 option" where
  "act_ctx rt act = (if collect_CCT (cfg rt) then map_option (\<lambda>n. n_context_id (ccts rt ! n)) (node act) else None)"

definition has_ctx :: "Runtime \<Rightarrow> Activation \<Rightarrow> bool" where
  "has_ctx rt act \<longleftrightarrow> collect_CCT (cfg rt) \<longrightarrow> (\<exists>n. node act = Some n \<and> n < length (ccts rt))"

definition same_routine :: "RoutineInfo \<Rightarrow> RoutineInfo \<Rightarrow> bool" where
  "same_routine ri ri' \<longleftrightarrow> routine_id ri' = routine_id ri \<and> ri_fn ri' = ri_fn ri \<and>
     recursion_pending ri' = recursion_pending ri"

lemma act_ctx_mode: "has_ctx rt act \<Longrightarrow> (act_ctx rt act \<noteq> None) = collect_CCT (cfg rt)"
  by (auto simp: has_ctx_def act_ctx_def)

lemma exit_tuple_unfold:
  assumes "has_ctx rt act"
  shows "exit_tuple rt t act ri cumul self =
    bindR (routine_map rt ri) (\<lambda>m. bindR (exit_map m (act_ctx rt act) (a_input_size act) (exit_sample act ri cumul self))
      (put_routine_map rt t (routine_info act) ri))"
  using assms by (auto simp: exit_tuple_def has_ctx_def act_ctx_def exit_sample_def cct_get_def)

lemma exit_tuple_ok:
  assumes td: "threads rt t = Some td" "routines_inv td" "get_ri td (routine_info act) = Inr ri"
    and m: "routine_map rt ri = Inr m" "map_rel (collect_CCT (cfg rt)) m obs" and ctx: "has_ctx rt act"
  shows "\<exists>rt' td' ri' m'. exit_tuple rt t act ri cumul self = Inr rt' \<and>
    rt' = rt\<lparr>threads := (threads rt)(t := Some td'), fns := fns rt'\<rparr> \<and>
    (\<forall>f. f \<noteq> ri_fn ri \<longrightarrow> fns rt' f = fns rt f) \<and>
    td' = td\<lparr>rtn_ht := rtn_ht td'\<rparr> \<and> routines_inv td' \<and>
    (\<forall>k. get_ri td' k = (if k = routine_info act then Inr ri' else get_ri td k)) \<and> same_routine ri ri' \<and>
    routine_map rt' ri' = Inr m' \<and>
    (\<forall>m0. input_map ri = OwnMap m0 \<longrightarrow> fns rt' = fns rt \<and> input_map ri' = OwnMap m') \<and>
    map_rel (collect_CCT (cfg rt)) m' (obs((act_ctx rt act, a_input_size act) :=
      exit_sample act ri cumul self # obs (act_ctx rt act, a_input_size act)))"
proof -
  let ?k = "routine_info act"
  from exit_map_ok [OF m(2) act_ctx_mode [OF ctx]] obtain m' where
    m': "exit_map m (act_ctx rt act) (a_input_size act) (exit_sample act ri cumul self) = Inr m'"
    "map_rel (collect_CCT (cfg rt)) m' (obs((act_ctx rt act, a_input_size act) :=
      exit_sample act ri cumul self # obs (act_ctx rt act, a_input_size act)))" by blast
  have e: "exit_tuple rt t act ri cumul self = put_routine_map rt t ?k ri m'"
    by (simp add: exit_tuple_unfold [OF ctx] m(1) m'(1))
  show ?thesis
  proof (cases "input_map ri")
    case NoMap
    with m(1) show ?thesis by (simp add: routine_map_def)
  next
    case (OwnMap m0)
    let ?td = "upd_ri td ?k (\<lambda>r. r\<lparr>input_map := OwnMap m'\<rparr>)"
    let ?rt = "rt\<lparr>threads := (threads rt)(t := Some ?td)\<rparr>"
    have "exit_tuple rt t act ri cumul self = Inr ?rt"
      using OwnMap td(1) by (simp add: e put_routine_map_def get_td_def put_td_def)
    moreover have "?td = td\<lparr>rtn_ht := rtn_ht ?td\<rparr>" by (simp add: upd_ri_def)
    moreover have "\<forall>k. get_ri ?td k = (if k = ?k then Inr (ri\<lparr>input_map := OwnMap m'\<rparr>) else get_ri td k)"
      using get_ri_upd_ri [OF td(2,3)] by simp
    moreover have "routine_map ?rt (ri\<lparr>input_map := OwnMap m'\<rparr>) = Inr m'" "same_routine ri (ri\<lparr>input_map := OwnMap m'\<rparr>)"
      by (simp_all add: routine_map_def same_routine_def)
    moreover have "routines_inv ?td" by (rule routines_inv_upd_ri [OF td(2)])
    ultimately show ?thesis using m'(2) OwnMap
      by (intro exI [of _ ?rt] exI [of _ ?td] exI [of _ "ri\<lparr>input_map := OwnMap m'\<rparr>"] exI [of _ m']) simp
  next
    case FnMap
    with m(1) obtain fn where fn: "fns rt (ri_fn ri) = Some fn" "fn_input_map fn = Some m"
      by (auto simp: routine_map_def get_fn_def bindR_eq_Inr)
    let ?rt = "rt\<lparr>fns := (fns rt)(ri_fn ri := Some (fn\<lparr>fn_input_map := Some m'\<rparr>))\<rparr>"
    have "exit_tuple rt t act ri cumul self = Inr ?rt"
      using FnMap fn by (simp add: e put_routine_map_def get_fn_def)
    moreover have "?rt = rt\<lparr>threads := (threads rt)(t := Some td), fns := fns ?rt\<rparr>" using td(1) by (simp add: fun_upd_idem)
    moreover have "routine_map ?rt ri = Inr m'" using FnMap by (simp add: routine_map_def get_fn_def)
    ultimately show ?thesis using m'(2) td FnMap
      by (intro exI [of _ ?rt] exI [of _ td] exI [of _ ri] exI [of _ m']) (simp add: same_routine_def)
  qed
qed

definition exit_ri :: "RoutineInfo \<Rightarrow> RoutineInfo" where
  "exit_ri ri = ri\<lparr>recursion_pending := recursion_pending ri - 1\<rparr>"

definition exit_cumul :: "Runtime \<Rightarrow> Function \<Rightarrow> Activation \<Rightarrow> ThreadData \<Rightarrow> u64" where
  "exit_cumul rt fn act td = exit_cost rt fn act td - skip_cost td - start act"

text \<open>\<open>function_exit\<close> before the tuple: the thread it starts from.\<close>

definition exit_begin :: "nat \<Rightarrow> u64 \<Rightarrow> RoutineInfo \<Rightarrow> ThreadData \<Rightarrow> ThreadData" where
  "exit_begin d cost ri td = upd_ri (td\<lparr>t_cost := cost\<rparr>) (routine_info (stack td d)) (\<lambda>_. ri)"

lemma function_exit_unfold:
  assumes td: "threads rt t = Some td" and ok: "stack_ok td" and depth: "unat (stack_depth td) = Suc d"
    and ri: "get_ri td (routine_info (stack td d)) = Inr ri" and fn: "fns rt (ri_fn ri) = Some fn" and skip: "t_skip td = 0"
  defines "act \<equiv> stack td d"
  defines "cumul \<equiv> exit_cumul rt fn act td"
  defines "rt1 \<equiv> put_td rt t (exit_begin d (exit_cost rt fn act td) (exit_ri ri) td)"
  shows "function_exit rt t (int d) =
    bindR (if \<not> discard fn then exit_tuple rt1 t act (exit_ri ri) cumul (cumul - sum_children_cost act) else Inr rt1)
      (\<lambda>rt2. exit_parent rt2 t act cumul)"
proof -
  have act: "get_act td (int d) = Inr (stack td d)" by (rule get_act_in_stack [OF ok]) (simp add: depth)
  show ?thesis
  proof (cases "dope_fn (cfg rt) = Some (fn_name fn)")
    case True
    with td fn skip show ?thesis
      by (simp add: function_exit_def get_td_def get_fn_def act ri Let_def rt1_def exit_begin_def cumul_def
        exit_cumul_def exit_cost_def aprof_time_def act_def exit_ri_def)
  next
    case False
    with td fn skip show ?thesis
      by (simp add: function_exit_def get_td_def get_fn_def act ri Let_def rt1_def exit_begin_def cumul_def
        exit_cumul_def exit_cost_def aprof_time_def act_def exit_ri_def)
  qed
qed

lemma exit_begin_ok:
  assumes "routines_inv td" "get_ri td (routine_info (stack td d)) = Inr ri"
  shows "exit_begin d cost ri' td = td\<lparr>t_cost := cost, rtn_ht := rtn_ht (exit_begin d cost ri' td)\<rparr>"
    "routines_inv (exit_begin d cost ri' td)"
    "get_ri (exit_begin d cost ri' td) k = (if k = routine_info (stack td d) then Inr ri' else get_ri td k)"
proof -
  have r: "routines_inv (td\<lparr>t_cost := cost\<rparr>)" "get_ri (td\<lparr>t_cost := cost\<rparr>) = get_ri td"
    using assms(1) by (simp_all add: routines_inv_def get_ri_def fun_eq_iff)
  show "exit_begin d cost ri' td = td\<lparr>t_cost := cost, rtn_ht := rtn_ht (exit_begin d cost ri' td)\<rparr>"
    by (simp add: exit_begin_def upd_ri_def)
  show "routines_inv (exit_begin d cost ri' td)" using r(1) by (simp add: exit_begin_def inv_intros)
  show "get_ri (exit_begin d cost ri' td) k = (if k = routine_info (stack td d) then Inr ri' else get_ri td k)"
    using get_ri_upd_ri [OF r(1)] assms(2) by (simp add: exit_begin_def r(2))
qed

lemma exitedI:
  assumes "td' = td\<lparr>t_cost := cost, rtn_ht := rtn_ht td'\<rparr>" "routines_inv td'"
  shows "exited d cost cumul td (if d = 0 then td' else td'\<lparr>stack := (stack td')(d - 1 := add_to_parent (stack td d) cumul (stack td' (d - 1)))\<rparr>)"
proof -
  have "stack td' = stack td" using arg_cong [OF assms(1), of stack] by simp
  with assms show ?thesis by (auto simp: exited_def routines_inv_def)
qed

lemma routines_inv_stack [simp]: "routines_inv (td\<lparr>stack := st\<rparr>) = routines_inv td" "get_ri (td\<lparr>stack := st\<rparr>) = get_ri td"
  by (simp_all add: routines_inv_def get_ri_def fun_eq_iff)

lemma function_exit_discard_ok:
  assumes td: "threads rt t = Some td" and ok: "stack_ok td" and depth: "unat (stack_depth td) = Suc d"
    and inv: "routines_inv td" and ri: "get_ri td (routine_info (stack td d)) = Inr ri"
    and fn: "fns rt (ri_fn ri) = Some fn" and skip: "t_skip td = 0" and disc: "discard fn"
  shows "\<exists>td'. function_exit rt t (int d) = Inr (put_td rt t td') \<and>
    exited d (exit_cost rt fn (stack td d) td) (exit_cumul rt fn (stack td d) td) td td' \<and>
    (\<forall>k. get_ri td' k = (if k = routine_info (stack td d) then Inr (exit_ri ri) else get_ri td k))"
proof -
  let ?act = "stack td d"
  let ?td1 = "exit_begin d (exit_cost rt fn ?act td) (exit_ri ri) td" and ?cumul = "exit_cumul rt fn ?act td"
  note B = exit_begin_ok [OF inv ri, of "exit_cost rt fn ?act td" "exit_ri ri"]
  have st: "stack ?td1 = stack td" "stack_ok ?td1" "unat (stack_depth ?td1) = Suc d"
    using ok depth by (simp_all add: exit_begin_def stack_ok_def)
  let ?td' = "if d = 0 then ?td1 else ?td1\<lparr>stack := (stack ?td1)(d - 1 := add_to_parent ?act ?cumul (stack ?td1 (d - 1)))\<rparr>"
  have "exit_parent (put_td rt t ?td1) t ?act ?cumul = Inr (put_td rt t ?td')"
    using exit_parent_ok [OF put_td_fields(2) st(2,3), of rt t ?act ?cumul] by (cases "d = 0") simp_all
  then have "function_exit rt t (int d) = Inr (put_td rt t ?td')"
    unfolding function_exit_unfold [OF td ok depth ri fn skip] using disc by simp
  moreover have "exited d (exit_cost rt fn ?act td) ?cumul td ?td'"
    by (rule exitedI [OF B(1,2)])
  moreover have "get_ri ?td' k = (if k = routine_info ?act then Inr (exit_ri ri) else get_ri td k)" for k
    using B(3) by (cases "d = 0") simp_all
  ultimately show ?thesis by blast
qed

lemma function_exit_ok:
  assumes td: "threads rt t = Some td" and ok: "stack_ok td" and depth: "unat (stack_depth td) = Suc d"
    and inv: "routines_inv td" and ri: "get_ri td (routine_info (stack td d)) = Inr ri"
    and fn: "fns rt (ri_fn ri) = Some fn" and skip: "t_skip td = 0" and disc: "\<not> discard fn"
    and m: "routine_map rt ri = Inr m" "map_rel (collect_CCT (cfg rt)) m obs" and ctx: "has_ctx rt (stack td d)"
  defines "act \<equiv> stack td d"
  defines "cumul \<equiv> exit_cumul rt fn act td"
  shows "\<exists>rt' td' ri' m'. function_exit rt t (int d) = Inr rt' \<and>
    rt' = rt\<lparr>threads := (threads rt)(t := Some td'), fns := fns rt'\<rparr> \<and>
    (\<forall>f. f \<noteq> ri_fn ri \<longrightarrow> fns rt' f = fns rt f) \<and>
    exited d (exit_cost rt fn act td) cumul td td' \<and>
    (\<forall>k. get_ri td' k = (if k = routine_info act then Inr ri' else get_ri td k)) \<and> same_routine (exit_ri ri) ri' \<and>
    routine_map rt' ri' = Inr m' \<and>
    (\<forall>m0. input_map ri = OwnMap m0 \<longrightarrow> fns rt' = fns rt \<and> input_map ri' = OwnMap m') \<and>
    map_rel (collect_CCT (cfg rt)) m' (obs((act_ctx rt act, a_input_size act) :=
      exit_sample act (exit_ri ri) cumul (cumul - sum_children_cost act) # obs (act_ctx rt act, a_input_size act)))"
proof -
  let ?td1 = "exit_begin d (exit_cost rt fn act td) (exit_ri ri) td"
  let ?rt1 = "put_td rt t ?td1"
  note B = exit_begin_ok [OF inv ri, of "exit_cost rt fn act td" "exit_ri ri"]
  have st: "stack ?td1 = stack td" "stack_ok ?td1" "unat (stack_depth ?td1) = Suc d"
    using ok depth by (simp_all add: exit_begin_def stack_ok_def)
  have m1: "routine_map ?rt1 (exit_ri ri) = Inr m"
    using m(1) by (simp add: routine_map_def exit_ri_def get_fn_def split: input_ref.splits)
  have ctx1: "has_ctx ?rt1 act" "act_ctx ?rt1 act = act_ctx rt act"
    using ctx by (simp_all add: has_ctx_def act_ctx_def act_def)
  have ri1: "get_ri ?td1 (routine_info act) = Inr (exit_ri ri)" using B(3) by (simp add: act_def)
  have m2: "map_rel (collect_CCT (cfg ?rt1)) m obs" using m(2) by simp
  from exit_tuple_ok [OF put_td_fields(2) B(2) ri1 m1 m2 ctx1(1), of cumul "cumul - sum_children_cost act"]
  obtain rt2 td2 ri2 m' where e:
    "exit_tuple ?rt1 t act (exit_ri ri) cumul (cumul - sum_children_cost act) = Inr rt2"
    "rt2 = ?rt1\<lparr>threads := (threads ?rt1)(t := Some td2), fns := fns rt2\<rparr>"
    "\<forall>f. f \<noteq> ri_fn (exit_ri ri) \<longrightarrow> fns rt2 f = fns ?rt1 f"
    "td2 = ?td1\<lparr>rtn_ht := rtn_ht td2\<rparr>" "routines_inv td2"
    "\<forall>k. get_ri td2 k = (if k = routine_info act then Inr ri2 else get_ri ?td1 k)" "same_routine (exit_ri ri) ri2"
    "routine_map rt2 ri2 = Inr m'"
    "\<forall>m0. input_map (exit_ri ri) = OwnMap m0 \<longrightarrow> fns rt2 = fns ?rt1 \<and> input_map ri2 = OwnMap m'"
    "map_rel (collect_CCT (cfg rt)) m' (obs((act_ctx rt act, a_input_size act) :=
      exit_sample act (exit_ri ri) cumul (cumul - sum_children_cost act) # obs (act_ctx rt act, a_input_size act)))"
    unfolding ctx1(2) put_td_fields by blast
  have t2: "threads rt2 t = Some td2" using arg_cong [OF e(2), of threads] by simp
  have st2: "stack td2 = stack td" "stack_depth td2 = stack_depth td" "max_stack_size td2 = max_stack_size td"
    using arg_cong [OF e(4), of stack] arg_cong [OF e(4), of stack_depth] arg_cong [OF e(4), of max_stack_size] st
    by (simp_all add: exit_begin_def)
  have ok2: "stack_ok td2" "unat (stack_depth td2) = Suc d" using ok depth by (simp_all add: stack_ok_def st2)
  let ?td' = "if d = 0 then td2 else td2\<lparr>stack := (stack td2)(d - 1 := add_to_parent (stack td d) cumul (stack td2 (d - 1)))\<rparr>"
  let ?rt' = "if d = 0 then rt2 else put_td rt2 t ?td'"
  have "function_exit rt t (int d) = bindR (Inr rt2) (\<lambda>rt2. exit_parent rt2 t act cumul)"
    unfolding function_exit_unfold [OF td ok depth ri fn skip] using disc e(1) by (simp add: act_def cumul_def)
  also have "\<dots> = Inr ?rt'"
    using exit_parent_ok [OF t2 ok2, of act cumul] by (cases "d = 0") (simp_all add: act_def)
  finally have ex: "function_exit rt t (int d) = Inr ?rt'" .
  have r2: "rt2 = rt\<lparr>threads := (threads rt)(t := Some td2), fns := fns rt2\<rparr>"
    by (subst e(2)) (simp add: put_td_def)
  have p: "put_td rt2 t x = rt\<lparr>threads := (threads rt)(t := Some x), fns := fns rt2\<rparr>" for x
    using arg_cong [OF r2, of "\<lambda>r. put_td r t x"] by (simp add: put_td_def)
  then have p2: "fns (put_td rt2 t x) = fns rt2" for x by simp
  have rt': "?rt' = rt\<lparr>threads := (threads rt)(t := Some ?td'), fns := fns ?rt'\<rparr>"
  proof (cases "d = 0")
    case True
    with r2 show ?thesis by simp
  next
    case False
    show ?thesis unfolding if_not_P [OF False] p2 by (rule p)
  qed
  have fns': "\<forall>f. f \<noteq> ri_fn ri \<longrightarrow> fns ?rt' f = fns rt f" using e(3) by (simp add: exit_ri_def)
  have "td2 = td\<lparr>t_cost := exit_cost rt fn act td, rtn_ht := rtn_ht td2\<rparr>"
    by (subst e(4), subst B(1)) simp
  from exitedI [OF this e(5), of d cumul] have exd: "exited d (exit_cost rt fn act td) cumul td ?td'" .
  have "get_ri ?td' = get_ri td2" by (cases "d = 0") simp_all
  then have g: "\<forall>k. get_ri ?td' k = (if k = routine_info act then Inr ri2 else get_ri td k)"
    using e(6) B(3) by (simp add: act_def)
  have own: "\<forall>m0. input_map ri = OwnMap m0 \<longrightarrow> fns ?rt' = fns rt \<and> input_map ri2 = OwnMap m'"
    using e(9) by (simp add: exit_ri_def)
  have mp: "routine_map ?rt' ri2 = Inr m'"
    using e(8) by (simp add: routine_map_def get_fn_def split: input_ref.splits)
  show ?thesis
    using ex rt' fns' exd g e(7) mp own e(10) by blast
qed

end
