(* ===== verification/Memory.thy ===== *)
theory Memory
  imports Overflow
begin

unbundle bit_operations_syntax

text \<open>
  \<open>memory.c\<close>: the handlers of loads, stores and modifies.  An access is split into the cells it
  overlaps; for each cell the shadow memory says when it was last accessed, which decides whether
  the access is new input for the current activation.
\<close>

section \<open>RMS\<close>

text \<open>One iteration of the loop of \<open>trace_access_rms\<close>.\<close>

definition rms_cell :: "access_t \<Rightarrow> u64 \<Rightarrow> ThreadData \<Rightarrow> ThreadData res" where
  "rms_cell type addr td =
     (let p = get_activation_noresize (stack_depth td) in
      bindR (get_act td p) (\<lambda>act.
      bindR (LK_insert (shadow_memory td) addr (activation_id act)) (\<lambda>(sm, old_aid).
      let td1 = td\<lparr>shadow_memory := sm\<rparr> in
      if type \<noteq> STORE \<and> old_aid < activation_id act
      then let td2 = set_act td1 p (act\<lparr>a_input_size := a_input_size act + 1\<rparr>) in
           bindR (get_act td2 (get_activation_noresize 1)) (\<lambda>a0.
           if old_aid \<ge> activation_id a0
           then bindR (get_activation_by_aid td2 old_aid) (\<lambda>q. bindR (get_act td2 q) (\<lambda>a.
                  Inr (set_act td2 q (a\<lparr>a_input_size := a_input_size a - 1\<rparr>))))
           else Inr td2)
      else Inr td1)))"

text \<open>The loop.  \<open>size_fix\<close> is positive and the resolution is at most 16 (\<open>LK_create\<close> rejects any
  other), so the subtraction does not wrap; a resolution of 0 would never leave the loop.\<close>

function rms_loop :: "u32 \<Rightarrow> access_t \<Rightarrow> u64 \<Rightarrow> int \<Rightarrow> ThreadData \<Rightarrow> ThreadData res" where
  "rms_loop resolution type addr size_fix td =
     (if size_fix > 0
      then if resolution = 0 then Inl Diverges
           else bindR (rms_cell type addr td)
                  (rms_loop resolution type (addr + ucast resolution) (size_fix - uint resolution))
      else Inr td)"
  by pat_completeness auto
termination
  by (relation "measure (\<lambda>(resolution, type, addr, size_fix, td). nat size_fix)")
    (auto simp: word_neq_0_conv uint_0_iff word_less_def)

declare rms_loop.simps [simp del]

definition trace_access_rms :: "Runtime \<Rightarrow> access_t \<Rightarrow> u64 \<Rightarrow> u64 \<Rightarrow> Runtime res" where
  "trace_access_rms rt type addr sz =
     bindR (derefR (current_tdata rt)) (\<lambda>t. bindR (get_td rt t) (\<lambda>tdata.
       if stack_depth tdata = 0 \<or> t_skip tdata > 0 then Inr rt
       else let (addr', size_fix) = fix_access_size (memory_resolution (cfg rt)) addr (sint (ucast sz :: u32))
            in bindR (rms_loop (memory_resolution (cfg rt)) type addr' size_fix tdata) (\<lambda>td.
               Inr (put_td rt t td))))"

section \<open>DRMS\<close>

text \<open>The access to the global shadow memory: the memory and the write timestamp \<open>wts\<close>.\<close>

definition drms_global_access :: "LookupTable \<Rightarrow> access_t \<Rightarrow> u64 \<Rightarrow> bool \<Rightarrow> u32 \<Rightarrow> (LookupTable \<times> u32) res" where
  "drms_global_access g type addr kernel_access ts =
     (if type = LOAD then bindR (LK_lookup g addr) (\<lambda>wts. Inr (g, wts))
      else LK_insert g addr (if kernel_access then SET_SYSCALL ts else ts))"

text \<open>What a read does to the activations, given the last local and the last write timestamp.\<close>

definition drms_read :: "ThreadData \<Rightarrow> u32 \<Rightarrow> u32 \<Rightarrow> ThreadData res" where
  "drms_read td old_ts wts =
     (let p = get_activation_noresize (stack_depth td) in
      bindR (get_act td p) (\<lambda>act.
      if old_ts < TS wts
      then Inr (set_act td p
             (if SYSCALL wts
              then act\<lparr>a_input_size := a_input_size act + 1, self_syscall := self_syscall act + 1,
                       cumul_syscall := cumul_syscall act + 1\<rparr>
              else act\<lparr>a_input_size := a_input_size act + 1, self_thread := self_thread act + 1,
                       cumul_thread := cumul_thread act + 1\<rparr>))
      else if old_ts < activation_id act
      then let td2 = set_act td p (act\<lparr>a_input_size := a_input_size act + 1\<rparr>) in
           if old_ts > 0
           then bindR (get_act td2 (get_activation_noresize 1)) (\<lambda>a0.
                if old_ts \<ge> activation_id a0
                then bindR (get_activation_by_aid td2 old_ts) (\<lambda>q. bindR (get_act td2 q) (\<lambda>a.
                       Inr (set_act td2 q (a\<lparr>a_input_size := a_input_size a - 1\<rparr>))))
                else Inr td2)
           else Inr td2
      else Inr td))"

definition drms_cell :: "access_t \<Rightarrow> bool \<Rightarrow> nat \<Rightarrow> u64 \<Rightarrow> Runtime \<Rightarrow> Runtime res" where
  "drms_cell type kernel_access t addr rt =
     (let ts = global_counter rt in
      bindR (derefR (global_shadow_memory rt)) (\<lambda>g.
      bindR (drms_global_access g type addr kernel_access ts) (\<lambda>(g', wts).
      let rt1 = rt\<lparr>global_shadow_memory := Some g'\<rparr> in
      if type \<noteq> LOAD \<and> kernel_access then Inr rt1
      else bindR (get_td rt1 t) (\<lambda>td.
           bindR (LK_insert (shadow_memory td) addr ts) (\<lambda>(sm, old_ts).
           let td1 = td\<lparr>shadow_memory := sm\<rparr> in
           if type = STORE then Inr (put_td rt1 t td1)
           else bindR (drms_read td1 old_ts wts) (\<lambda>td2. Inr (put_td rt1 t td2)))))))"

function drms_loop :: "u32 \<Rightarrow> access_t \<Rightarrow> bool \<Rightarrow> nat \<Rightarrow> u64 \<Rightarrow> int \<Rightarrow> Runtime \<Rightarrow> Runtime res" where
  "drms_loop resolution type kernel_access t addr size_fix rt =
     (if size_fix > 0
      then if resolution = 0 then Inl Diverges
           else bindR (drms_cell type kernel_access t addr rt)
                  (drms_loop resolution type kernel_access t (addr + ucast resolution) (size_fix - uint resolution))
      else Inr rt)"
  by pat_completeness auto
termination
  by (relation "measure (\<lambda>(resolution, type, kernel_access, t, addr, size_fix, rt). nat size_fix)")
    (auto simp: word_neq_0_conv uint_0_iff word_less_def)

declare drms_loop.simps [simp del]

definition trace_access_drms :: "Runtime \<Rightarrow> access_t \<Rightarrow> u64 \<Rightarrow> u64 \<Rightarrow> bool \<Rightarrow> Runtime res" where
  "trace_access_drms rt type addr sz kernel_access =
     bindR (derefR (current_tdata rt)) (\<lambda>t. bindR (get_td rt t) (\<lambda>tdata.
       if stack_depth tdata = 0 \<or> t_skip tdata > 0 then Inr rt
       else let (addr', size_fix) = fix_access_size (memory_resolution (cfg rt)) addr (sint (ucast sz :: u32))
            in drms_loop (memory_resolution (cfg rt)) type kernel_access t addr' size_fix rt))"

section \<open>The cells of an access\<close>

text \<open>The addresses the loops visit.\<close>

definition access_addrs :: "u32 \<Rightarrow> u64 \<Rightarrow> int \<Rightarrow> u64 list" where
  "access_addrs resolution addr size_fix =
     map (\<lambda>i. addr + of_nat i * ucast resolution) [0..<nat ((size_fix + uint resolution - 1) div uint resolution)]"

lemma access_addrs_le_0: "size_fix \<le> 0 \<Longrightarrow> 0 < r \<Longrightarrow> access_addrs r addr size_fix = []"
proof -
  assume s: "size_fix \<le> 0" and "0 < r"
  then have r: "0 < uint r" by (simp add: word_less_def)
  with s have "(size_fix + uint r - 1) div uint r \<le> (uint r - 1) div uint r"
    by (intro zdiv_mono1) auto
  also have "\<dots> = 0" using r by (simp add: div_pos_pos_trivial)
  finally have "nat ((size_fix + uint r - 1) div uint r) = 0" by simp
  then show ?thesis by (simp add: access_addrs_def)
qed

lemma access_addrs_Cons:
  assumes "0 < size_fix" "0 < r"
  shows "access_addrs r addr size_fix = addr # access_addrs r (addr + ucast r) (size_fix - uint r)"
proof -
  from assms(2) have r: "0 < uint r" by (simp add: word_less_def)
  let ?n = "\<lambda>s. nat ((s + uint r - 1) div uint r)"
  have "(size_fix + uint r - 1) div uint r = (size_fix - uint r + uint r - 1) div uint r + 1"
    using div_add_self2 [of "uint r" "size_fix - 1"] r by (simp add: algebra_simps)
  moreover have "0 \<le> (size_fix - uint r + uint r - 1) div uint r"
    using r assms(1) by (simp add: pos_imp_zdiv_nonneg_iff)
  ultimately have n: "?n size_fix = Suc (?n (size_fix - uint r))" by simp
  show ?thesis
    unfolding access_addrs_def n
    by (simp add: upt_conv_Cons map_Suc_upt [symmetric] algebra_simps del: upt_Suc)
qed

lemma uint_pos_iff: "(0 < (r :: u32)) \<longleftrightarrow> 0 < uint r"
  by (simp add: word_less_def)

lemma rms_loop_foldR:
  assumes r: "0 < r"
  shows "rms_loop r type addr size_fix td = foldR (rms_cell type) (access_addrs r addr size_fix) td"
proof (induction "nat size_fix" arbitrary: addr size_fix td rule: less_induct)
  case less
  show ?case
  proof (cases "0 < size_fix")
    case True
    then have "nat (size_fix - uint r) < nat size_fix" using r by (simp add: uint_pos_iff)
    from less [OF this] have rec: "rms_loop r type a (size_fix - uint r) = foldR (rms_cell type) (access_addrs r a (size_fix - uint r))" for a
      by (simp add: fun_eq_iff)
    have "rms_loop r type addr size_fix td = bindR (rms_cell type addr td) (rms_loop r type (addr + ucast r) (size_fix - uint r))"
      using True r by (subst rms_loop.simps) (auto simp: word_gt_0)
    then show ?thesis unfolding rec access_addrs_Cons [OF True r] foldR.simps .
  next
    case False
    then show ?thesis using r by (subst rms_loop.simps) (simp add: access_addrs_le_0)
  qed
qed

lemma drms_loop_foldR:
  assumes r: "0 < r"
  shows "drms_loop r type kacc t addr size_fix rt = foldR (drms_cell type kacc t) (access_addrs r addr size_fix) rt"
proof (induction "nat size_fix" arbitrary: addr size_fix rt rule: less_induct)
  case less
  show ?case
  proof (cases "0 < size_fix")
    case True
    then have "nat (size_fix - uint r) < nat size_fix" using r by (simp add: uint_pos_iff)
    from less [OF this] have rec: "drms_loop r type kacc t a (size_fix - uint r) =
        foldR (drms_cell type kacc t) (access_addrs r a (size_fix - uint r))" for a
      by (simp add: fun_eq_iff)
    have "drms_loop r type kacc t addr size_fix rt =
        bindR (drms_cell type kacc t addr rt) (drms_loop r type kacc t (addr + ucast r) (size_fix - uint r))"
      using True r by (subst drms_loop.simps) (auto simp: word_gt_0)
    then show ?thesis unfolding rec access_addrs_Cons [OF True r] foldR.simps .
  next
    case False
    then show ?thesis using r by (subst drms_loop.simps) (simp add: access_addrs_le_0)
  qed
qed

lemma fix_access_size_eq:
  assumes s: "s \<le> 4" and n: "n < 2 ^ 31 - 16"
  shows "fix_access_size (2 ^ s) addr (int n) =
    (of_nat (unat addr div 2 ^ s * 2 ^ s), int n + int (unat addr mod 2 ^ s))"
proof -
  let ?d = "ucast (addr AND ucast ((2 :: u32) ^ s - 1)) :: u32" and ?m = "unat addr mod 2 ^ s"
  have m: "?m < 16"
  proof -
    have "?m < 2 ^ s" by simp
    also have "(2 :: nat) ^ s \<le> 2 ^ 4" by (rule power_increasing) (use s in simp_all)
    finally show ?thesis by simp
  qed
  have mask: "(ucast ((2 :: u32) ^ s - 1) :: u64) = mask s"
    unfolding mask_eq_exp_minus_1 [symmetric]
    using s by (intro bit_word_eqI) (auto simp: bit_unsigned_iff bit_mask_iff)
  have u: "unat (addr AND ucast ((2 :: u32) ^ s - 1)) = ?m"
    unfolding mask take_bit_eq_mask [symmetric] unsigned_take_bit_eq by (rule take_bit_eq_mod)
  have d: "unat ?d = ?m"
    unfolding unsigned_ucast_eq u using m by (simp add: take_bit_nat_eq_self)
  then have dn: "?d = of_nat ?m" by (rule word_of_unat)
  have d64: "(ucast ?d :: u64) = of_nat ?m"
    using d unat_ucast_32_64 [of ?d] by (intro word_of_unat) simp
  have a: "addr - ucast ?d = of_nat (unat addr div 2 ^ s * 2 ^ s)"
  proof -
    have "addr = of_nat (unat addr div 2 ^ s * 2 ^ s + ?m)"
      unfolding div_mult_mod_eq by (rule word_of_unat) simp
    then have "addr = of_nat (unat addr div 2 ^ s * 2 ^ s) + of_nat ?m" unfolding of_nat_add .
    then show ?thesis unfolding d64 diff_eq_eq .
  qed
  have w: "of_int (int n) + ?d = (of_nat (n + ?m) :: u32)" unfolding dn by simp
  have "unat (of_nat (n + ?m) :: u32) = n + ?m" using n m by (intro unat_of_nat32) simp
  then have "sint (of_int (int n) + ?d) = int (n + ?m)"
    unfolding w using n m by (subst sint_small) auto
  with a show ?thesis by (simp add: fix_access_size_def Let_def)
qed


lemma access_count:
  fixes q r m n :: nat
  assumes "0 < r" "0 < n" "a = q * r + m" "m < r"
  shows "nat ((int n + int m + int r - 1) div int r) = (a + n - 1) div r + 1 - q"
proof -
  have "int n + int m + int r - 1 = int (n + m + r - 1)" using assms by simp
  then have "nat ((int n + int m + int r - 1) div int r) = (n + m + r - 1) div r"
    by (simp only: nat_int flip: of_nat_div)
  also have "n + m + r - 1 = (n + m - 1) + r" using assms by simp
  also have "\<dots> div r = (n + m - 1) div r + 1" using assms by (intro div_add_self2) simp
  finally have l: "nat ((int n + int m + int r - 1) div int r) = (n + m - 1) div r + 1" .
  have "a + n - 1 = (n + m - 1) + q * r" using assms by simp
  then have "(a + n - 1) div r = q + (n + m - 1) div r" using assms(1) by simp
  with l show ?thesis by simp
qed

text \<open>An access to \<open>n\<close> bytes visits the cells of its first to its last byte, each once and in order.\<close>

lemma access_cells:
  assumes sh: "unat sh \<le> 4" and n: "0 < n" "n < 2 ^ 31 - 16" and top: "unat addr + n \<le> 2 ^ 46"
    and fx: "fix_access_size (2 ^ unat sh) addr (int n) = (a, sf)"
  shows "map (LK_addr_cell sh) (access_addrs (2 ^ unat sh) a sf) =
      map of_nat [unat addr div 2 ^ unat sh ..< (unat addr + n - 1) div 2 ^ unat sh + 1]"
    and "\<forall>b \<in> set (access_addrs (2 ^ unat sh) a sf). LK_valid b"
    and "\<forall>b \<in> set (access_addrs (2 ^ unat sh) a sf). unat b mod 2 ^ unat sh = 0"
proof -
  let ?r = "2 ^ unat sh :: nat" and ?q = "unat addr div 2 ^ unat sh" and ?m = "unat addr mod 2 ^ unat sh"
  let ?l = "(unat addr + n - 1) div ?r"
  have a: "a = of_nat (?q * ?r)" and sf: "sf = int n + int ?m"
    using fx fix_access_size_eq [OF sh n(2), of addr] by auto
  have r32: "unat (2 ^ unat sh :: u32) = ?r"
    using sh power_increasing [of "unat sh" 4 "2 :: nat"] unat_of_nat32 [of ?r] by simp
  have r64: "(ucast (2 ^ unat sh :: u32) :: u64) = of_nat ?r"
    using r32 unat_ucast_32_64 [of "2 ^ unat sh"] by (intro word_of_unat) simp
  have ur: "uint (2 ^ unat sh :: u32) = int ?r" using r32 by (metis uint_nat)
  have cnt: "nat ((sf + uint (2 ^ unat sh :: u32) - 1) div uint (2 ^ unat sh :: u32)) = ?l + 1 - ?q"
    unfolding ur sf by (rule access_count) (use n in \<open>simp_all add: div_mult_mod_eq\<close>)
  have addrs: "access_addrs (2 ^ unat sh) a sf = map (\<lambda>i. of_nat ((?q + i) * ?r)) [0..<?l + 1 - ?q]"
    unfolding access_addrs_def cnt r64 a by (simp add: algebra_simps)
  have small: "(?q + i) * ?r < 2 ^ 46" if "i < ?l + 1 - ?q" for i
  proof -
    have "(?q + i) * ?r \<le> ?l * ?r" using that by (intro mult_right_mono) auto
    also have "\<dots> \<le> unat addr + n - 1" by simp
    finally show ?thesis using n top by linarith
  qed
  have cell: "LK_addr_cell sh (of_nat ((?q + i) * ?r)) = of_nat (?q + i)" if "i < ?l + 1 - ?q" for i
  proof -
    have u: "unat (of_nat ((?q + i) * ?r) :: u64) = (?q + i) * ?r"
      using small [OF that] by (intro unat_of_nat64) simp
    have "unat (LK_addr_cell sh (of_nat ((?q + i) * ?r))) = ?q + i"
      unfolding LK_addr_cell_def unat_drop_bit_eq u drop_bit_eq_div [where 'a = nat] by simp
    then show ?thesis by (rule word_of_unat)
  qed
  have "?q \<le> ?l" using n by (intro div_le_mono) simp
  then have "[?q..<?l + 1] = map (\<lambda>i. ?q + i) [0..<?l + 1 - ?q]"
    using map_add_upt [of ?q "?l + 1 - ?q"] by (simp add: add.commute)
  then show "map (LK_addr_cell sh) (access_addrs (2 ^ unat sh) a sf) = map of_nat [?q..<?l + 1]"
    unfolding addrs using cell by (simp add: o_def)
  show "\<forall>b \<in> set (access_addrs (2 ^ unat sh) a sf). unat b mod 2 ^ unat sh = 0"
  proof
    fix b assume "b \<in> set (access_addrs (2 ^ unat sh) a sf)"
    then obtain i where i: "i < ?l + 1 - ?q" "b = of_nat ((?q + i) * ?r)" by (auto simp: addrs)
    have "(?q + i) * ?r < 2 ^ 64" using small [OF i(1)] by simp
    then have "unat b = (?q + i) * ?r" unfolding i(2) by (rule unat_of_nat64)
    then show "unat b mod 2 ^ unat sh = 0" by simp
  qed
  show "\<forall>b \<in> set (access_addrs (2 ^ unat sh) a sf). LK_valid b"
  proof
    fix b assume "b \<in> set (access_addrs (2 ^ unat sh) a sf)"
    then obtain i where i: "i < ?l + 1 - ?q" "b = of_nat ((?q + i) * ?r)" by (auto simp: addrs)
    have u: "unat b < 2 ^ 46"
      unfolding i(2) using small [OF i(1)] unat_of_nat64 [of "(?q + i) * ?r"] by simp
    then have "unat b div 2 ^ 30 < 2 ^ 16" by (simp add: less_mult_imp_div_less)
    then have "unat (LK_i b) < 2 ^ 16"
      unfolding LK_i_def unat_drop_bit_eq drop_bit_eq_div [where 'a = nat] .
    then show "LK_valid b" by (simp add: LK_valid_def LK_SIZE_def word_less_nat_alt)
  qed
qed

end
