(* ===== verification/RMS.thy ===== *)
theory RMS
  imports Memory Functions
begin

text \<open>
  What the RMS analysis computes.  The specification keeps, for every pending activation, the
  set of memory cells accessed since it was entered and the set of those whose first access was a
  read: the size of the second is the activation's read memory size.  The theory shows that the
  timestamps of \<open>shadow_memory\<close> and the partial sums of \<open>a_input_size\<close> represent these sets
  through accesses, entries, exits and counter overflows.
\<close>

section \<open>Specification\<close>

record frame =
  accessed :: "u64 set"
  read_first :: "u64 set"

definition frame_access :: "access_t \<Rightarrow> u64 \<Rightarrow> frame \<Rightarrow> frame" where
  "frame_access type c f = \<lparr>accessed = insert c (accessed f),
     read_first = (if type \<noteq> STORE \<and> c \<notin> accessed f then insert c (read_first f) else read_first f)\<rparr>"

definition spec_access :: "access_t \<Rightarrow> u64 \<Rightarrow> frame list \<Rightarrow> frame list" where
  "spec_access type c = map (frame_access type c)"

definition spec_enter :: "frame list \<Rightarrow> frame list" where
  "spec_enter fs = fs @ [\<lparr>accessed = {}, read_first = {}\<rparr>]"

definition spec_exit :: "frame list \<Rightarrow> frame list" where
  "spec_exit fs = butlast fs"

definition rms_value :: "frame \<Rightarrow> nat" where
  "rms_value f = card (read_first f)"

lemma length_spec_access [simp]: "length (spec_access type c fs) = length fs"
  by (simp add: spec_access_def)

section \<open>Representation\<close>

text \<open>The first \<open>d\<close> activations of the stack represent the frames \<open>fs\<close>.  (The activations above
  are those entered while a skipped function is active.)\<close>

definition ids_ok :: "nat \<Rightarrow> ThreadData \<Rightarrow> bool" where
  "ids_ok d td \<longleftrightarrow> (\<forall>i < d. 0 < activation_id (stack td i)) \<and>
     (\<forall>i j. i < j \<longrightarrow> j < d \<longrightarrow> activation_id (stack td i) < activation_id (stack td j))"

definition frames_ok :: "nat \<Rightarrow> ThreadData \<Rightarrow> frame list \<Rightarrow> bool" where
  "frames_ok d td fs \<longleftrightarrow> length fs = d \<and> (\<forall>i < d.
     accessed (fs ! i) = {c. activation_id (stack td i) \<le> LK_sm (shadow_memory td) c} \<and>
     read_first (fs ! i) \<subseteq> accessed (fs ! i) \<and>
     of_nat (rms_value (fs ! i)) = (\<Sum>j = i..<d. a_input_size (stack td j)))"

definition rms_rel :: "nat \<Rightarrow> ThreadData \<Rightarrow> frame list \<Rightarrow> bool" where
  "rms_rel d td fs \<longleftrightarrow> stack_ok td \<and> lk_inv (shadow_memory td) \<and> d \<le> unat (stack_depth td) \<and>
     next_activation_id td \<noteq> 0 \<and> (\<forall>i < d. activation_id (stack td i) < next_activation_id td) \<and>
     (\<forall>c. LK_sm (shadow_memory td) c < next_activation_id td) \<and>
     ids_ok d td \<and> frames_ok d td fs"

lemma frames_okI:
  assumes "length fs = d"
    and "\<And>i. i < d \<Longrightarrow> accessed (fs ! i) = {c. activation_id (stack td i) \<le> LK_sm (shadow_memory td) c} \<and>
      read_first (fs ! i) \<subseteq> accessed (fs ! i) \<and>
      of_nat (rms_value (fs ! i)) = (\<Sum>j = i..<d. a_input_size (stack td j))"
  shows "frames_ok d td fs"
  unfolding frames_ok_def using assms by blast

lemma ids_ok_le: "ids_ok d td \<Longrightarrow> i \<le> j \<Longrightarrow> j < d \<Longrightarrow> activation_id (stack td i) \<le> activation_id (stack td j)"
  by (cases "i = j") (auto simp: ids_ok_def intro: less_imp_le)

section \<open>Finding an activation by timestamp\<close>

declare by_aid_loop.simps [simp del]

lemma by_aid_loop_ok:
  assumes "k \<le> n" "activation_id (st k) \<le> aid" "\<And>i. k < i \<Longrightarrow> i \<le> n \<Longrightarrow> aid < activation_id (st i)"
  shows "by_aid_loop st aid n = Inr (int k)"
  using assms
proof (induction n)
  case 0
  then show ?case by (subst by_aid_loop.simps) (simp add: leD)
next
  case (Suc n)
  show ?case
  proof (cases "k = Suc n")
    case True
    with Suc.prems(2) show ?thesis by (subst by_aid_loop.simps) (simp add: leD)
  next
    case False
    with Suc show ?thesis by (subst by_aid_loop.simps) simp
  qed
qed

text \<open>The greatest pending activation not above \<open>aid\<close>.\<close>

lemma greatest_activation:
  fixes f :: "nat \<Rightarrow> u32"
  assumes "f 0 \<le> aid"
  shows "\<exists>k \<le> n. f k \<le> aid \<and> (\<forall>i. k < i \<longrightarrow> i \<le> n \<longrightarrow> aid < f i)"
proof (induction n)
  case 0
  with assms show ?case by auto
next
  case (Suc n)
  then obtain k where k: "k \<le> n" "f k \<le> aid" "\<forall>i. k < i \<longrightarrow> i \<le> n \<longrightarrow> aid < f i" by blast
  show ?case
  proof (cases "f (Suc n) \<le> aid")
    case True
    then show ?thesis by (intro exI [of _ "Suc n"]) auto
  next
    case False
    with k show ?thesis by (intro exI [of _ k]) (auto simp: le_Suc_eq)
  qed
qed

lemma get_activation_by_aid_ok:
  assumes ok: "stack_ok td" and ids: "ids_ok d td" and d: "d = unat (stack_depth td)" "0 < d"
    and lo: "activation_id (stack td 0) \<le> aid" and hi: "aid < activation_id (stack td (d - 1))"
  shows "\<exists>k. get_activation_by_aid td aid = Inr (int k) \<and> k < d - 1 \<and>
    (\<forall>i < d. activation_id (stack td i) \<le> aid \<longleftrightarrow> i \<le> k)"
proof -
  have "d \<noteq> 1" using lo hi by (auto dest: leD)
  with d have d2: "2 \<le> d" by linarith
  have n: "unat (stack_depth td - 2) = d - 2"
    using d2 d by (simp add: unat_sub word_le_nat_alt)
  have mx: "stack_depth td - 2 < max_stack_size td"
    unfolding word_less_nat_alt n using ok d d2 by (auto simp: stack_ok_def)
  from greatest_activation [of "\<lambda>i. activation_id (stack td i)", OF lo, of "d - 2"] obtain k where
    k: "k \<le> d - 2" "activation_id (stack td k) \<le> aid" "\<forall>i. k < i \<longrightarrow> i \<le> d - 2 \<longrightarrow> aid < activation_id (stack td i)"
    by blast
  have "get_activation_by_aid td aid = Inr (int k)"
    using mx k by (simp add: get_activation_by_aid_def Let_def n by_aid_loop_ok)
  moreover have "activation_id (stack td i) \<le> aid \<longleftrightarrow> i \<le> k" if i: "i < d" for i
  proof
    assume a: "activation_id (stack td i) \<le> aid"
    show "i \<le> k"
    proof (rule ccontr)
      assume "\<not> i \<le> k"
      then consider "k < i" "i \<le> d - 2" | "i = d - 1" using i d2 by linarith
      then have "aid < activation_id (stack td i)" using k(3) hi by cases auto
      with a show False by (simp add: leD)
    qed
  next
    assume "i \<le> k"
    moreover have "k < d" using k(1) d2 by linarith
    ultimately have "activation_id (stack td i) \<le> activation_id (stack td k)" by (rule ids_ok_le [OF ids])
    then show "activation_id (stack td i) \<le> aid" using k(2) by (rule order_trans)
  qed
  ultimately show ?thesis using k(1) d2 by (intro exI [of _ k]) auto
qed

section \<open>Accesses\<close>

text \<open>An access changes nothing but the shadow memory and input sizes.\<close>

definition same_but_inputs :: "ThreadData \<Rightarrow> ThreadData \<Rightarrow> bool" where
  "same_but_inputs td td' \<longleftrightarrow>
     td' = td\<lparr>shadow_memory := shadow_memory td', stack := stack td'\<rparr> \<and>
     res_shift (shadow_memory td') = res_shift (shadow_memory td) \<and>
     (\<forall>i. stack td' i = (stack td i)\<lparr>a_input_size := a_input_size (stack td' i)\<rparr>)"

lemma same_but_inputsD:
  assumes "same_but_inputs td td'"
  shows "stack_depth td' = stack_depth td" "max_stack_size td' = max_stack_size td"
    "next_activation_id td' = next_activation_id td" "rtn_ht td' = rtn_ht td" "t_skip td' = t_skip td"
    "t_cost td' = t_cost td" "skip_cost td' = skip_cost td"
    "res_shift (shadow_memory td') = res_shift (shadow_memory td)"
    "activation_id (stack td' i) = activation_id (stack td i)"
    "routine_info (stack td' i) = routine_info (stack td i)"
    "start (stack td' i) = start (stack td i)" "sum_children_cost (stack td' i) = sum_children_cost (stack td i)"
proof -
  from assms have td: "td' = td\<lparr>shadow_memory := shadow_memory td', stack := stack td'\<rparr>"
    and r: "res_shift (shadow_memory td') = res_shift (shadow_memory td)"
    and st: "stack td' i = (stack td i)\<lparr>a_input_size := a_input_size (stack td' i)\<rparr>"
    by (auto simp: same_but_inputs_def)
  show "stack_depth td' = stack_depth td" using arg_cong [OF td, of stack_depth] by simp
  show "max_stack_size td' = max_stack_size td" using arg_cong [OF td, of max_stack_size] by simp
  show "next_activation_id td' = next_activation_id td" using arg_cong [OF td, of next_activation_id] by simp
  show "rtn_ht td' = rtn_ht td" using arg_cong [OF td, of rtn_ht] by simp
  show "t_skip td' = t_skip td" using arg_cong [OF td, of t_skip] by simp
  show "t_cost td' = t_cost td" using arg_cong [OF td, of t_cost] by simp
  show "skip_cost td' = skip_cost td" using arg_cong [OF td, of skip_cost] by simp
  show "res_shift (shadow_memory td') = res_shift (shadow_memory td)" by (rule r)
  show "activation_id (stack td' i) = activation_id (stack td i)" using arg_cong [OF st, of activation_id] by simp
  show "routine_info (stack td' i) = routine_info (stack td i)" using arg_cong [OF st, of routine_info] by simp
  show "start (stack td' i) = start (stack td i)" using arg_cong [OF st, of start] by simp
  show "sum_children_cost (stack td' i) = sum_children_cost (stack td i)"
    using arg_cong [OF st, of sum_children_cost] by simp
qed

text \<open>The input sizes after a read of a cell last accessed at \<open>old\<close>: one more for the activation
  on top, one less for the activation that had it, if any.\<close>

lemma sum_suffix_update:
  fixes f :: "nat \<Rightarrow> u32"
  assumes "i < d"
  shows "(\<Sum>j = i..<d. if j = d - 1 then f j + 1 else f j) = (\<Sum>j = i..<d. f j) + 1"
proof -
  have d: "d - 1 \<in> {i..<d}" using assms by auto
  have "(\<Sum>j = i..<d. if j = d - 1 then f j + 1 else f j) = f (d - 1) + 1 + (\<Sum>j \<in> {i..<d} - {d - 1}. f j)"
    using d by (subst sum.remove [of _ "d - 1"]) (auto intro: sum.cong)
  also have "\<dots> = (\<Sum>j = i..<d. f j) + 1"
    using d by (subst (2) sum.remove [of _ "d - 1"]) simp_all
  finally show ?thesis .
qed

lemma sum_suffix_dec:
  fixes f :: "nat \<Rightarrow> u32"
  assumes "k < d"
  shows "(\<Sum>j = i..<d. if j = k then f j - 1 else f j) = (\<Sum>j = i..<d. f j) - (if i \<le> k then 1 else 0)"
proof (cases "i \<le> k")
  case True
  then have k: "k \<in> {i..<d}" using assms by auto
  have "(\<Sum>j = i..<d. if j = k then f j - 1 else f j) = f k - 1 + (\<Sum>j \<in> {i..<d} - {k}. f j)"
    using k by (subst sum.remove [of _ k]) (auto intro: sum.cong)
  also have "\<dots> = (\<Sum>j = i..<d. f j) - 1"
    using k by (subst (2) sum.remove [of _ k]) simp_all
  finally show ?thesis using True by simp
next
  case False
  then show ?thesis by (auto intro: sum.cong)
qed

lemma frames_access:
  assumes rel: "rms_rel d td fs" and d: "0 < d" and same: "same_but_inputs td td'"
    and inv: "lk_inv (shadow_memory td')"
    and sm: "LK_sm (shadow_memory td') = (LK_sm (shadow_memory td))(c := activation_id (stack td (d - 1)))"
    and sums: "\<And>i. i < d \<Longrightarrow> (\<Sum>j = i..<d. a_input_size (stack td' j)) =
      (\<Sum>j = i..<d. a_input_size (stack td j)) +
      (if type \<noteq> STORE \<and> LK_sm (shadow_memory td) c < activation_id (stack td i) then 1 else 0)"
  shows "rms_rel d td' (spec_access type c fs)"
proof -
  note S = same_but_inputsD [OF same]
  let ?top = "activation_id (stack td (d - 1))"
  from rel have R: "stack_ok td" "d \<le> unat (stack_depth td)" "next_activation_id td \<noteq> 0"
    "\<forall>i < d. activation_id (stack td i) < next_activation_id td"
    "\<forall>c. LK_sm (shadow_memory td) c < next_activation_id td" "ids_ok d td" and F: "frames_ok d td fs"
    by (simp_all add: rms_rel_def)
  have top: "activation_id (stack td i) \<le> ?top" if "i < d" for i
    using ids_ok_le [OF R(6), of i "d - 1"] that d by simp
  have frame: "accessed (spec_access type c fs ! i) = {x. activation_id (stack td' i) \<le> LK_sm (shadow_memory td') x} \<and>
      read_first (spec_access type c fs ! i) \<subseteq> accessed (spec_access type c fs ! i) \<and>
      of_nat (rms_value (spec_access type c fs ! i)) = (\<Sum>j = i..<d. a_input_size (stack td' j))"
    if i: "i < d" for i
  proof -
    from F i have f: "accessed (fs ! i) = {x. activation_id (stack td i) \<le> LK_sm (shadow_memory td) x}"
      "read_first (fs ! i) \<subseteq> accessed (fs ! i)"
      "of_nat (rms_value (fs ! i)) = (\<Sum>j = i..<d. a_input_size (stack td j))" and len: "i < length fs"
      by (auto simp: frames_ok_def)
    have new: "c \<notin> accessed (fs ! i) \<longleftrightarrow> LK_sm (shadow_memory td) c < activation_id (stack td i)"
      by (simp add: f(1) not_le)
    have "rms_value (spec_access type c fs ! i) =
        rms_value (fs ! i) + (if type \<noteq> STORE \<and> c \<notin> accessed (fs ! i) then 1 else 0)"
      using f(2) len by (auto simp: spec_access_def frame_access_def rms_value_def card_insert_if)
    then have "of_nat (rms_value (spec_access type c fs ! i)) = (\<Sum>j = i..<d. a_input_size (stack td' j))"
      unfolding sums [OF i] new f(3) [symmetric] by simp
    moreover have "accessed (spec_access type c fs ! i) = {x. activation_id (stack td' i) \<le> LK_sm (shadow_memory td') x}"
      using len top [OF i] by (auto simp: spec_access_def frame_access_def f(1) sm S(9))
    moreover have "read_first (spec_access type c fs ! i) \<subseteq> accessed (spec_access type c fs ! i)"
      using len f(2) by (auto simp: spec_access_def frame_access_def)
    ultimately show ?thesis by blast
  qed
  have "LK_sm (shadow_memory td') x < next_activation_id td'" for x
    using R(4,5) d by (simp add: sm S(3))
  moreover have "frames_ok d td' (spec_access type c fs)"
    by (rule frames_okI [OF _ frame]) (use F in \<open>simp_all add: frames_ok_def\<close>)
  moreover have "ids_ok d td'" using R(6) by (simp add: ids_ok_def S(9))
  moreover have "stack_ok td'" using R(1) by (simp add: stack_ok_def S(1,2))
  ultimately show ?thesis using R inv by (simp add: rms_rel_def S)
qed

lemma same_but_inputsI:
  assumes "res_shift m = res_shift (shadow_memory td)"
    and "\<And>i. st i = (stack td i)\<lparr>a_input_size := a_input_size (st i)\<rparr>"
  shows "same_but_inputs td (td\<lparr>shadow_memory := m, stack := st\<rparr>)"
  using assms by (simp add: same_but_inputs_def)

text \<open>What one iteration does, by cases on the last access to the cell.\<close>

lemma rms_cell_ok:
  assumes rel: "rms_rel d td fs" and d: "d = unat (stack_depth td)" "0 < d" and v: "LK_valid addr"
  shows "\<exists>td'. rms_cell type addr td = Inr td' \<and> same_but_inputs td td' \<and>
    rms_rel d td' (spec_access type (LK_addr_cell (res_shift (shadow_memory td)) addr) fs)"
proof -
  define n where "n = d - 1"
  then have n: "n < d" "d - 1 = n" using d(2) by simp_all
  let ?c = "LK_addr_cell (res_shift (shadow_memory td)) addr"
  let ?p = "get_activation_noresize (stack_depth td)"
  let ?old = "LK_sm (shadow_memory td) ?c" and ?top = "stack td n"
  from rel have ok: "stack_ok td" and inv: "lk_inv (shadow_memory td)" and ids: "ids_ok d td"
    by (simp_all add: rms_rel_def)
  have p: "?p = int n" unfolding get_activation_noresize_def n(2) [symmetric] d(1)
    by (rule uint_of_depth) (use d in simp)
  have p1: "get_activation_noresize 1 = int 0" by (simp add: get_activation_noresize_def)
  have act: "get_act td (int n) = Inr ?top" by (rule get_act_in_stack [OF ok]) (use d n in simp)
  obtain sm where
    sm: "LK_insert (shadow_memory td) addr (activation_id ?top) = Inr (sm, ?old)" "lk_inv sm"
      "LK_sm sm = (LK_sm (shadow_memory td))(?c := activation_id ?top)" "res_shift sm = res_shift (shadow_memory td)"
    using LK_insert_ok [OF inv v, of "activation_id ?top"] by blast
  have top: "activation_id (stack td i) \<le> activation_id ?top" if "i < d" for i
    by (rule ids_ok_le [OF ids _ n(1)]) (use that n(2) in linarith)
  let ?inp = "\<lambda>j. a_input_size (stack td j)"
  consider "\<not> (type \<noteq> STORE \<and> ?old < activation_id ?top)"
    | "type \<noteq> STORE" "?old < activation_id ?top" "?old < activation_id (stack td 0)"
    | "type \<noteq> STORE" "?old < activation_id ?top" "activation_id (stack td 0) \<le> ?old" by (meson not_le)
  then show ?thesis
  proof cases
    case 1
    let ?td = "td\<lparr>shadow_memory := sm\<rparr>"
    have e: "rms_cell type addr td = Inr ?td"
      using 1 by (auto simp: rms_cell_def Let_def p act sm(1))
    have same: "same_but_inputs td ?td" using sm(4) by (simp add: same_but_inputs_def)
    have "\<not> (type \<noteq> STORE \<and> ?old < activation_id (stack td i))" if "i < d" for i
      using top [OF that] 1 by (auto dest: order_less_le_trans)
    then have "rms_rel d ?td (spec_access type ?c fs)"
      by (intro frames_access [OF rel d(2) same, unfolded n(2)]) (auto simp: sm)
    with e same show ?thesis by blast
  next
    case 2
    let ?td = "td\<lparr>shadow_memory := sm, stack := (stack td)(n := ?top\<lparr>a_input_size := ?inp n + 1\<rparr>)\<rparr>"
    have ok': "stack_ok ?td" using ok by (simp add: stack_ok_def)
    have a0: "get_act ?td (int 0) = Inr (stack ?td 0)" by (rule get_act_in_stack [OF ok']) (use d n in simp)
    have e: "rms_cell type addr td = Inr ?td"
      using 2 a0 by (auto simp: rms_cell_def Let_def act sm(1) p p1 set_act_def leD)
    have same: "same_but_inputs td ?td" by (rule same_but_inputsI) (simp_all add: sm(4))
    have "type \<noteq> STORE \<and> ?old < activation_id (stack td i)" if "i < d" for i
      using ids_ok_le [OF ids _ that, of 0] 2 by (auto dest: order_less_le_trans)
    then have "rms_rel d ?td (spec_access type ?c fs)"
      by (intro frames_access [OF rel d(2) same, unfolded n(2)])
        (use sum_suffix_update [of _ d ?inp, unfolded n(2)] in \<open>auto simp: sm if_distrib cong: if_cong\<close>)
    with e same show ?thesis by blast
  next
    case 3
    let ?st = "(stack td)(n := ?top\<lparr>a_input_size := ?inp n + 1\<rparr>)"
    let ?td2 = "td\<lparr>shadow_memory := sm, stack := ?st\<rparr>"
    have ok': "stack_ok ?td2" using ok by (simp add: stack_ok_def)
    have aid: "activation_id (stack ?td2 i) = activation_id (stack td i)" for i by simp
    have ids': "ids_ok d ?td2" using ids unfolding ids_ok_def aid .
    have a0: "get_act ?td2 (int 0) = Inr (stack ?td2 0)" by (rule get_act_in_stack [OF ok']) (use d n in simp)
    have "d = unat (stack_depth ?td2)" using d by simp
    from get_activation_by_aid_ok [OF ok' ids' this d(2), unfolded aid, unfolded n(2), OF 3(3,2)] obtain k where
      k: "get_activation_by_aid ?td2 ?old = Inr (int k)" "k < n"
        "\<forall>i < d. activation_id (stack td i) \<le> ?old \<longleftrightarrow> i \<le> k" by blast
    have ak: "get_act ?td2 (int k) = Inr (stack td k)"
      using get_act_in_stack [OF ok', of k] k(2) d n by simp
    let ?td = "td\<lparr>shadow_memory := sm, stack := ?st(k := (stack td k)\<lparr>a_input_size := ?inp k - 1\<rparr>)\<rparr>"
    have e: "rms_cell type addr td = Inr ?td"
      using 3 a0 k(1) ak by (auto simp: rms_cell_def Let_def act sm(1) p p1 set_act_def)
    have same: "same_but_inputs td ?td" by (rule same_but_inputsI) (simp_all add: sm(4))
    have "(\<Sum>j = i..<d. a_input_size (stack ?td j)) = (\<Sum>j = i..<d. ?inp j) +
        (if type \<noteq> STORE \<and> ?old < activation_id (stack td i) then 1 else 0)" if i: "i < d" for i
    proof -
      let ?g = "\<lambda>j. if j = n then ?inp j + 1 else ?inp j"
      have "(\<Sum>j = i..<d. a_input_size (stack ?td j)) = (\<Sum>j = i..<d. if j = k then ?g j - 1 else ?g j)"
        using k(2) by (intro sum.cong) auto
      also have "\<dots> = (\<Sum>j = i..<d. ?g j) - (if i \<le> k then 1 else 0)"
        by (rule sum_suffix_dec) (use k(2) n in simp)
      also have "\<dots> = (\<Sum>j = i..<d. ?inp j) + 1 - (if i \<le> k then 1 else 0)"
        by (simp only: sum_suffix_update [OF i, unfolded n(2)])
      finally show ?thesis using 3(1) k(3) i by (auto simp: not_less [symmetric])
    qed
    then have "rms_rel d ?td (spec_access type ?c fs)"
      by (intro frames_access [OF rel d(2) same, unfolded n(2)]) (auto simp: sm)
    with e same show ?thesis by blast
  qed
qed

lemma same_but_inputs_refl [simp]: "same_but_inputs td td"
  by (simp add: same_but_inputs_def)

lemma same_but_inputs_trans:
  assumes "same_but_inputs td td1" "same_but_inputs td1 td2"
  shows "same_but_inputs td td2"
proof -
  from assms(1) have a: "td1 = td\<lparr>shadow_memory := shadow_memory td1, stack := stack td1\<rparr>"
    "res_shift (shadow_memory td1) = res_shift (shadow_memory td)"
    "\<And>i. stack td1 i = (stack td i)\<lparr>a_input_size := a_input_size (stack td1 i)\<rparr>"
    by (auto simp: same_but_inputs_def)
  from assms(2) have b: "td2 = td1\<lparr>shadow_memory := shadow_memory td2, stack := stack td2\<rparr>"
    "res_shift (shadow_memory td2) = res_shift (shadow_memory td1)"
    "\<And>i. stack td2 i = (stack td1 i)\<lparr>a_input_size := a_input_size (stack td2 i)\<rparr>"
    by (auto simp: same_but_inputs_def)
  have "td2 = td\<lparr>shadow_memory := shadow_memory td2, stack := stack td2\<rparr>"
    by (subst b(1), subst a(1)) simp
  moreover have "stack td2 i = (stack td i)\<lparr>a_input_size := a_input_size (stack td2 i)\<rparr>" for i
    by (subst b(3), subst a(3)) simp
  ultimately show ?thesis using a(2) b(2) by (simp add: same_but_inputs_def)
qed

text \<open>The whole handler: an access to \<open>n\<close> bytes is, for the specification, an access to each of the
  cells from that of its first byte to that of its last.\<close>

definition cells_of :: "u32 \<Rightarrow> u64 \<Rightarrow> nat \<Rightarrow> u64 list" where
  "cells_of sh addr n = map of_nat [unat addr div 2 ^ unat sh ..< (unat addr + n - 1) div 2 ^ unat sh + 1]"

lemma rms_rel_depth: "rms_rel d td fs \<Longrightarrow> length fs = d"
  by (simp add: rms_rel_def frames_ok_def)

lemma fold_map_comp: "fold f (map g xs) = fold (\<lambda>x. f (g x)) xs"
  by (simp add: fold_map comp_def)

lemma trace_access_rms_ok:
  assumes cur: "current_tdata rt = Some t" "threads rt t = Some td" "t_skip td = 0"
    and rel: "rms_rel d td fs" and d: "d = unat (stack_depth td)"
    and res: "memory_resolution (cfg rt) = 2 ^ unat (res_shift (shadow_memory td))"
    and n: "0 < n" "n < 2 ^ 31 - 16" "unat addr + n \<le> 2 ^ 46"
  shows "\<exists>td'. trace_access_rms rt type addr (of_nat n) = Inr (rt\<lparr>threads := (threads rt)(t := Some td')\<rparr>) \<and>
    same_but_inputs td td' \<and> rms_rel d td' (fold (spec_access type) (cells_of (res_shift (shadow_memory td)) addr n) fs)"
proof (cases "d = 0")
  case True
  with rel have "fs = []" by (auto dest: rms_rel_depth)
  then have "fold (spec_access type) xs fs = []" for xs by (induction xs) (simp_all add: spec_access_def)
  with True d cur rel \<open>fs = []\<close> show ?thesis
    by (intro exI [of _ td]) (auto simp: trace_access_rms_def get_td_def unat_eq_0 fun_upd_idem)
next
  case False
  let ?sh = "res_shift (shadow_memory td)"
  have inv: "lk_inv (shadow_memory td)" using rel by (simp add: rms_rel_def)
  then have sh: "unat ?sh \<le> 4" by (simp add: lk_inv_def)
  obtain a sf where fx: "fix_access_size (2 ^ unat ?sh) addr (int n) = (a, sf)" by fastforce
  note cells = access_cells [OF sh n fx]
  have r: "(0 :: u32) < 2 ^ unat ?sh"
    using sh by (simp add: word_gt_0 flip: push_bit_eq_mult [of _ 1, simplified]) 
  let ?R = "\<lambda>s fs. same_but_inputs td s \<and> rms_rel d s fs"
  have step: "\<exists>s'. rms_cell type b s = Inr s' \<and> ?R s' (spec_access type (LK_addr_cell ?sh b) gs)"
    if b: "b \<in> set (access_addrs (2 ^ unat ?sh) a sf)" and R: "?R s gs" for b s gs
  proof -
    from R have S: "same_but_inputs td s" "rms_rel d s gs" by simp_all
    note D = same_but_inputsD [OF S(1)]
    from rms_cell_ok [OF S(2), of b type] cells(2) b False d D(1,8) obtain s' where
      "rms_cell type b s = Inr s'" "same_but_inputs s s'" "rms_rel d s' (spec_access type (LK_addr_cell ?sh b) gs)"
      by auto
    with same_but_inputs_trans [OF S(1)] show ?thesis by blast
  qed
  have "\<exists>s'. foldR (rms_cell type) (access_addrs (2 ^ unat ?sh) a sf) td = Inr s' \<and>
      ?R s' (fold (\<lambda>b. spec_access type (LK_addr_cell ?sh b)) (access_addrs (2 ^ unat ?sh) a sf) fs)"
    by (rule foldR_simulation [OF step conjI [OF same_but_inputs_refl rel]])
  then obtain td' where
    td': "foldR (rms_cell type) (access_addrs (2 ^ unat ?sh) a sf) td = Inr td'" "same_but_inputs td td'"
      "rms_rel d td' (fold (\<lambda>b. spec_access type (LK_addr_cell ?sh b)) (access_addrs (2 ^ unat ?sh) a sf) fs)" by blast
  have "fold (\<lambda>b. spec_access type (LK_addr_cell ?sh b)) (access_addrs (2 ^ unat ?sh) a sf) =
      fold (spec_access type) (cells_of ?sh addr n)"
    unfolding cells_of_def cells(1) [symmetric] by (rule fold_map_comp [symmetric])
  with td'(3) have rel': "rms_rel d td' (fold (spec_access type) (cells_of ?sh addr n) fs)" by simp
  have s32: "sint (ucast (of_nat n :: u64) :: u32) = int n"
  proof -
    have "(ucast (of_nat n :: u64) :: u32) = of_nat n"
      using n(2) by (intro word_of_unat) (simp add: unsigned_ucast_eq unat_of_nat64 take_bit_nat_eq_self)
    then show ?thesis using n(2) unat_of_nat32 [of n] sint_small [of "of_nat n"] by simp
  qed
  have "stack_depth td \<noteq> 0" using False d by auto
  then have "trace_access_rms rt type addr (of_nat n) = Inr (rt\<lparr>threads := (threads rt)(t := Some td')\<rparr>)"
    by (simp add: trace_access_rms_def cur get_td_def res s32 fx rms_loop_foldR [OF r] td'(1) put_td_def)
  with td'(2) rel' show ?thesis by blast
qed

section \<open>Entry\<close>

lemma rms_rel_transfer:
  assumes rel: "rms_rel d td fs" and "stack_ok td'" "d \<le> unat (stack_depth td')" "lk_inv (shadow_memory td')"
    and "next_activation_id td' \<noteq> 0" "\<And>i. i < d \<Longrightarrow> activation_id (stack td' i) < next_activation_id td'"
    and "\<And>c. LK_sm (shadow_memory td') c < next_activation_id td'" "ids_ok d td'"
    and order: "\<And>i c. i < d \<Longrightarrow> activation_id (stack td' i) \<le> LK_sm (shadow_memory td') c \<longleftrightarrow>
      activation_id (stack td i) \<le> LK_sm (shadow_memory td) c"
    and "\<And>i. i < d \<Longrightarrow> a_input_size (stack td' i) = a_input_size (stack td i)"
  shows "rms_rel d td' fs"
proof -
  have "(\<Sum>j = i..<d. a_input_size (stack td' j)) = (\<Sum>j = i..<d. a_input_size (stack td j))" for i
    using assms(10) by (intro sum.cong) auto
  moreover have "{c. activation_id (stack td' i) \<le> LK_sm (shadow_memory td') c} =
      {c. activation_id (stack td i) \<le> LK_sm (shadow_memory td) c}" if "i < d" for i
    using order [OF that] by simp
  moreover from rel have "frames_ok d td fs" by (simp add: rms_rel_def)
  ultimately have "frames_ok d td' fs" unfolding frames_ok_def by metis
  with assms show ?thesis by (simp add: rms_rel_def)
qed

lemma rms_rel_cong:
  assumes rel: "rms_rel d td fs" and "stack_ok td'" "d \<le> unat (stack_depth td')"
    and "shadow_memory td' = shadow_memory td" "next_activation_id td' = next_activation_id td"
    and "\<And>i. i < d \<Longrightarrow> activation_id (stack td' i) = activation_id (stack td i)"
    and "\<And>i. i < d \<Longrightarrow> a_input_size (stack td' i) = a_input_size (stack td i)"
  shows "rms_rel d td' fs"
  by (rule rms_rel_transfer [OF rel assms(2,3)]) (use assms in \<open>auto simp: rms_rel_def ids_ok_def\<close>)

text \<open>The new activation's timestamp is above every other, whether or not the counter overflows.\<close>

definition fresh_top :: "nat \<Rightarrow> ThreadData \<Rightarrow> bool" where
  "fresh_top d td \<longleftrightarrow> ids_ok (Suc d) td \<and> activation_id (stack td d) < next_activation_id td \<and>
     (\<forall>c. LK_sm (shadow_memory td) c < activation_id (stack td d))"

definition same_but_ids :: "ThreadData \<Rightarrow> ThreadData \<Rightarrow> bool" where
  "same_but_ids td td' \<longleftrightarrow>
     td' = td\<lparr>shadow_memory := shadow_memory td', stack := stack td', next_activation_id := next_activation_id td'\<rparr> \<and>
     res_shift (shadow_memory td') = res_shift (shadow_memory td) \<and>
     (\<forall>i. stack td' i = (stack td i)\<lparr>activation_id := activation_id (stack td' i)\<rparr>)"

lemma sorted_aids: "ids_ok d td \<Longrightarrow> d = unat (stack_depth td) \<Longrightarrow> sorted_wrt (<) (aids td) \<and> (\<forall>a \<in> set (aids td). 0 < a)"
  by (auto simp: ids_ok_def aids_def sorted_wrt_map sorted_wrt_iff_nth_less)

lemma enter_id_rms_ok:
  assumes cur: "current_tdata rt = Some t" "threads rt t = Some td"
    and rel: "rms_rel d td fs" and depth: "unat (stack_depth td) = Suc d"
  shows "\<exists>td'. enter_id_rms rt t (int d) = Inr (put_td rt t td') \<and> rms_rel d td' fs \<and> fresh_top d td' \<and> same_but_ids td td'"
proof -
  let ?n = "next_activation_id td"
  from rel have R: "stack_ok td" "lk_inv (shadow_memory td)" "?n \<noteq> 0" "\<forall>i < d. activation_id (stack td i) < ?n"
    "\<forall>c. LK_sm (shadow_memory td) c < ?n" "ids_ok d td" and F: "frames_ok d td fs" by (simp_all add: rms_rel_def)
  let ?td1 = "(set_act td (int d) ((stack td d)\<lparr>activation_id := ?n\<rparr>))\<lparr>next_activation_id := ?n + 1\<rparr>"
  have act: "get_act td (int d) = Inr (stack td d)" by (rule get_act_in_stack [OF R(1)]) (simp add: depth)
  have n0: "0 < ?n" using R(3) by (simp add: word_gt_0)
  have ids1: "ids_ok (Suc d) ?td1"
    using R(4,6) n0 by (auto simp: ids_ok_def less_Suc_eq)
  have def1: "enter_id_rms rt t (int d) =
      (if ?n + 1 = 0 then bindR (overflow_handler_rms (put_td rt t ?td1)) (\<lambda>(rt2, v). bindR (get_td rt2 t) (\<lambda>td2.
         Inr (put_td rt2 t (td2\<lparr>next_activation_id := v\<rparr>)))) else Inr (put_td rt t ?td1))"
    by (simp add: enter_id_rms_def get_td_def cur act Let_def)
  show ?thesis
  proof (cases "?n + 1 = 0")
    case False
    note lt = word_less_plus_1 [OF False]
    have "rms_rel d ?td1 fs"
      by (rule rms_rel_transfer [OF rel]) (use R False depth in \<open>auto simp: lt stack_ok_def ids_ok_def less_imp_le\<close>)
    moreover have "fresh_top d ?td1"
      using ids1 R(5) by (simp add: fresh_top_def lt)
    moreover have "same_but_ids td ?td1"
      by (simp add: same_but_ids_def set_act_def)
    ultimately show ?thesis using False def1 by auto
  next
    case True
    have ok1: "stack_ok ?td1" "lk_inv (shadow_memory ?td1)"
      and dep1: "unat (stack_depth ?td1) = Suc d" using R(1,2) depth by (simp_all add: stack_ok_def)
    from sorted_aids [OF ids1] dep1 have srt: "sorted_wrt (<) (aids ?td1)" "\<forall>a \<in> set (aids ?td1). 0 < a" by simp_all
    from overflow_handler_rms_ok [of "put_td rt t ?td1" t ?td1, OF _ _ ok1 srt] cur obtain td2 where
      o: "overflow_handler_rms (put_td rt t ?td1) = Inr (put_td rt t td2, stack_depth td + 1)"
      and td2: "td2 = ?td1\<lparr>stack := renumber 0 (Suc d) (stack ?td1), shadow_memory := shadow_memory td2\<rparr>"
      and inv2: "lk_inv (shadow_memory td2)" "res_shift (shadow_memory td2) = res_shift (shadow_memory td)"
      and sm2: "\<forall>c. LK_sm (shadow_memory td2) c \<le> stack_depth td"
      and ord: "\<forall>c i. i < Suc d \<longrightarrow> activation_id (stack td2 i) \<le> LK_sm (shadow_memory td2) c \<longleftrightarrow>
        activation_id (stack ?td1 i) \<le> LK_sm (shadow_memory td) c"
      unfolding dep1 by (auto simp: depth)
    let ?td' = "td2\<lparr>next_activation_id := stack_depth td + 1\<rparr>"
    have small: "Suc d \<le> 16384" using R(1) depth by (simp add: stack_ok_def)
    have st: "stack td2 i = (if i < Suc d then (stack ?td1 i)\<lparr>activation_id := of_nat (i + 1)\<rparr> else stack ?td1 i)" for i
      using arg_cong [OF td2, of stack] by (simp add: renumber_def)
    have fields: "stack_depth td2 = stack_depth td" "max_stack_size td2 = max_stack_size td"
      using arg_cong [OF td2, of stack_depth] arg_cong [OF td2, of max_stack_size] by simp_all
    have id: "unat (activation_id (stack td2 i)) = Suc i" if "i < Suc d" for i
      using that small unat_of_nat32 [of "i + 1"] by (simp add: st)
    have v: "unat (stack_depth td + 1) = Suc (Suc d)" "stack_depth td + 1 \<noteq> 0"
      using small depth unat_of_nat32 [of "Suc (Suc d)"] word_of_unat [OF depth] by (auto simp: add.commute)
    note lt = word_less_plus_1 [OF v(2)]
    have ids2: "ids_ok (Suc d) td2"
      unfolding ids_ok_def word_less_nat_alt by (auto simp: id)
    have top: "LK_sm (shadow_memory td2) c < activation_id (stack td2 d)" for c
      using spec [OF ord, of c, THEN spec, of d] R(5) by (simp add: not_le [symmetric] leD)
    have "rms_rel d ?td' fs"
    proof (rule rms_rel_transfer [OF rel])
      fix i assume i: "i < d"
      show "activation_id (stack ?td' i) < next_activation_id ?td'"
        unfolding word_less_nat_alt using i id [of i] v(1) by simp
      show "a_input_size (stack ?td' i) = a_input_size (stack td i)" using i by (simp add: st)
      fix c
      show "activation_id (stack ?td' i) \<le> LK_sm (shadow_memory ?td') c \<longleftrightarrow>
          activation_id (stack td i) \<le> LK_sm (shadow_memory td) c"
        using spec [OF ord, of c, THEN spec, of i] i by simp
    qed (use R inv2 v sm2 ids2 in \<open>auto simp: stack_ok_def fields depth lt ids_ok_def\<close>)
    moreover have "fresh_top d ?td'"
    proof -
      have "activation_id (stack ?td' d) < next_activation_id ?td'"
        unfolding word_less_nat_alt using id [of d] v(1) by simp
      with ids2 top show ?thesis by (simp add: fresh_top_def ids_ok_def)
    qed
    moreover have "same_but_ids td ?td'"
    proof -
      have "?td' = td\<lparr>shadow_memory := shadow_memory ?td', stack := stack ?td', next_activation_id := next_activation_id ?td'\<rparr>"
        using arg_cong [OF td2, of stack] by (subst td2) (simp add: set_act_def)
      with inv2(2) show ?thesis by (simp add: same_but_ids_def st)
    qed
    moreover have "enter_id_rms rt t (int d) = Inr (put_td rt t ?td')"
      unfolding def1 o if_P [OF True] by simp
    ultimately show ?thesis by blast
  qed
qed

lemma same_but_idsD:
  assumes "same_but_ids td td'"
  shows "stack_depth td' = stack_depth td" "max_stack_size td' = max_stack_size td" "rtn_ht td' = rtn_ht td"
    "t_skip td' = t_skip td" "t_cost td' = t_cost td" "skip_cost td' = skip_cost td"
    "res_shift (shadow_memory td') = res_shift (shadow_memory td)"
    "t_root td' = t_root td" "next_context_id td' = next_context_id td"
    "stack td' i = (stack td i)\<lparr>activation_id := activation_id (stack td' i)\<rparr>"
proof -
  from assms have td: "td' = td\<lparr>shadow_memory := shadow_memory td', stack := stack td', next_activation_id := next_activation_id td'\<rparr>"
    and r: "res_shift (shadow_memory td') = res_shift (shadow_memory td)"
    and st: "stack td' i = (stack td i)\<lparr>activation_id := activation_id (stack td' i)\<rparr>"
    by (auto simp: same_but_ids_def)
  show "stack_depth td' = stack_depth td" using arg_cong [OF td, of stack_depth] by simp
  show "max_stack_size td' = max_stack_size td" using arg_cong [OF td, of max_stack_size] by simp
  show "rtn_ht td' = rtn_ht td" using arg_cong [OF td, of rtn_ht] by simp
  show "t_skip td' = t_skip td" using arg_cong [OF td, of t_skip] by simp
  show "t_cost td' = t_cost td" using arg_cong [OF td, of t_cost] by simp
  show "skip_cost td' = skip_cost td" using arg_cong [OF td, of skip_cost] by simp
  show "t_root td' = t_root td" using arg_cong [OF td, of t_root] by simp
  show "next_context_id td' = next_context_id td" using arg_cong [OF td, of next_context_id] by simp
  show "res_shift (shadow_memory td') = res_shift (shadow_memory td)" by (rule r)
  show "stack td' i = (stack td i)\<lparr>activation_id := activation_id (stack td' i)\<rparr>" by (rule st)
qed

lemma rms_rel_enter:
  assumes rel: "rms_rel d td fs" and top: "fresh_top d td" and zero: "a_input_size (stack td d) = 0"
    and depth: "unat (stack_depth td) = Suc d"
  shows "rms_rel (Suc d) td (spec_enter fs)"
proof -
  have len: "length fs = d" by (rule rms_rel_depth [OF rel])
  from rel have F: "frames_ok d td fs" by (simp add: rms_rel_def)
  have frame: "accessed (spec_enter fs ! i) = {c. activation_id (stack td i) \<le> LK_sm (shadow_memory td) c} \<and>
     read_first (spec_enter fs ! i) \<subseteq> accessed (spec_enter fs ! i) \<and>
     of_nat (rms_value (spec_enter fs ! i)) = (\<Sum>j = i..<Suc d. a_input_size (stack td j))" if i: "i < Suc d" for i
  proof (cases "i = d")
    case True
    have "{c. activation_id (stack td d) \<le> LK_sm (shadow_memory td) c} = {}"
      using top by (auto simp: fresh_top_def dest: leD)
    with True len zero show ?thesis by (simp add: spec_enter_def rms_value_def nth_append)
  next
    case False
    with i have "i < d" by simp
    with F len zero show ?thesis by (auto simp: spec_enter_def nth_append frames_ok_def)
  qed
  have "frames_ok (Suc d) td (spec_enter fs)"
    by (rule frames_okI [OF _ frame]) (use len in \<open>simp_all add: spec_enter_def\<close>)
  with rel top depth show ?thesis by (auto simp: rms_rel_def fresh_top_def less_Suc_eq)
qed

text \<open>What entering a routine leaves unchanged, and what it sets.\<close>

definition entered :: "nat \<Rightarrow> RoutineInfo \<Rightarrow> ThreadData \<Rightarrow> ThreadData \<Rightarrow> bool" where
  "entered d ri td td' \<longleftrightarrow> stack_depth td' = stack_depth td \<and> max_stack_size td' = max_stack_size td \<and>
     t_skip td' = t_skip td \<and> t_cost td' = t_cost td \<and> skip_cost td' = skip_cost td \<and> t_root td' = t_root td \<and>
     res_shift (shadow_memory td') = res_shift (shadow_memory td) \<and> routines_inv td' \<and>
     (\<forall>k. get_ri td' k = (if k = routine_info (stack td d) then Inr (ri\<lparr>recursion_pending := recursion_pending ri + 1\<rparr>)
                          else get_ri td k)) \<and>
     (\<forall>i. i \<noteq> d \<longrightarrow> stack td' i = (stack td i)\<lparr>activation_id := activation_id (stack td' i)\<rparr>) \<and>
     stack td' d = (stack td d)\<lparr>start := aprof_time td, activation_id := activation_id (stack td' d),
       sum_children_cost := 0, a_input_size := 0, node := node (stack td' d),
       cumul_syscall := 0, cumul_thread := 0, self_syscall := 0, self_thread := 0\<rparr>"

definition reset_act :: "Activation \<Rightarrow> Activation" where
  "reset_act a = a\<lparr>sum_children_cost := 0, a_input_size := 0,
     cumul_syscall := 0, cumul_thread := 0, self_syscall := 0, self_thread := 0\<rparr>"

lemma enter_reset_eq:
  assumes "threads rt t = Some td" "get_act td (int d) = Inr (stack td d)"
  shows "enter_reset rt t (int d) = Inr (put_td rt t
    (set_act (upd_ri td (routine_info (stack td d)) (\<lambda>ri. ri\<lparr>recursion_pending := recursion_pending ri + 1\<rparr>))
       (int d) (reset_act (stack td d))))"
  using assms by (simp add: enter_reset_def get_td_def Let_def reset_act_def)

text \<open>The context tree of a thread: its root and the nodes of its activations exist.\<close>

definition cct_ok :: "CCTNode list \<Rightarrow> nat \<Rightarrow> ThreadData \<Rightarrow> bool" where
  "cct_ok cs d td \<longleftrightarrow> cct_inv cs \<and> (\<exists>r. t_root td = Some r \<and> r < length cs) \<and>
     (\<forall>i < d. \<forall>n. node (stack td i) = Some n \<longrightarrow> n < length cs)"

lemma parent_scan_Some: "parent_scan st d = Some n \<Longrightarrow> \<exists>i < d. node (st i) = Some n"
  by (induction d) (auto split: option.splits intro: less_SucI)

lemma parent_CCT_ok:
  assumes "cct_ok cs d td" "unat (stack_depth td) = Suc d"
  shows "\<exists>n. parent_CCT td = Some n \<and> n < length cs"
proof (cases "parent_scan (stack td) (unat (stack_depth td) - 1)")
  case None
  with assms show ?thesis by (auto simp: parent_CCT_def cct_ok_def)
next
  case (Some n)
  with parent_scan_Some [OF this] assms show ?thesis by (fastforce simp: parent_CCT_def cct_ok_def)
qed

lemma enter_cct_ok:
  assumes td: "threads rt t = Some td" and act: "get_act td (int d) = Inr (stack td d)"
    and cct: "cct_ok (ccts rt) d td" and depth: "unat (stack_depth td) = Suc d"
  shows "\<exists>n cs nc. enter_cct rt t (int d) ri =
      Inr ((put_td rt t (td\<lparr>next_context_id := nc, stack := (stack td)(d := (stack td d)\<lparr>node := Some n\<rparr>)\<rparr>))\<lparr>ccts := cs\<rparr>) \<and>
    cct_inv cs \<and> n < length cs \<and> n_routine_id (cs ! n) = routine_id ri \<and> length (ccts rt) \<le> length cs"
proof -
  from parent_CCT_ok [OF cct depth] obtain p where p: "parent_CCT td = Some p" "p < length (ccts rt)" by blast
  have inv: "cct_inv (ccts rt)" using cct by (simp add: cct_ok_def)
  have "\<And>c. first_child (ccts rt ! p) = Some c \<Longrightarrow> c < length (ccts rt) \<and> c < length (ccts rt)"
    using cct_invD(1) [OF inv p(2)] by blast
  from find_child_ok [OF inv this, of "first_child (ccts rt ! p)" "routine_id ri"] obtain r where
    r: "find_child (length (ccts rt)) (ccts rt) (first_child (ccts rt ! p)) (routine_id ri) = Inr r"
    "\<And>n. r = Some n \<Longrightarrow> n < length (ccts rt) \<and> n_routine_id (ccts rt ! n) = routine_id ri" by blast
  show ?thesis
  proof (cases r)
    case (Some n)
    have "enter_cct rt t (int d) ri =
        Inr ((put_td rt t (td\<lparr>next_context_id := next_context_id td,
          stack := (stack td)(d := (stack td d)\<lparr>node := Some n\<rparr>)\<rparr>))\<lparr>ccts := ccts rt\<rparr>)"
      using p r(1) Some td act by (simp add: enter_cct_def get_td_def cct_get_def upd_act_def set_act_def put_td_def)
    with inv r(2) [OF Some] show ?thesis by blast
  next
    case None
    let ?cs = "new_child (ccts rt) p (routine_id ri) (ucast (next_context_id td))"
    have "enter_cct rt t (int d) ri =
        Inr ((put_td rt t (td\<lparr>next_context_id := next_context_id td + 1,
          stack := (stack td)(d := (stack td d)\<lparr>node := Some (length (ccts rt))\<rparr>)\<rparr>))\<lparr>ccts := ?cs\<rparr>)"
      using p r(1) None td act
      by (simp add: enter_cct_def get_td_def cct_get_def upd_act_def set_act_def put_td_def get_act_def Let_def split: if_splits)
    moreover have "length (ccts rt) < length ?cs" "n_routine_id (?cs ! length (ccts rt)) = routine_id ri" "cct_inv ?cs"
      using new_child_nth [OF p(2)] cct_inv_new_child [OF inv p(2)] by simp_all
    ultimately show ?thesis using less_imp_le by blast
  qed
qed

lemma rms_rel_set_top:
  assumes "rms_rel d td fs" shows "rms_rel d (set_act td (int d) a) fs"
  by (rule rms_rel_cong [OF assms]) (use assms in \<open>auto simp: rms_rel_def\<close>)

lemma fresh_top_cong:
  assumes "fresh_top d td" "shadow_memory td' = shadow_memory td" "next_activation_id td' = next_activation_id td"
    "\<And>i. i \<le> d \<Longrightarrow> activation_id (stack td' i) = activation_id (stack td i)"
  shows "fresh_top d td'"
  using assms by (auto simp: fresh_top_def ids_ok_def)

text \<open>Everything \<open>function_enter\<close> does before the context tree.\<close>

lemma enter_body_ok:
  assumes cur: "current_tdata rt = Some t" "threads rt t = Some td"
    and rel: "rms_rel d td fs" and depth: "unat (stack_depth td) = Suc d"
    and inv: "routines_inv td" and ri: "get_ri td (routine_info (stack td d)) = Inr ri"
  shows "\<exists>rt2 td'. enter_id_rms (put_td rt t (set_act td (int d) ((stack td d)\<lparr>start := aprof_time td\<rparr>))) t (int d) = Inr rt2 \<and>
    enter_reset rt2 t (int d) = Inr (put_td rt t td') \<and> entered d ri td td' \<and> rms_rel (Suc d) td' (spec_enter fs) \<and>
    node (stack td' d) = node (stack td d)"
proof -
  let ?td1 = "set_act td (int d) ((stack td d)\<lparr>start := aprof_time td\<rparr>)"
  have ok: "stack_ok td" using rel by (simp add: rms_rel_def)
  obtain td2 where td2: "enter_id_rms (put_td rt t ?td1) t (int d) = Inr (put_td rt t td2)"
    "rms_rel d td2 fs" "fresh_top d td2" "same_but_ids ?td1 td2"
    using enter_id_rms_ok [of "put_td rt t ?td1" t ?td1, OF _ _ rms_rel_set_top [OF rel]] cur depth by auto
  note D = same_but_idsD [OF td2(4)]
  have ri2: "routine_info (stack td2 d) = routine_info (stack td d)" by (subst D(10)) simp
  have ok2: "stack_ok td2" using td2(2) by (simp add: rms_rel_def)
  have act2: "get_act td2 (int d) = Inr (stack td2 d)"
    by (rule get_act_in_stack [OF ok2]) (simp add: D(1) depth)
  let ?u = "upd_ri td2 (routine_info (stack td d)) (\<lambda>ri. ri\<lparr>recursion_pending := recursion_pending ri + 1\<rparr>)"
  let ?td3 = "set_act ?u (int d) (reset_act (stack td2 d))"
  have reset: "enter_reset (put_td rt t td2) t (int d) = Inr (put_td rt t ?td3)"
    using enter_reset_eq [of "put_td rt t td2" t td2 d] act2 by (simp add: ri2)
  have inv2: "routines_inv td2" and get2: "get_ri td2 = get_ri td"
    using routines_inv_cong [of td2 td] get_ri_cong [of td2 td] inv D(3) by simp_all
  have u: "routines_inv ?u" "get_ri ?u k = (if k = routine_info (stack td d) then Inr (ri\<lparr>recursion_pending := recursion_pending ri + 1\<rparr>)
      else get_ri td k)" for k
    using inv2 ri by (simp_all add: inv_intros get_ri_upd_ri get2)
  have st3: "stack ?td3 = (stack td2)(d := reset_act (stack td2 d))" by simp
  have f3: "shadow_memory ?td3 = shadow_memory td2" "next_activation_id ?td3 = next_activation_id td2"
    "stack_depth ?td3 = stack_depth td2" "max_stack_size ?td3 = max_stack_size td2" "rtn_ht ?td3 = rtn_ht ?u"
    "t_skip ?td3 = t_skip td2" "t_cost ?td3 = t_cost td2" "skip_cost ?td3 = skip_cost td2" "t_root ?td3 = t_root td2"
    "stack_ok ?td3 = stack_ok td2"
    by (simp_all add: set_act_def stack_ok_def)
  have rel3: "rms_rel d ?td3 fs"
    by (rule rms_rel_cong [OF td2(2)]) (use ok2 in \<open>simp_all add: f3 st3 D(1) depth\<close>)
  have "rms_rel (Suc d) ?td3 (spec_enter fs)"
  proof (rule rms_rel_enter [OF rel3])
    show "fresh_top d ?td3" by (rule fresh_top_cong [OF td2(3)]) (simp_all add: f3 st3 reset_act_def)
    show "a_input_size (stack ?td3 d) = 0" by (simp add: st3 reset_act_def)
    show "unat (stack_depth ?td3) = Suc d" by (simp add: f3 D(1) depth)
  qed
  moreover have "entered d ri td ?td3"
  proof -
    have other: "stack td2 i = (stack td i)\<lparr>activation_id := activation_id (stack td2 i)\<rparr>" if "i \<noteq> d" for i
      using D(10) [of i] that by simp
    have top: "stack td2 d = (stack td d)\<lparr>start := aprof_time td, activation_id := activation_id (stack td2 d)\<rparr>"
      using D(10) [of d] by simp
    have "reset_act (stack td2 d) = (stack td d)\<lparr>start := aprof_time td, activation_id := activation_id (stack td2 d),
       sum_children_cost := 0, a_input_size := 0, node := node (stack td2 d),
       cumul_syscall := 0, cumul_thread := 0, self_syscall := 0, self_thread := 0\<rparr>"
      by (subst (1) top, subst (2) top) (simp add: reset_act_def)
    then have st: "\<forall>i. i \<noteq> d \<longrightarrow> stack ?td3 i = (stack td i)\<lparr>activation_id := activation_id (stack ?td3 i)\<rparr>"
      "stack ?td3 d = (stack td d)\<lparr>start := aprof_time td, activation_id := activation_id (stack ?td3 d),
       sum_children_cost := 0, a_input_size := 0, node := node (stack ?td3 d),
       cumul_syscall := 0, cumul_thread := 0, self_syscall := 0, self_thread := 0\<rparr>"
      using other by (simp_all add: st3 reset_act_def)
    have g: "get_ri ?td3 = get_ri ?u" "routines_inv ?td3 = routines_inv ?u"
      by (rule get_ri_cong routines_inv_cong; simp)+
    show ?thesis
      unfolding entered_def g using u st D by (simp add: f3(1,3,4,6,7,8,9) st3)
  qed
  moreover have "node (stack ?td3 d) = node (stack td d)"
    using arg_cong [OF D(10) [of d], of node] by (simp add: st3 reset_act_def)
  ultimately show ?thesis using td2(1) reset by blast
qed

lemma enteredD:
  assumes "entered d ri td td'"
  shows "stack_depth td' = stack_depth td" "max_stack_size td' = max_stack_size td" "t_skip td' = t_skip td"
    "t_cost td' = t_cost td" "skip_cost td' = skip_cost td" "t_root td' = t_root td"
    "res_shift (shadow_memory td') = res_shift (shadow_memory td)" "routines_inv td'"
    "get_ri td' k = (if k = routine_info (stack td d) then Inr (ri\<lparr>recursion_pending := recursion_pending ri + 1\<rparr>)
                          else get_ri td k)"
    "i \<noteq> d \<Longrightarrow> stack td' i = (stack td i)\<lparr>activation_id := activation_id (stack td' i)\<rparr>"
    "stack td' d = (stack td d)\<lparr>start := aprof_time td, activation_id := activation_id (stack td' d),
       sum_children_cost := 0, a_input_size := 0, node := node (stack td' d),
       cumul_syscall := 0, cumul_thread := 0, self_syscall := 0, self_thread := 0\<rparr>"
  using assms unfolding entered_def by blast+

lemma entered_node:
  assumes "entered d ri td td'"
  shows "entered d ri td (td'\<lparr>next_context_id := nc, stack := (stack td')(d := (stack td' d)\<lparr>node := n\<rparr>)\<rparr>)" (is "entered d ri td ?td")
proof -
  have g: "get_ri ?td = get_ri td'" "routines_inv ?td = routines_inv td'"
    by (rule get_ri_cong routines_inv_cong; simp)+
  note E = enteredD [OF assms]
  have "stack ?td d = (stack td d)\<lparr>start := aprof_time td, activation_id := activation_id (stack ?td d),
       sum_children_cost := 0, a_input_size := 0, node := node (stack ?td d),
       cumul_syscall := 0, cumul_thread := 0, self_syscall := 0, self_thread := 0\<rparr>"
    using arg_cong [OF E(11), of "\<lambda>a. a\<lparr>node := n\<rparr>"] by simp
  with E show ?thesis unfolding entered_def g by simp
qed

text \<open>Entry to a function that is not skipped, RMS.\<close>

lemma function_enter_rms_ok:
  assumes cur: "current_tdata rt = Some t" "threads rt t = Some td"
    and rel: "rms_rel d td fs" and depth: "unat (stack_depth td) = Suc d"
    and inv: "routines_inv td" and ri: "get_ri td (routine_info (stack td d)) = Inr ri"
    and fn: "fns rt (ri_fn ri) = Some fn" "\<not> fn_skip fn" and skip: "t_skip td = 0"
    and rms: "input_metric (cfg rt) = RMS"
    and cct: "collect_CCT (cfg rt) \<Longrightarrow> cct_ok (ccts rt) d td"
  shows "\<exists>td' cs. function_enter rt t (int d) = Inr ((put_td rt t td')\<lparr>ccts := cs\<rparr>) \<and>
    entered d ri td td' \<and> rms_rel (Suc d) td' (spec_enter fs) \<and>
    (if collect_CCT (cfg rt) \<and> \<not> discard fn
     then cct_ok cs (Suc d) td' \<and> (\<exists>n. node (stack td' d) = Some n \<and> n_routine_id (cs ! n) = routine_id ri)
     else cs = ccts rt)"
proof -
  have ok: "stack_ok td" using rel by (simp add: rms_rel_def)
  have act: "get_act td (int d) = Inr (stack td d)" by (rule get_act_in_stack [OF ok]) (simp add: depth)
  from enter_body_ok [OF cur rel depth inv ri] obtain rt2 td' where b:
    "enter_id_rms (put_td rt t (set_act td (int d) ((stack td d)\<lparr>start := aprof_time td\<rparr>))) t (int d) = Inr rt2"
    "enter_reset rt2 t (int d) = Inr (put_td rt t td')" "entered d ri td td'" "rms_rel (Suc d) td' (spec_enter fs)"
    "node (stack td' d) = node (stack td d)" by blast
  have e: "function_enter rt t (int d) =
      (if \<not> discard fn \<and> collect_CCT (cfg rt) then enter_cct (put_td rt t td') t (int d) ri else Inr (put_td rt t td'))"
    using fn skip rms by (simp add: function_enter_def get_td_def get_fn_def cur act ri b(1,2) Let_def)
  note E = enteredD [OF b(3)]
  show ?thesis
  proof (cases "collect_CCT (cfg rt) \<and> \<not> discard fn")
    case False
    with e have "function_enter rt t (int d) = Inr ((put_td rt t td')\<lparr>ccts := ccts rt\<rparr>)"
      by (auto simp: put_td_def)
    moreover have "if collect_CCT (cfg rt) \<and> \<not> discard fn
     then cct_ok (ccts rt) (Suc d) td' \<and> (\<exists>n. node (stack td' d) = Some n \<and> n_routine_id (ccts rt ! n) = routine_id ri)
     else ccts rt = ccts rt" using False by auto
    ultimately show ?thesis using b(3,4) by blast
  next
    case True
    have depth': "unat (stack_depth td') = Suc d" using depth E(1) by simp
    have node': "node (stack td' i) = node (stack td i)" if "i < d" for i
      using arg_cong [OF E(10) [of i], of node] that by simp
    have cct': "cct_ok (ccts (put_td rt t td')) d td'"
      using cct True E(6) node' by (simp add: cct_ok_def)
    have act': "get_act td' (int d) = Inr (stack td' d)"
      by (rule get_act_in_stack) (use b(4) depth' in \<open>simp_all add: rms_rel_def\<close>)
    from enter_cct_ok [OF put_td_fields(2) act' cct' depth', of ri] obtain n cs nc where
      c: "enter_cct (put_td rt t td') t (int d) ri =
        Inr ((put_td (put_td rt t td') t (td'\<lparr>next_context_id := nc, stack := (stack td')(d := (stack td' d)\<lparr>node := Some n\<rparr>)\<rparr>))\<lparr>ccts := cs\<rparr>)"
      "cct_inv cs" "n < length cs" "n_routine_id (cs ! n) = routine_id ri" "length (ccts rt) \<le> length cs" by auto
    let ?td = "td'\<lparr>next_context_id := nc, stack := (stack td')(d := (stack td' d)\<lparr>node := Some n\<rparr>)\<rparr>"
    have "rms_rel (Suc d) ?td (spec_enter fs)"
      by (rule rms_rel_cong [OF b(4)]) (use b(4) in \<open>auto simp: rms_rel_def stack_ok_def\<close>)
    moreover have "cct_ok cs (Suc d) ?td"
      using cct' c(2,3,5) by (auto simp: cct_ok_def less_Suc_eq)
    moreover have "function_enter rt t (int d) = Inr ((put_td rt t ?td)\<lparr>ccts := cs\<rparr>)"
      using e True c(1) by simp
    ultimately show ?thesis
      using True c(4) entered_node [OF b(3), where nc = nc and n = "Some n"] by (intro exI [of _ ?td] exI [of _ cs]) simp
  qed
qed

section \<open>Exit\<close>

lemma exitedD:
  assumes "exited d cost cumul td td'"
  shows "stack_depth td' = stack_depth td" "max_stack_size td' = max_stack_size td" "t_skip td' = t_skip td"
    "t_cost td' = cost" "skip_cost td' = skip_cost td" "t_root td' = t_root td"
    "shadow_memory td' = shadow_memory td" "next_activation_id td' = next_activation_id td" "routines_inv td'"
    "stack td' = (if d = 0 then stack td
                  else (stack td)(d - 1 := add_to_parent (stack td d) cumul (stack td (d - 1))))"
proof -
  from assms have td: "td' = td\<lparr>t_cost := cost, rtn_ht := rtn_ht td', stack := stack td'\<rparr>"
    and r: "routines_inv td'" and st: "stack td' = (if d = 0 then stack td
                  else (stack td)(d - 1 := add_to_parent (stack td d) cumul (stack td (d - 1))))"
    by (auto simp: exited_def)
  show "stack_depth td' = stack_depth td" using arg_cong [OF td, of stack_depth] by simp
  show "max_stack_size td' = max_stack_size td" using arg_cong [OF td, of max_stack_size] by simp
  show "t_skip td' = t_skip td" using arg_cong [OF td, of t_skip] by simp
  show "t_cost td' = cost" using arg_cong [OF td, of t_cost] by simp
  show "skip_cost td' = skip_cost td" using arg_cong [OF td, of skip_cost] by simp
  show "t_root td' = t_root td" using arg_cong [OF td, of t_root] by simp
  show "shadow_memory td' = shadow_memory td" using arg_cong [OF td, of shadow_memory] by simp
  show "next_activation_id td' = next_activation_id td" using arg_cong [OF td, of next_activation_id] by simp
  show "routines_inv td'" by (rule r)
  show "stack td' = (if d = 0 then stack td
                  else (stack td)(d - 1 := add_to_parent (stack td d) cumul (stack td (d - 1))))" by (rule st)
qed

lemma depth_pred: "unat (w :: u32) = Suc d \<Longrightarrow> unat (w - 1) = d"
  by (subst unat_sub) (simp_all add: word_le_nat_alt)

text \<open>The value filed for an activation is its read memory size (modulo the width of
  \<open>input_size\<close>), and the activations below inherit what they are missing.\<close>

lemma rms_rel_exit:
  assumes rel: "rms_rel (Suc d) td fs" and depth: "unat (stack_depth td) = Suc d" and ex: "exited d cost cumul td td'"
  shows "rms_rel d (td'\<lparr>stack_depth := stack_depth td' - 1\<rparr>) (spec_exit fs)"
    and "a_input_size (stack td d) = of_nat (rms_value (last fs))"
proof -
  note X = exitedD [OF ex]
  have len: "length fs = Suc d" by (rule rms_rel_depth [OF rel])
  from rel have F: "frames_ok (Suc d) td fs" by (simp add: rms_rel_def)
  have F': "accessed (fs ! i) = {c. activation_id (stack td i) \<le> LK_sm (shadow_memory td) c} \<and>
     read_first (fs ! i) \<subseteq> accessed (fs ! i) \<and>
     of_nat (rms_value (fs ! i)) = (\<Sum>j = i..<Suc d. a_input_size (stack td j))" if "i < Suc d" for i
    using F that unfolding frames_ok_def by blast
  have "fs \<noteq> []" using len by auto
  then have "last fs = fs ! d" using len by (simp add: last_conv_nth)
  with F' [of d] show "a_input_size (stack td d) = of_nat (rms_value (last fs))" by simp
  let ?td = "td'\<lparr>stack_depth := stack_depth td' - 1\<rparr>"
  have aid: "activation_id (stack td' i) = activation_id (stack td i)" for i
    by (simp add: X(10) add_to_parent_def)
  have sums: "(\<Sum>j = i..<d. a_input_size (stack td' j)) = (\<Sum>j = i..<Suc d. a_input_size (stack td j))" if i: "i < d" for i
  proof -
    from i obtain n where d: "d = Suc n" by (cases d) auto
    have "(\<Sum>j = i..<n. a_input_size (stack td' j)) = (\<Sum>j = i..<n. a_input_size (stack td j))"
      using d by (intro sum.cong) (auto simp: X(10))
    with i show ?thesis by (simp add: d X(10) add_to_parent_def add.assoc)
  qed
  have nth: "spec_exit fs ! i = fs ! i" if "i < d" for i
    using that len by (simp add: spec_exit_def nth_butlast)
  have e: "shadow_memory ?td = shadow_memory td" "stack ?td = stack td'" by (simp_all add: X(7))
  have frame: "accessed (spec_exit fs ! i) = {c. activation_id (stack ?td i) \<le> LK_sm (shadow_memory ?td) c} \<and>
     read_first (spec_exit fs ! i) \<subseteq> accessed (spec_exit fs ! i) \<and>
     of_nat (rms_value (spec_exit fs ! i)) = (\<Sum>j = i..<d. a_input_size (stack ?td j))" if i: "i < d" for i
    using F' [OF less_SucI [OF i]] unfolding nth [OF i] e aid sums [OF i] .
  have "frames_ok d ?td (spec_exit fs)"
    by (rule frames_okI [OF _ frame]) (simp_all add: spec_exit_def len)
  moreover have "ids_ok d ?td" using rel by (auto simp: rms_rel_def ids_ok_def aid)
  moreover have "stack_ok ?td"
    using rel depth by (auto simp: rms_rel_def stack_ok_def X(1,2) depth_pred)
  ultimately show "rms_rel d ?td (spec_exit fs)"
    using rel by (auto simp: rms_rel_def X(1,7,8) aid depth depth_pred)
qed

end
