(* ===== verification/Files.thy ===== *)
theory Files
  imports Libc
begin

text \<open>
  \<open>fwrite.c\<close>: files with a write buffer.  What the operating system does with a write is the
  parameter \<open>wr\<close>: \<open>wr out chunk\<close> is the result of \<open>VG_(write)\<close> when \<open>out\<close> is what the file
  already holds, the number of bytes taken or a negative error.  \<open>opn\<close> tells whether \<open>VG_(open)\<close>
  creates the file (it fails when the file exists: the flags ask for \<open>O_EXCL\<close>).
\<close>

definition BUFFER_SIZE :: u32 where "BUFFER_SIZE = 32000"

record FILE =
  file_out :: string     \<comment> \<open>what the operating system has taken\<close>
  fw_buffer :: string    \<comment> \<open>\<open>BUFFER_SIZE\<close> characters\<close>
  fw_pos :: u32

type_synonym os_write = "string \<Rightarrow> string \<Rightarrow> int"

definition fopen :: "(string \<Rightarrow> bool) \<Rightarrow> string \<Rightarrow> FILE option" where
  "fopen opn name =
     (if \<not> opn name then None
      else Some \<lparr>file_out = [], fw_buffer = replicate (unat BUFFER_SIZE) NUL, fw_pos = 0\<rparr>)"

text \<open>The result of \<open>VG_(write)\<close> is stored in the unsigned \<open>bf\<close>, so the check \<open>bf >= 0\<close> is
  always true.  A write that takes nothing is repeated for ever.\<close>

fun flush_loop :: "nat \<Rightarrow> os_write \<Rightarrow> string \<Rightarrow> string \<Rightarrow> u32 \<Rightarrow> u32 \<Rightarrow> string res" where
  "flush_loop 0 wr out buf bw sz = Inl Diverges"
| "flush_loop (Suc fuel) wr out buf bw sz =
     (let chunk = take (unat (sz - bw)) (drop (unat bw) buf);
          bf = (of_int (wr out chunk) :: u32);
          out' = out @ take (nat (wr out chunk)) chunk
      in bindR (assertR (0 \<le> bf) ''Error during writing'') (\<lambda>_.
           if bw + bf < sz then flush_loop fuel wr out' buf (bw + bf) sz else Inr out'))"

definition fflush :: "os_write \<Rightarrow> FILE \<Rightarrow> FILE res" where
  "fflush wr f =
     (if fw_pos f = 0 then Inr f
      else bindR (flush_loop (unat (fw_pos f)) wr (file_out f) (fw_buffer f) 0 (fw_pos f))
             (\<lambda>out. Inr (f\<lparr>file_out := out, fw_pos := 0\<rparr>)))"

definition buffer_copy :: "FILE \<Rightarrow> string \<Rightarrow> FILE" where
  "buffer_copy f s = f\<lparr>fw_buffer := take (unat (fw_pos f)) (fw_buffer f) @ s @ drop (unat (fw_pos f) + length s) (fw_buffer f),
     fw_pos := fw_pos f + of_nat (length s)\<rparr>"

fun fwrite_loop :: "nat \<Rightarrow> os_write \<Rightarrow> FILE \<Rightarrow> string \<Rightarrow> FILE res" where
  "fwrite_loop 0 wr f buf = Inl Diverges"
| "fwrite_loop (Suc fuel) wr f buf =
     (if of_nat (length buf) < BUFFER_SIZE - fw_pos f then Inr (buffer_copy f buf)
      else let n = unat (BUFFER_SIZE - fw_pos f)
           in bindR (fflush wr (buffer_copy f (take n buf))) (\<lambda>f'. fwrite_loop fuel wr f' (drop n buf)))"

definition fwrite :: "os_write \<Rightarrow> FILE \<Rightarrow> string \<Rightarrow> FILE res" where
  "fwrite wr f buf = (if buf = [] then Inr f else fwrite_loop (length buf + 2) wr f buf)"

text \<open>Closing returns what the file holds.\<close>

definition fclose :: "os_write \<Rightarrow> FILE \<Rightarrow> string res" where
  "fclose wr f = bindR (fflush wr f) (\<lambda>f'. Inr (file_out f'))"

text \<open>\<open>fprintf\<close>, for a format and arguments that make the text \<open>s\<close>.\<close>

definition fprintf :: "os_write \<Rightarrow> FILE \<Rightarrow> string \<Rightarrow> FILE res" where
  "fprintf wr f s = fwrite wr f (vsnprintf 4096 s)"

section \<open>A file is the text written to it\<close>

text \<open>Specification: the text of a file is what the operating system has and what is buffered.\<close>

definition file_text :: "FILE \<Rightarrow> string" where
  "file_text f = file_out f @ take (unat (fw_pos f)) (fw_buffer f)"

definition file_ok :: "FILE \<Rightarrow> bool" where
  "file_ok f \<longleftrightarrow> length (fw_buffer f) = 32000 \<and> unat (fw_pos f) < 32000"

text \<open>An operating system that takes at least one byte of every write.\<close>

definition writes_ok :: "os_write \<Rightarrow> bool" where
  "writes_ok wr \<longleftrightarrow> (\<forall>out chunk. chunk \<noteq> [] \<longrightarrow> 1 \<le> wr out chunk \<and> wr out chunk \<le> int (length chunk))"

lemma flush_loop_ok:
  assumes wr: "writes_ok wr" and len: "length buf = 32000" "unat sz \<le> 32000"
  shows "unat bw < unat sz \<Longrightarrow> unat sz - unat bw \<le> fuel \<Longrightarrow>
    flush_loop fuel wr out buf bw sz = Inr (out @ take (unat sz - unat bw) (drop (unat bw) buf))"
proof (induction fuel arbitrary: bw out)
  case (Suc fuel)
  have d: "unat (sz - bw) = unat sz - unat bw" using Suc.prems(1) by (simp add: unat_sub word_le_nat_alt)
  let ?c = "take (unat sz - unat bw) (drop (unat bw) buf)"
  have lc: "length ?c = unat sz - unat bw" using len by simp
  then have "?c \<noteq> []" using Suc.prems(1) by auto
  with wr have w: "1 \<le> wr out ?c" "wr out ?c \<le> int (length ?c)" unfolding writes_ok_def by blast+
  define n where "n = nat (wr out ?c)"
  have n: "1 \<le> n" "n \<le> unat sz - unat bw" "wr out ?c = int n" using w unfolding lc n_def by linarith+
  have b: "unat (bw + of_nat n) = unat bw + n"
  proof -
    have "unat (of_nat n :: u32) = n" using n(2) len(2) by (intro unat_of_nat32) simp
    then show ?thesis using n len(2) by (simp add: unat_word_ariths)
  qed
  have e: "flush_loop (Suc fuel) wr out buf bw sz =
      (if unat bw + n < unat sz then flush_loop fuel wr (out @ take n ?c) buf (bw + of_nat n) sz
       else Inr (out @ take n ?c))"
    unfolding flush_loop.simps Let_def d n(3) by (simp add: word_less_nat_alt b)
  show ?case
  proof (cases "unat bw + n < unat sz")
    case True
    have "flush_loop fuel wr (out @ take n ?c) buf (bw + of_nat n) sz =
        Inr ((out @ take n ?c) @ take (unat sz - (unat bw + n)) (drop (unat bw + n) buf))"
      using Suc.IH [of "bw + of_nat n" "out @ take n ?c"] True n Suc.prems(2) by (simp add: b)
    moreover have "take n ?c @ take (unat sz - (unat bw + n)) (drop (unat bw + n) buf) = ?c"
    proof -
      have "take n ?c = take n (drop (unat bw) buf)" using n(2) by (simp add: min_absorb1)
      moreover have "drop (unat bw + n) buf = drop n (drop (unat bw) buf)" by (simp add: add.commute)
      moreover have "n + (unat sz - (unat bw + n)) = unat sz - unat bw" using True by simp
      ultimately show ?thesis using take_add [of n "unat sz - (unat bw + n)" "drop (unat bw) buf"] by metis
    qed
    ultimately show ?thesis using e True by simp
  next
    case False
    then have "n = unat sz - unat bw" using n(2) by simp
    with e False show ?thesis by simp
  qed
qed simp

lemma fflush_ok:
  assumes "writes_ok wr" "length (fw_buffer f) = 32000" "unat (fw_pos f) \<le> 32000"
  shows "\<exists>f'. fflush wr f = Inr f' \<and> file_out f' = file_text f \<and> fw_pos f' = 0 \<and> fw_buffer f' = fw_buffer f"
proof (cases "fw_pos f = 0")
  case False
  then have "0 < unat (fw_pos f)" by (simp add: unat_gt_0)
  with flush_loop_ok [OF assms, of 0 "unat (fw_pos f)" "file_out f"] False show ?thesis
    by (simp add: fflush_def file_text_def)
qed (simp add: fflush_def file_text_def)

lemma buffer_copy_ok:
  assumes "length (fw_buffer f) = 32000" "unat (fw_pos f) + length s \<le> 32000"
  shows "length (fw_buffer (buffer_copy f s)) = 32000" "unat (fw_pos (buffer_copy f s)) = unat (fw_pos f) + length s"
    "file_text (buffer_copy f s) = file_text f @ s"
proof -
  have "unat (of_nat (length s) :: u32) = length s" using assms(2) by (intro unat_of_nat32) simp
  then show p: "unat (fw_pos (buffer_copy f s)) = unat (fw_pos f) + length s"
    using assms(2) by (simp add: buffer_copy_def unat_word_ariths)
  show "length (fw_buffer (buffer_copy f s)) = 32000" using assms by (simp add: buffer_copy_def)
  show "file_text (buffer_copy f s) = file_text f @ s"
    unfolding file_text_def p using assms by (simp add: buffer_copy_def)
qed

lemma fwrite_loop_ok:
  assumes wr: "writes_ok wr"
  shows "file_ok f \<Longrightarrow> length buf < 2 ^ 32 \<Longrightarrow> length buf < fuel \<Longrightarrow>
    \<exists>f'. fwrite_loop fuel wr f buf = Inr f' \<and> file_ok f' \<and> file_text f' = file_text f @ buf"
proof (induction fuel arbitrary: f buf)
  case (Suc fuel)
  then have f: "length (fw_buffer f) = 32000" "unat (fw_pos f) < 32000" by (simp_all add: file_ok_def)
  let ?n = "unat (BUFFER_SIZE - fw_pos f)"
  have n: "?n = 32000 - unat (fw_pos f)" using f by (simp add: BUFFER_SIZE_def unat_sub word_le_nat_alt)
  have l: "unat (of_nat (length buf) :: u32) = length buf" using Suc.prems(2) by (rule unat_of_nat32)
  show ?case
  proof (cases "length buf < ?n")
    case True
    then have "of_nat (length buf) < BUFFER_SIZE - fw_pos f" by (simp only: word_less_nat_alt l)
    moreover from True n have "unat (fw_pos f) + length buf \<le> 32000" "unat (fw_pos f) + length buf < 32000" by simp_all
    ultimately show ?thesis using buffer_copy_ok [OF f(1)] by (auto simp: file_ok_def)
  next
    case False
    then have nl: "\<not> of_nat (length buf) < BUFFER_SIZE - fw_pos f" unfolding word_less_nat_alt l .
    have tk: "length (take ?n buf) = ?n" using False by simp
    have le: "unat (fw_pos f) + length (take ?n buf) \<le> 32000" unfolding tk using f(2) n by simp
    note B = buffer_copy_ok [OF f(1) le]
    have "unat (fw_pos (buffer_copy f (take ?n buf))) \<le> 32000" unfolding B(2) by (rule le)
    from fflush_ok [OF wr B(1) this] obtain f1 where
      f1: "fflush wr (buffer_copy f (take ?n buf)) = Inr f1" "file_out f1 = file_text f @ take ?n buf" "fw_pos f1 = 0"
        "length (fw_buffer f1) = 32000" using B(1,3) by auto
    have "file_ok f1" "file_text f1 = file_text f @ take ?n buf"
      using f1 by (simp_all add: file_ok_def file_text_def)
    moreover have "length (drop ?n buf) < fuel" "length (drop ?n buf) < 2 ^ 32" using Suc.prems(2,3) f(2) n False by simp_all
    ultimately obtain f' where f': "fwrite_loop fuel wr f1 (drop ?n buf) = Inr f'" "file_ok f'"
      "file_text f' = (file_text f @ take ?n buf) @ drop ?n buf" using Suc.IH [of f1 "drop ?n buf"] by auto
    have "fwrite_loop (Suc fuel) wr f buf = Inr f'"
      unfolding fwrite_loop.simps if_not_P [OF nl] Let_def f1(1) bindR_simps by (rule f'(1))
    with f' show ?thesis by simp
  qed
qed simp

text \<open>A sequence of \<open>fprintf\<close> calls, as the report makes them, and the closing of the file.\<close>

definition print_all :: "os_write \<Rightarrow> FILE \<Rightarrow> string list \<Rightarrow> string res" where
  "print_all wr f ls = bindR (foldR (\<lambda>l f. fprintf wr f l) ls f) (fclose wr)"

lemma length_vsnprintf: "length (vsnprintf 4096 s) \<le> 4096"
  by (simp add: vsnprintf_def)

lemma fprintf_ok:
  assumes "writes_ok wr" "file_ok f"
  shows "\<exists>f'. fprintf wr f s = Inr f' \<and> file_ok f' \<and> file_text f' = file_text f @ vsnprintf 4096 s"
  using fwrite_loop_ok [OF assms, of "vsnprintf 4096 s" "length (vsnprintf 4096 s) + 2"] length_vsnprintf [of s] assms
  by (auto simp: fprintf_def fwrite_def)

lemma print_all_ok:
  assumes "writes_ok wr" "file_ok f"
  shows "print_all wr f ls = Inr (file_text f @ concat (map (vsnprintf 4096) ls))"
proof -
  have "\<exists>f'. foldR (\<lambda>l f. fprintf wr f l) ls f = Inr f' \<and> file_ok f' \<and> file_text f' = file_text f @ concat (map (vsnprintf 4096) ls)"
    using assms(2)
  proof (induction ls arbitrary: f)
    case (Cons l ls)
    from fprintf_ok [OF assms(1) Cons.prems, of l] obtain f1 where
      "fprintf wr f l = Inr f1" "file_ok f1" "file_text f1 = file_text f @ vsnprintf 4096 l" by blast
    with Cons.IH [of f1] show ?case by auto
  qed simp
  then obtain f' where f': "foldR (\<lambda>l f. fprintf wr f l) ls f = Inr f'" "file_ok f'"
    "file_text f' = file_text f @ concat (map (vsnprintf 4096) ls)" by blast
  from f'(2) have "length (fw_buffer f') = 32000" "unat (fw_pos f') \<le> 32000" by (simp_all add: file_ok_def)
  from fflush_ok [OF assms(1) this] f' show ?thesis by (auto simp: print_all_def fclose_def)
qed

lemma fopen_ok: "opn name \<Longrightarrow> \<exists>f. fopen opn name = Some f \<and> file_ok f \<and> file_text f = []"
  by (simp add: fopen_def file_ok_def file_text_def BUFFER_SIZE_def)

text \<open>C11. Buffering is invisible: as long as every write of the operating system takes at least one
  byte, printing pieces of fewer than 4096 characters to a new file and closing it ends, and the
  file holds exactly the pieces in order, whatever their sizes and however writes are split.\<close>

theorem file_holds_what_is_printed:
  assumes "writes_ok wr" "fopen opn name = Some f" "\<forall>s \<in> set ls. length s < 4096"
  shows "print_all wr f ls = Inr (concat ls)"
proof -
  from assms(2) have "file_ok f" "file_text f = []"
    by (auto simp: fopen_def file_ok_def file_text_def BUFFER_SIZE_def split: if_splits)
  moreover have "map (vsnprintf 4096) ls = ls" using assms(3) by (simp add: vsnprintf_def map_idI)
  ultimately show ?thesis using print_all_ok [OF assms(1), of f ls] by simp
qed

theorem file_holds_what_is_printed_witness:
  "\<exists>f. fopen (\<lambda>_. True) ''out'' = Some f \<and> print_all (\<lambda>out chunk. 1) f [''ab'', ''c''] = Inr ''abc''"
proof -
  have w: "writes_ok (\<lambda>out chunk. 1)" by (auto simp: writes_ok_def neq_Nil_conv)
  obtain f where f: "fopen (\<lambda>_. True) ''out'' = Some f" by (simp add: fopen_def)
  from file_holds_what_is_printed [OF w f, of "[''ab'', ''c'']"] f show ?thesis by simp
qed



text \<open>C30. A piece that does not fit the 4096 bytes of \<open>fprintf\<close>'s own buffer is cut: its first 4095
  characters are written, followed by a zero byte, and its end (with the newline of a report
  line) is lost.\<close>

theorem fprintf_cuts_long_text:
  assumes "writes_ok wr" "file_ok f" "4096 \<le> length s"
  shows "\<exists>f'. fprintf wr f s = Inr f' \<and> file_ok f' \<and> file_text f' = file_text f @ take 4095 s @ [NUL]"
  using fprintf_ok [OF assms(1,2), of s] assms(3) by (simp add: vsnprintf_def)

theorem fprintf_cuts_long_text_witness:
  "\<exists>f f'. fprintf (\<lambda>out chunk. 1) f (replicate 5000 CHR ''a'' @ [LF]) = Inr f' \<and>
     file_text f' = file_text f @ replicate 4095 CHR ''a'' @ [NUL]"
proof -
  have w: "writes_ok (\<lambda>out chunk. 1)" by (auto simp: writes_ok_def neq_Nil_conv)
  from fopen_ok [of "\<lambda>_. True" "''out''"] obtain f where f: "file_ok f" by auto
  have "take 4095 (replicate 5000 CHR ''a'' @ [LF]) = replicate 4095 CHR ''a''" by simp
  with fprintf_cuts_long_text [OF w f, of "replicate 5000 CHR ''a'' @ [LF]"] show ?thesis by auto
qed

end
