(* ===== verification/Report.thy ===== *)
theory Report
  imports Util CCT Files
begin

text \<open>
  \<open>report.c\<close>: the report of a thread (or, with \<open>single_report\<close>, of the whole run).  What
  \<open>print_report\<close> writes is the list of the texts of its \<open>fprintf\<close> calls; the tables are emptied
  and their records freed on the way.
\<close>

definition REPORT_VERSION :: nat where "REPORT_VERSION = 6"

section \<open>The report file\<close>

text \<open>\<open>VG_(basename)\<close> of a program name.\<close>

definition basename :: "string \<Rightarrow> string" where
  "basename path = (if path = [] then ''.'' else rev (takeWhile (\<lambda>c. c \<noteq> CHR ''/'') (rev path)))"

definition report_name :: "u32 \<Rightarrow> u32 \<Rightarrow> u32 \<Rightarrow> u32 \<Rightarrow> string \<Rightarrow> string" where
  "report_name pid resolution tid attempt prog_name =
     (let attempt' = (if attempt > 0 then attempt + 1024 else attempt)
      in basename prog_name @ ''_'' @ fmt_d pid @ ''_'' @ fmt_u (tid - 1 + attempt') @ ''_'' @ fmt_d resolution @ ''.aprof'')"

text \<open>Without \<open>log_dir\<close> the name is completed by \<open>VG_(expand_file_name)\<close>, the parameter
  \<open>expand\<close>.\<close>

definition report_filename :: "(string \<Rightarrow> string) \<Rightarrow> Config \<Rightarrow> string \<Rightarrow> string" where
  "report_filename expand c name = (case log_dir c of Some d \<Rightarrow> d @ ''/'' @ name | None \<Rightarrow> expand name)"

fun create_report_loop :: "(string \<Rightarrow> bool) \<Rightarrow> (u32 \<Rightarrow> string) \<Rightarrow> nat \<Rightarrow> u32 \<Rightarrow> FILE option \<times> string option" where
  "create_report_loop opn fname 0 attempt = (None, None)"
| "create_report_loop opn fname (Suc n) attempt =
     (case fopen opn (fname attempt) of
        Some f \<Rightarrow> (Some f, Some (fname attempt))
      | None \<Rightarrow> if n = 0 then (None, Some (fname attempt)) else create_report_loop opn fname n (attempt + 1))"

definition create_report :: "(string \<Rightarrow> bool) \<Rightarrow> (string \<Rightarrow> string) \<Rightarrow> u32 \<Rightarrow> Config \<Rightarrow> string \<Rightarrow> u32 \<Rightarrow> FILE option \<times> string option" where
  "create_report opn expand pid c prog_name tid =
     create_report_loop opn
       (\<lambda>attempt. report_filename expand c (report_name pid (memory_resolution c) tid attempt prog_name)) 1024 0"

section \<open>The text\<close>

definition report_header :: "Runtime \<Rightarrow> u64 \<Rightarrow> string list" where
  "report_header r cost =
     [''c -------------------------------------'' @ [LF],
      ''c report generated by aprof (valgrind) '' @ [LF],
      ''c -------------------------------------'' @ [LF],
      ''v '' @ dec_str REPORT_VERSION @ [LF],
      ''k '' @ fmt_llu cost @ [LF],
      ''e '' @ fmt_llu (binary_mtime r) @ [LF],
      ''m bb-count'' @ [LF],
      (if input_metric (cfg r) = RMS then ''i rms'' @ [LF] else ''i drms'' @ [LF]),
      ''t '' @ fmt_d (memory_resolution (cfg r)) @ [LF],
      ''a '' @ application r @ [LF],
      ''f '' @ cmd_line r @ [LF]]"

definition tuple_text :: "Config \<Rightarrow> u32 \<Rightarrow> Input \<Rightarrow> string list" where
  "tuple_text c rid tuple =
     [(if collect_CCT c then ''q '' @ fmt_llu (i_context_id tuple) @ '' '' else ''p '' @ fmt_u rid @ '' ''),
      fmt_llu (i_input_size tuple) @ '' '' @ fmt_llu (min_cumulative_cost tuple) @ '' '' @
        fmt_llu (max_cumulative_cost tuple) @ '' '' @ fmt_llu (sum_cumulative_cost tuple) @ '' '',
      fmt_llu (sqr_cumulative_cost tuple) @ '' '',
      fmt_llu (calls tuple) @ '' '' @ fmt_llu (sum_cumul_real_cost tuple) @ '' '' @ fmt_llu (sum_self_cost tuple) @ '' '' @
        fmt_llu (min_self_cost tuple) @ '' '' @ fmt_llu (max_self_cost tuple) @ '' '',
      fmt_llu (sqr_self_cost tuple)] @
     (if input_metric c = DRMS
      then ['' 0 0 '' @ fmt_llu (sum_cumul_syscall tuple) @ '' '' @ fmt_llu (sum_cumul_thread tuple) @ '' '' @
        fmt_llu (sum_self_syscall tuple) @ '' '' @ fmt_llu (sum_self_thread tuple)]
      else []) @
     [[LF]]"

definition routine_lines :: "Function \<Rightarrow> string \<Rightarrow> u32 \<Rightarrow> string list" where
  "routine_lines fn obj_name rid =
     (''r '' @ [DQ] @ fn_name fn @ [DQ] @ '' '' @ [DQ] @ obj_name @ [DQ] @ '' '' @ fmt_u rid @ [LF]) #
     (case mangled fn of None \<Rightarrow> [] | Some mg \<Rightarrow> [''u '' @ fmt_u rid @ '' '' @ [DQ] @ mg @ [DQ] @ [LF]])"

text \<open>One routine: its lines and, from the table \<open>im\<close> that the loop empties, its tuples.\<close>

definition routine_text :: "Runtime \<Rightarrow> Function \<Rightarrow> u32 \<Rightarrow> Input HashTable res \<Rightarrow> string list res" where
  "routine_text r fn rid im =
     (if \<not> discard fn then
        bindR (case fn_obj fn of None \<Rightarrow> Inr ''NONE''
               | Some i \<Rightarrow> if i < length (objs r) then Inr (o_name (objs r ! i)) else Inl NullDeref) (\<lambda>obj_name.
        bindR im (\<lambda>m.
        bindR (ht_drain (HT_ResetIter m)) (\<lambda>(_, tuples).
          Inr (routine_lines fn obj_name rid @ concat (map (\<lambda>n. tuple_text (cfg r) rid (val n)) tuples)))))
      else Inr [])"

text \<open>With a table of routines (of one thread).\<close>

definition thread_routine_text :: "Runtime \<Rightarrow> RoutineInfo HashNode \<Rightarrow> string list \<Rightarrow> string list res" where
  "thread_routine_text r n ls =
     (let ri = val n in
      bindR (get_fn r (ri_fn ri)) (\<lambda>fn.
      bindR (routine_text r fn (ucast (routine_id ri)) (case input_map ri of
          NoMap \<Rightarrow> Inl NullDeref
        | OwnMap m \<Rightarrow> Inr m
        | FnMap \<Rightarrow> derefR (fn_input_map fn))) (\<lambda>ls'. Inr (ls @ ls'))))"

text \<open>Without one: the functions of \<open>fn_ht\<close>, freed one after the other.\<close>

definition function_text :: "Runtime \<Rightarrow> u64 HashNode \<Rightarrow> string list \<Rightarrow> string list res" where
  "function_text r n ls =
     bindR (get_fn r (val n)) (\<lambda>fn.
     bindR (routine_text r fn (ucast (function_id fn)) (derefR (fn_input_map fn))) (\<lambda>ls'. Inr (ls @ ls')))"

definition cct_text :: "Runtime \<Rightarrow> nat option \<Rightarrow> string list res" where
  "cct_text r root = (if collect_CCT (cfg r) then print_report_CCT (cct_fuel (ccts r)) (ccts r) root 0 else Inr [])"

text \<open>\<open>print_report\<close>: the texts written, and what is left of the tables.\<close>

definition print_report_thread :: "Runtime \<Rightarrow> RoutineInfo HashTable \<Rightarrow> u64 \<Rightarrow> nat option \<Rightarrow> (string list \<times> RoutineInfo HashTable) res" where
  "print_report_thread r h cost root =
     bindR (ht_drain (HT_ResetIter h)) (\<lambda>(h', routines).
     bindR (foldR (thread_routine_text r) routines (report_header r cost)) (\<lambda>ls.
     bindR (cct_text r root) (\<lambda>cs. Inr (ls @ cs, h'))))"

definition print_report_all :: "Runtime \<Rightarrow> u64 \<Rightarrow> nat option \<Rightarrow> (string list \<times> Runtime) res" where
  "print_report_all r cost root =
     bindR (ht_drain (HT_ResetIter (fn_ht r))) (\<lambda>(h', functions).
     bindR (foldR (function_text r) functions (report_header r cost)) (\<lambda>ls.
     bindR (cct_text r root) (\<lambda>cs.
       Inr (ls @ cs, r\<lparr>fn_ht := h', fns := (\<lambda>k. if k \<in> set (map val functions) then None else fns r k)\<rparr>))))"

text \<open>What the environment does for \<open>generate_report\<close>: creating files, expanding names, the process
  id, writing, and (for \<open>load_reports\<close>) reading the reports there are.\<close>

record Env =
  env_opn :: "string \<Rightarrow> bool"
  env_expand :: "string \<Rightarrow> string"
  env_pid :: u32
  env_write :: os_write
  env_load :: "Runtime \<Rightarrow> Runtime res"

definition report_cost :: "ThreadData \<Rightarrow> u64" where
  "report_cost td = aprof_time td - skip_cost td"

text \<open>The report written, if any, is returned as its file name and content.\<close>

definition generate_report :: "Env \<Rightarrow> Runtime \<Rightarrow> nat \<Rightarrow> u32 \<Rightarrow> (Runtime \<times> (string \<times> string) option) res" where
  "generate_report env r t tid =
     bindR (get_td r t) (\<lambda>tdata.
     let cost = report_cost tdata;
         r1 = (if single_report (cfg r) then r\<lparr>extra_cost := extra_cost r + cost\<rparr> else r)
     in if single_report (cfg r) \<and> running_threads r > 1 then Inr (r1, None)
        else let cost' = (if single_report (cfg r) then extra_cost r1 else cost)
        in bindR (if single_report (cfg r) \<and> incremental_report (cfg r) then env_load env r1 else Inr r1) (\<lambda>r2.
           let (file, filename) = create_report (env_opn env) (env_expand env) (env_pid env) (cfg r2) (application r2) tid
           in bindR (case file of None \<Rightarrow> Inl (Assertion ''Report can not be created'') | Some f \<Rightarrow> Inr f) (\<lambda>f.
              bindR (derefR filename) (\<lambda>name.
              bindR (if single_report (cfg r)
                     then print_report_all r2 cost' (t_root tdata)
                     else bindR (print_report_thread r2 (rtn_ht tdata) cost' (t_root tdata)) (\<lambda>(ls, h').
                       Inr (ls, put_td r2 t (tdata\<lparr>rtn_ht := h'\<rparr>)))) (\<lambda>(ls, r3).
              bindR (print_all (env_write env) f ls) (\<lambda>out. Inr (r3, Some (name, out))))))))"

section \<open>The file of a report\<close>

lemma create_report_loop_ok:
  "0 < n \<Longrightarrow> \<exists>f. create_report_loop opn fname n a =
     (case find (\<lambda>i. opn (fname (a + of_nat i))) [0..<n] of
        Some i \<Rightarrow> (Some f, Some (fname (a + of_nat i)))
      | None \<Rightarrow> (None, Some (fname (a + of_nat (n - 1))))) \<and> file_ok f \<and> file_text f = []"
proof (induction n arbitrary: a)
  case (Suc n)
  have F: "find P [0..<Suc m] = (if P 0 then Some 0 else map_option Suc (find (\<lambda>i. P (Suc i)) [0..<m]))" for P m
  proof -
    have "[0..<Suc m] = 0 # map Suc [0..<m]" by (simp add: upt_conv_Cons map_Suc_upt del: upt_Suc)
    moreover have "find P (map Suc xs) = map_option Suc (find (\<lambda>i. P (Suc i)) xs)" for xs by (induction xs) auto
    ultimately show ?thesis by simp
  qed
  show ?case
  proof (cases "opn (fname a)")
    case True
    with fopen_ok [of opn "fname a"] show ?thesis by (auto simp: F simp del: upt_Suc)
  next
    case False
    then have f: "fopen opn (fname a) = None" by (simp add: fopen_def)
    show ?thesis
    proof (cases "n = 0")
      case True
      with f False fopen_ok [of "\<lambda>_. True" "[]"] show ?thesis by (auto simp: F simp del: upt_Suc)
    next
      case False
      with Suc.IH [of "a + 1"] obtain g where g: "create_report_loop opn fname n (a + 1) =
         (case find (\<lambda>i. opn (fname (a + 1 + of_nat i))) [0..<n] of
            Some i \<Rightarrow> (Some g, Some (fname (a + 1 + of_nat i)))
          | None \<Rightarrow> (None, Some (fname (a + 1 + of_nat (n - 1)))))" "file_ok g" "file_text g = []" by auto
      have e: "a + 1 + of_nat i = a + of_nat (Suc i)" for i by simp
      have l: "a + 1 + of_nat (n - 1) = a + (of_nat n :: u32)" using False by (simp add: of_nat_diff Suc_le_eq)
      have "create_report_loop opn fname (Suc n) a = create_report_loop opn fname n (a + 1)" using f False by simp
      with g \<open>\<not> opn (fname a)\<close> show ?thesis
        unfolding g(1) l unfolding e
        by (intro exI [of _ g]) (auto simp: F simp del: upt_Suc of_nat_Suc split: option.splits)
    qed
  qed
qed simp

text \<open>C23. A report never replaces another one: of its 1024 candidate names the first for which the
  file can be created (that is, does not exist) is taken, and the report is refused when there is none.\<close>

theorem create_report_takes_first_free_name:
  "\<exists>f. create_report opn expand pid c prog_name tid =
     (let name = (\<lambda>i. report_filename expand c (report_name pid (memory_resolution c) tid (of_nat i) prog_name))
      in case find (\<lambda>i. opn (name i)) [0..<1024] of
           Some i \<Rightarrow> (Some f, Some (name i)) | None \<Rightarrow> (None, Some (name 1023))) \<and> file_ok f \<and> file_text f = []"
  using create_report_loop_ok [of 1024 opn "\<lambda>attempt. report_filename expand c (report_name pid (memory_resolution c) tid attempt prog_name)" 0]
  by (simp add: create_report_def Let_def cong: option.case_cong)

end
