(* ===== verification/Merge.thy ===== *)
theory Merge
  imports Report
begin

text \<open>
  \<open>merge.c\<close> as the tool is built with it: reports of earlier runs are read back and added to the
  tables of this run (\<open>incremental_report\<close>).  A line is cut into tokens, and each tag has its
  reader.  Warnings only print and are left out.

  Parameters: \<open>addd\<close> is the floating point addition of \<open>ADD_D\<close> (the sum of a \<open>ULong\<close> and of the
  \<open>double\<close> that \<open>VG_(strtod)\<close> reads from a token, with \<open>None\<close> for a failed overflow check);
  \<open>junk\<close> is the comparison of a token with the uninitialised pointer \<open>error\<close> of the tags \<open>k\<close>
  and \<open>v\<close>; \<open>new_ptr\<close> gives the address \<open>VG_(calloc)\<close> returns for a new function.
\<close>

record Libs =
  addd :: "u64 \<Rightarrow> string \<Rightarrow> u64 option"
  junk :: bool
  new_ptr :: "(u64 \<Rightarrow> Function option) \<Rightarrow> u64"

definition DELIM :: char where "DELIM = CHR ''$''"

section \<open>Names of reports\<close>

text \<open>\<open>search_reports\<close>, for the names found in the directory.\<close>

definition is_report_name :: "string \<Rightarrow> bool" where
  "is_report_name d_name \<longleftrightarrow> \<not> length d_name \<le> 7 \<and> drop (length d_name - 6) d_name = ''.aprof''"

definition search_reports :: "string option \<Rightarrow> string list \<Rightarrow> string list" where
  "search_reports path entries =
     (let p = (case path of None \<Rightarrow> ''.'' | Some p \<Rightarrow> p)
      in map (\<lambda>d_name. p @ ''/'' @ d_name) (filter is_report_name entries))"

text \<open>The memory resolution in the name of a report, read backwards; \<open>-1\<close> when there is none.
  \<open>p > rep\<close> says that characters are left in front.\<close>

fun match_back :: "string \<Rightarrow> string \<Rightarrow> string option" where
  "match_back [] p = Some p"
| "match_back (x # xs) [] = None"
| "match_back (x # xs) (c # p) = (if c = x \<and> tl p \<noteq> [] then match_back xs p else None)"

definition get_memory_resolution_report :: "string \<Rightarrow> int" where
  "get_memory_resolution_report report =
     (case match_back ''forpa.'' (rev (basename report)) of
        None \<Rightarrow> -1
      | Some p \<Rightarrow>
          (let rest = dropWhile (\<lambda>c. c \<noteq> CHR ''_'') p
           in if length rest \<le> 1 then -1
              else sint (ucast (fst (strtoull10 (rev (takeWhile (\<lambda>c. c \<noteq> CHR ''_'') p) @ ''.aprof''))) :: u32)))"

section \<open>Tokens of a line\<close>

text \<open>Blanks outside double quotes become delimiters.\<close>

fun put_delim_loop :: "bool \<Rightarrow> string \<Rightarrow> string" where
  "put_delim_loop skip [] = []"
| "put_delim_loop skip (c # s) =
     (if c = CHR '' '' \<and> \<not> skip then DELIM # put_delim_loop skip s
      else if c = DQ then c # put_delim_loop (\<not> skip) s
      else if c = NUL then c # s
      else c # put_delim_loop skip s)"

definition put_delim :: "string \<Rightarrow> string" where
  "put_delim s = put_delim_loop False s"

definition next_token :: "string \<Rightarrow> string \<Rightarrow> (string \<times> string) res" where
  "next_token msg s = (case strtok DELIM s of (None, _) \<Rightarrow> Inl (Assertion msg) | (Some tok, rest) \<Rightarrow> Inr (tok, rest))"

definition next_num :: "string \<Rightarrow> string \<Rightarrow> (u64 \<times> string) res" where
  "next_num msg s = bindR (next_token msg s) (\<lambda>(tok, rest). Inr (fst (strtoull10 tok), rest))"

text \<open>The number of a token whose end pointer is checked: there must be a digit.\<close>

definition next_id :: "string \<Rightarrow> string \<Rightarrow> (u64 \<times> string) res" where
  "next_id msg s = bindR (next_token msg s) (\<lambda>(tok, rest).
     let (n, e) = strtoull10 tok
     in bindR (assertR (\<not> (n = 0 \<and> e = tok)) ''under/over flow'') (\<lambda>_. Inr (n, rest)))"

text \<open>A quoted name: the last and the first character are dropped.\<close>

definition next_name :: "string \<Rightarrow> string \<Rightarrow> (string \<times> string) res" where
  "next_name msg s = bindR (next_token msg s) (\<lambda>(tok, rest).
     let name = drop 1 (butlast tok)
     in bindR (assertR (length name > 0) msg) (\<lambda>_. Inr (name, rest)))"

section \<open>Tuples\<close>

record TupleLine =
  l_size :: u64
  l_min :: u64
  l_max :: u64
  l_sum :: u64
  l_sqr :: string
  l_occ :: u64
  l_real :: u64
  l_self :: u64
  l_self_min :: u64
  l_self_max :: u64
  l_self_sqr :: string
  l_cumul_syscall :: u64
  l_cumul_thread :: u64
  l_self_syscall :: u64
  l_self_thread :: u64

text \<open>The fields that only a DRMS report has; without them the four sums are zero.\<close>

definition parse_drms :: "string \<Rightarrow> (u64 \<times> u64 \<times> u64 \<times> u64) res" where
  "parse_drms s0 = (case strtok DELIM s0 of
     (None, _) \<Rightarrow> Inr (0, 0, 0, 0)
   | (Some _, s1) \<Rightarrow>
       bindR (next_token ''Invalid input_size sum sqr'' s1) (\<lambda>(_, s2).
       bindR (next_num ''Invalid sum cumulative syscall input'' s2) (\<lambda>(cs, s3).
       bindR (next_num ''Invalid sum cumulative thread input'' s3) (\<lambda>(ct, s4).
       bindR (next_num ''Invalid rvms syscall self'' s4) (\<lambda>(ss, s5).
       bindR (next_num ''Invalid rvms thread'' s5) (\<lambda>(st, _).
         Inr (cs, ct, ss, st)))))))"

definition parse_tuple :: "u32 \<Rightarrow> string \<Rightarrow> TupleLine res" where
  "parse_tuple rid s0 =
     bindR (next_id ''Invalid id'' s0) (\<lambda>(rtn, s1).
     bindR (assertR (ucast rid = rtn) ''Routine id mismatch'') (\<lambda>_.
     bindR (next_num ''Invalid input size'' s1) (\<lambda>(isz, s2).
     bindR (next_num ''Invalid min'' s2) (\<lambda>(mn, s3).
     bindR (next_num ''Invalid max'' s3) (\<lambda>(mx, s4).
     bindR (next_num ''Invalid sum'' s4) (\<lambda>(sum, s5).
     bindR (next_token ''Invalid sqr sum'' s5) (\<lambda>(sqr, s6).
     bindR (next_num ''Invalid occ'' s6) (\<lambda>(occ, s7).
     bindR (next_num ''Invalid cumul'' s7) (\<lambda>(rl, s8).
     bindR (next_num ''Invalid self total'' s8) (\<lambda>(self, s9).
     bindR (next_num ''Invalid self min'' s9) (\<lambda>(smin, s10).
     bindR (next_num ''Invalid self max'' s10) (\<lambda>(smax, s11).
     bindR (next_token ''Invalid sqr self'' s11) (\<lambda>(ssqr, s12).
     bindR (parse_drms s12) (\<lambda>(cs, ct, ss, st).
       Inr \<lparr>l_size = isz, l_min = mn, l_max = mx, l_sum = sum, l_sqr = sqr, l_occ = occ, l_real = rl, l_self = self,
            l_self_min = smin, l_self_max = smax, l_self_sqr = ssqr,
            l_cumul_syscall = cs, l_cumul_thread = ct, l_self_syscall = ss, l_self_thread = st\<rparr>))))))))))))))"

definition ADD :: "u64 \<Rightarrow> u64 \<Rightarrow> u64 res" where
  "ADD dest inc = bindR (assertR (dest + inc \<ge> dest) ''overflow'') (\<lambda>_. Inr (dest + inc))"

definition ADD_D :: "Libs \<Rightarrow> u64 \<Rightarrow> string \<Rightarrow> u64 res" where
  "ADD_D lib dest tok = (case addd lib dest tok of None \<Rightarrow> Inl (Assertion ''overflow'') | Some x \<Rightarrow> Inr x)"

text \<open>A tuple that is new to the function.\<close>

definition empty_tuple :: "u64 \<Rightarrow> Input" where
  "empty_tuple isz = \<lparr>i_input_size = isz, i_context_id = 0, calls = 0,
     min_cumulative_cost = - 1, max_cumulative_cost = 0, sum_cumulative_cost = 0,
     min_self_cost = - 1, max_self_cost = 0, sum_self_cost = 0, sum_cumul_real_cost = 0,
     sqr_cumulative_cost = 0, sqr_self_cost = 0, sum_cumul_syscall = 0, sum_cumul_thread = 0,
     sum_self_syscall = 0, sum_self_thread = 0\<rparr>"

definition merge_cumul :: "Libs \<Rightarrow> TupleLine \<Rightarrow> Input \<Rightarrow> Input res" where
  "merge_cumul lib l tuple =
     bindR (ADD (sum_cumulative_cost tuple) (l_sum l)) (\<lambda>sum.
     bindR (ADD_D lib (sqr_cumulative_cost tuple) (l_sqr l)) (\<lambda>sqr.
     bindR (ADD (calls tuple) (l_occ l)) (\<lambda>occ.
       Inr (tuple\<lparr>sum_cumulative_cost := sum, sqr_cumulative_cost := sqr, calls := occ,
         max_cumulative_cost := (if max_cumulative_cost tuple < l_max l then l_max l else max_cumulative_cost tuple),
         min_cumulative_cost := (if min_cumulative_cost tuple > l_min l then l_min l else min_cumulative_cost tuple)\<rparr>))))"

definition merge_self :: "Libs \<Rightarrow> TupleLine \<Rightarrow> Input \<Rightarrow> Input res" where
  "merge_self lib l tuple =
     bindR (ADD (sum_cumul_real_cost tuple) (l_real l)) (\<lambda>rl.
     bindR (ADD (sum_self_cost tuple) (l_self l)) (\<lambda>self.
     bindR (ADD_D lib (sqr_self_cost tuple) (l_self_sqr l)) (\<lambda>ssqr.
     bindR (assertR (rl \<le> sum_cumulative_cost tuple) ''Invalid real sum cost'') (\<lambda>_.
     let tuple' = tuple\<lparr>sum_cumul_real_cost := rl, sum_self_cost := self, sqr_self_cost := ssqr,
         min_self_cost := (if min_self_cost tuple > l_self_min l then l_self_min l else min_self_cost tuple),
         max_self_cost := (if max_self_cost tuple < l_self_max l then l_self_max l else max_self_cost tuple)\<rparr>
     in bindR (assertR (min_self_cost tuple' \<le> min_cumulative_cost tuple' \<and>
                        max_self_cost tuple' \<le> max_cumulative_cost tuple' \<and>
                        sum_self_cost tuple' \<le> sum_cumulative_cost tuple') ''Invalid self'') (\<lambda>_.
        bindR (assertR (max_self_cost tuple' \<ge> min_self_cost tuple') ''Invalid self min/max'') (\<lambda>_.
        bindR (assertR (sum_self_cost tuple' \<ge> max_self_cost tuple') ''Invalid self sum'') (\<lambda>_.
        bindR (assertR (sum_self_cost tuple' \<ge> min_self_cost tuple' * calls tuple') ''Invalid self sum'') (\<lambda>_.
          Inr tuple'))))))))"

definition merge_drms :: "TupleLine \<Rightarrow> Input \<Rightarrow> Input res" where
  "merge_drms l tuple =
     bindR (ADD (sum_cumul_thread tuple) (l_cumul_thread l)) (\<lambda>ct.
     bindR (ADD (sum_cumul_syscall tuple) (l_cumul_syscall l)) (\<lambda>cs.
     bindR (assertR (ct + cs \<le> l_size l * calls tuple) ''invalid rvms syscall/thread'') (\<lambda>_.
     bindR (ADD (sum_self_thread tuple) (l_self_thread l)) (\<lambda>st.
     bindR (ADD (sum_self_syscall tuple) (l_self_syscall l)) (\<lambda>ss.
     bindR (assertR (st + ss \<le> l_size l * calls tuple) ''invalid rvms syscall/thread'') (\<lambda>_.
       Inr (tuple\<lparr>sum_cumul_thread := ct, sum_cumul_syscall := cs, sum_self_thread := st, sum_self_syscall := ss\<rparr>)))))))"

definition merge_input :: "Libs \<Rightarrow> input_metric_t \<Rightarrow> TupleLine \<Rightarrow> Input \<Rightarrow> Input res" where
  "merge_input lib metric l tuple =
     bindR (merge_cumul lib l tuple) (\<lambda>t1.
     bindR (merge_self lib l t1) (\<lambda>t2.
       if metric = DRMS then merge_drms l t2 else Inr t2))"

text \<open>The tuple of a line, found or created in the table of the function and updated there.\<close>

definition merge_table :: "Libs \<Rightarrow> input_metric_t \<Rightarrow> TupleLine \<Rightarrow> Input HashTable \<Rightarrow> Input HashTable res" where
  "merge_table lib metric l m =
     bindR (case HT_lookup m (l_size l) of
              Some n \<Rightarrow> Inr m
            | None \<Rightarrow> HT_add_node m (l_size l) \<lparr>key = l_size l, val = empty_tuple (l_size l)\<rparr>) (\<lambda>m1.
     bindR (derefR (HT_lookup m1 (l_size l))) (\<lambda>n.
     bindR (merge_input lib metric l (val n)) (\<lambda>tuple.
       Inr (HT_modify m1 (l_size l) (\<lambda>_. True) (\<lambda>_. tuple)))))"

section \<open>Lines\<close>

text \<open>The state of a merge: the tables, and what \<open>merge_report\<close> passes by pointer.\<close>

record MState =
  m_rt :: Runtime
  m_curr :: "u64 option"   \<comment> \<open>the current function\<close>
  m_rid :: u32
  m_total :: u64
  m_invalid :: bool

definition reject :: "MState \<Rightarrow> MState" where
  "reject s = s\<lparr>m_curr := None, m_invalid := True\<rparr>"

text \<open>Tag \<open>r\<close>: the function found by its name, or a new one.\<close>

definition new_fn :: "Libs \<Rightarrow> Runtime \<Rightarrow> string \<Rightarrow> (Runtime \<times> u64) res" where
  "new_fn lib rt name =
     (let f = new_ptr lib (fns rt); hash = ucast (str_hash name);
          fn = \<lparr>fn_name = name, fn_obj = None, mangled = None, discard = False, fn_skip = False,
                fn_input_map = Some (HT_construct True), function_id = ucast (next_function_id rt)\<rparr>
      in bindR (HT_add_node (fn_ht rt) hash \<lparr>key = hash, val = f\<rparr>) (\<lambda>h.
         Inr (rt\<lparr>fn_ht := h, fns := (fns rt)(f := Some fn), next_function_id := next_function_id rt + 1\<rparr>, f)))"

definition merge_r :: "Libs \<Rightarrow> string \<Rightarrow> MState \<Rightarrow> MState res" where
  "merge_r lib s0 s =
     bindR (if m_curr s = None
            then bindR (ADD (extra_cost (m_rt s)) (m_total s)) (\<lambda>c. Inr ((m_rt s)\<lparr>extra_cost := c\<rparr>))
            else Inr (m_rt s)) (\<lambda>rt.
     bindR (next_name ''Invalid fn name'' s0) (\<lambda>(name, s1).
     bindR (next_name ''Invalid obj name'' s1) (\<lambda>(obj_name, s2).
     bindR (next_id ''Invalid id'' s2) (\<lambda>(rtn, _).
     bindR (case find_fn rt name of Some f \<Rightarrow> Inr (rt, f) | None \<Rightarrow> new_fn lib rt name) (\<lambda>(rt1, f).
     bindR (get_fn rt1 f) (\<lambda>fn.
     bindR (case fn_obj fn of
              Some _ \<Rightarrow> Inr rt1
            | None \<Rightarrow> bindR (obj_of rt1 obj_name) (\<lambda>(rt2, i).
                Inr (rt2\<lparr>fns := (fns rt2)(f := Some (fn\<lparr>fn_obj := Some i\<rparr>))\<rparr>))) (\<lambda>rt3.
       Inr (s\<lparr>m_rt := rt3, m_curr := Some f, m_rid := ucast rtn\<rparr>))))))))"

definition merge_d :: "string \<Rightarrow> MState \<Rightarrow> MState res" where
  "merge_d s0 s =
     bindR (case m_curr s of None \<Rightarrow> Inl (Assertion ''mangled name without a valid fn'') | Some f \<Rightarrow> Inr f) (\<lambda>f.
     bindR (next_id ''Invalid id'' s0) (\<lambda>(rtn, s1).
     bindR (assertR (rtn > 0) ''Invalid ID'') (\<lambda>_.
     bindR (assertR (ucast (m_rid s) = rtn) ''Routine id mismatch'') (\<lambda>_.
     bindR (next_name ''Invalid mangled name'' s1) (\<lambda>(name, _).
     bindR (get_fn (m_rt s) f) (\<lambda>fn.
     case mangled fn of
       Some mg \<Rightarrow> bindR (assertR (mg = name) ''different mangled'') (\<lambda>_. Inr s)
     | None \<Rightarrow> Inr (s\<lparr>m_rt := (m_rt s)\<lparr>fns := (fns (m_rt s))(f := Some (fn\<lparr>mangled := Some name\<rparr>))\<rparr>\<rparr>)))))))"

definition merge_p :: "Libs \<Rightarrow> string \<Rightarrow> MState \<Rightarrow> MState res" where
  "merge_p lib s0 s =
     bindR (parse_tuple (m_rid s) s0) (\<lambda>l.
     bindR (case m_curr s of None \<Rightarrow> Inl (Assertion ''Invalid routine'') | Some f \<Rightarrow> Inr f) (\<lambda>f.
     bindR (get_fn (m_rt s) f) (\<lambda>fn.
     bindR (derefR (fn_input_map fn)) (\<lambda>m.
     bindR (merge_table lib (input_metric (cfg (m_rt s))) l m) (\<lambda>m'.
       Inr (s\<lparr>m_rt := (m_rt s)\<lparr>fns := (fns (m_rt s))(f := Some (fn\<lparr>fn_input_map := Some m'\<rparr>))\<rparr>\<rparr>))))))"

text \<open>Tag \<open>a\<close>: the tokens joined again; \<open>app_loop\<close> is the loop that fills \<open>app_r\<close> (the fuel is the
  length of the line, every token has a character).\<close>

fun app_loop :: "nat \<Rightarrow> string \<Rightarrow> string option \<times> string \<Rightarrow> string res" where
  "app_loop fuel app_r (None, rest) = Inr app_r"
| "app_loop 0 app_r (Some tok, rest) = Inl Diverges"
| "app_loop (Suc fuel) app_r (Some tok, rest) =
     bindR (assertR (length app_r + length tok + 1 < 1024) ''app name too long'') (\<lambda>_.
       app_loop fuel (app_r @ tok @ '' '') (strtok DELIM rest))"

definition merge_a :: "string \<Rightarrow> MState \<Rightarrow> MState res" where
  "merge_a s0 s =
     bindR (next_token ''invalid app name'' s0) (\<lambda>(tok, rest).
     bindR (assertR (length tok > 0) ''invalid app name'') (\<lambda>_.
     bindR (app_loop (length s0 + 1) [] (Some tok, rest)) (\<lambda>app_r.
       if application (m_rt s) \<noteq> butlast app_r then Inr (reject s) else Inr s)))"

definition merge_k :: "Libs \<Rightarrow> string \<Rightarrow> MState \<Rightarrow> MState res" where
  "merge_k lib s0 s =
     bindR (next_num ''Invalid perf metric'' s0) (\<lambda>(sum, _).
     bindR (assertR (\<not> (sum = 0 \<and> junk lib)) ''under/over flow'') (\<lambda>_.
     bindR (assertR (sum > 0) ''Invalid sum'') (\<lambda>_. Inr (s\<lparr>m_total := sum\<rparr>))))"

definition merge_v :: "Libs \<Rightarrow> string \<Rightarrow> MState \<Rightarrow> MState res" where
  "merge_v lib s0 s =
     bindR (next_num ''Invalid version'' s0) (\<lambda>(ver, _).
     bindR (assertR (\<not> (ver = 0 \<and> junk lib)) ''under/over flow'') (\<lambda>_.
       Inr (if ver \<noteq> of_nat REPORT_VERSION then reject s else s)))"

definition merge_i :: "string \<Rightarrow> MState \<Rightarrow> MState res" where
  "merge_i s0 s =
     bindR (next_token ''Invalid input metric'' s0) (\<lambda>(tok, _).
     let im = (if tok = ''rms'' then RMS else if tok = ''drms'' then DRMS else INVALID);
         rt = m_rt s
     in Inr (if input_metric (cfg rt) = RMS \<or> input_metric (cfg rt) = DRMS
             then (if im \<noteq> input_metric (cfg rt) then reject s else s)
             else s\<lparr>m_rt := rt\<lparr>cfg := (cfg rt)\<lparr>input_metric := im\<rparr>\<rparr>\<rparr>))"

definition merge_t :: "string \<Rightarrow> MState \<Rightarrow> MState res" where
  "merge_t s0 s =
     bindR (next_num ''Invalid memory resolution'' s0) (\<lambda>(n, _).
     let m_res = (ucast n :: u32) in
     bindR (assertR (m_res \<in> {1, 2, 4, 8, 16}) ''Invalid memory resolution'') (\<lambda>_.
     let rt = m_rt s;
         s' = (if memory_resolution (cfg rt) = 0 then s\<lparr>m_rt := rt\<lparr>cfg := (cfg rt)\<lparr>memory_resolution := m_res\<rparr>\<rparr>\<rparr> else s)
     in Inr (if memory_resolution (cfg (m_rt s')) \<noteq> m_res then reject s' else s')))"

definition merge_e :: "string \<Rightarrow> MState \<Rightarrow> MState res" where
  "merge_e s0 s =
     bindR (next_num ''Invalid binary time'' s0) (\<lambda>(bmtime, _).
     let rt = m_rt s; s' = (if binary_mtime rt = 0 then s\<lparr>m_rt := rt\<lparr>binary_mtime := bmtime\<rparr>\<rparr> else s)
     in Inr (if bmtime \<noteq> binary_mtime (m_rt s') then reject s' else s'))"

definition merge_tuple :: "Libs \<Rightarrow> string \<Rightarrow> string \<Rightarrow> MState \<Rightarrow> MState res" where
  "merge_tuple lib report line_input s0 =
     (let s = s0\<lparr>m_invalid := False\<rparr> in
      if length line_input \<le> 0 then Inr s
      else bindR (assertR (length line_input + length report + 1 < 2048) ''line + report too long'') (\<lambda>_.
           bindR (next_token ''Invalid line'' (put_delim line_input)) (\<lambda>(tok, rest).
           let tag = hd tok in
           if tag = CHR ''r'' then merge_r lib rest s
           else if tag = CHR ''d'' then merge_d rest s
           else if tag = CHR ''p'' then merge_p lib rest s
           else if tag = CHR ''a'' then merge_a rest s
           else if tag = CHR ''k'' then merge_k lib rest s
           else if tag = CHR ''v'' then merge_v lib rest s
           else if tag = CHR ''q'' \<or> tag = CHR ''x'' then Inr (reject s)
           else if tag = CHR ''i'' then merge_i rest s
           else if tag = CHR ''t'' then merge_t rest s
           else if tag = CHR ''f'' then Inr s
           else if tag = CHR ''e'' then merge_e rest s
           else if tag = CHR ''c'' \<or> tag = CHR ''m'' \<or> tag = CHR ''u'' then Inr s
           else Inl (Assertion ''Unknown tag''))))"

section \<open>Reports\<close>

text \<open>The loop over the characters read: a line is merged at its newline.  The text of a line goes
  up to its first zero byte.  When the file ends or a line is rejected, the loop stops.\<close>

fun merge_chars :: "Libs \<Rightarrow> string \<Rightarrow> string \<Rightarrow> string \<Rightarrow> MState \<Rightarrow> (string \<times> MState) res" where
  "merge_chars lib report line [] s = Inr (line, s)"
| "merge_chars lib report line (c # cs) s =
     (if c = LF
      then bindR (merge_tuple lib report (takeWhile (\<lambda>c. c \<noteq> NUL) line) s) (\<lambda>s'.
             if m_invalid s' then Inr (line, s') else merge_chars lib report [] cs s')
      else bindR (assertR (length line + 1 < 1024) ''Line too long'') (\<lambda>_. merge_chars lib report (line @ [c]) cs s))"

text \<open>\<open>rd\<close> is the file system: what can be read of a file, and whether a read failed in the end.
  The result tells whether the report was merged.\<close>

definition merge_report :: "Libs \<Rightarrow> (string \<Rightarrow> (string \<times> bool) option) \<Rightarrow> string \<Rightarrow> Runtime \<Rightarrow> (Runtime \<times> bool) res" where
  "merge_report lib rd report rt =
     (if memory_resolution (cfg rt) \<noteq> 0 \<and> (of_int (get_memory_resolution_report report) :: u32) \<noteq> memory_resolution (cfg rt)
      then Inr (rt, False)
      else case rd report of
        None \<Rightarrow> Inr (rt, False)
      | Some (content, failed) \<Rightarrow>
          bindR (merge_chars lib report [] content
                   \<lparr>m_rt = rt, m_curr = None, m_rid = 0, m_total = 0, m_invalid = False\<rparr>) (\<lambda>(line, s).
            if m_invalid s \<or> failed then Inr (m_rt s, False)
            else bindR (merge_tuple lib report (takeWhile (\<lambda>c. c \<noteq> NUL) line) s) (\<lambda>s'.
                 Inr (m_rt s', \<not> m_invalid s'))))"

text \<open>\<open>load_reports\<close>: the reports found are merged one by one; those that were are removed from the
  directory, which the second component lists.\<close>

definition load_reports :: "Libs \<Rightarrow> (string \<Rightarrow> (string \<times> bool) option) \<Rightarrow> string list \<Rightarrow> Runtime \<Rightarrow> (Runtime \<times> string list) res" where
  "load_reports lib rd entries rt =
     foldR (\<lambda>report (rt, unlinked). bindR (merge_report lib rd report rt) (\<lambda>(rt', m).
              Inr (rt', if m then unlinked @ [report] else unlinked)))
       (search_reports (log_dir (cfg rt)) entries) (rt, [])"

section \<open>Reading back what was printed\<close>

lemma put_delim_plain:
  "\<forall>c \<in> set s. c \<noteq> DQ \<and> c \<noteq> NUL \<Longrightarrow> put_delim s = map (\<lambda>c. if c = CHR '' '' then DELIM else c) s"
  unfolding put_delim_def by (induction s) auto

lemma digit_plain:
  assumes "is_dec_digit c"
  shows "c \<noteq> DQ" "c \<noteq> NUL" "c \<noteq> CHR '' ''" "c \<noteq> DELIM" "c \<noteq> LF"
  using assms by (auto simp: is_dec_digit_def DQ_def NUL_def DELIM_def LF_def)

lemma fmt_digits: "c \<in> set (fmt_llu w) \<Longrightarrow> is_dec_digit c" "c \<in> set (fmt_u v) \<Longrightarrow> is_dec_digit c"
  using dec_str_digits by (simp_all add: fmt_llu_def fmt_u_def)

lemma fmt_Nil [simp]: "fmt_llu w \<noteq> []" "fmt_u v \<noteq> []" "[] \<noteq> fmt_llu w" "[] \<noteq> fmt_u v"
  using dec_str_Nil by (simp_all add: fmt_llu_def fmt_u_def not_sym)

text \<open>A number between delimiters is one token, and is read back.\<close>

lemma strtok_digits:
  assumes s: "\<forall>c \<in> set s. is_dec_digit c" "s \<noteq> []"
  shows "strtok DELIM (s @ DELIM # rest) = (Some s, rest)" "strtok DELIM s = (Some s, [])"
    "strtok DELIM (DELIM # s @ DELIM # rest) = (Some s, rest)"
proof -
  have d: "\<forall>c \<in> set s. c \<noteq> DELIM" using s(1) digit_plain by blast
  obtain c s' where c: "s = c # s'" "c \<noteq> DELIM" using s(2) d by (cases s) auto
  have t: "takeWhile (\<lambda>c. c \<noteq> DELIM) (s @ DELIM # rest) = s" "dropWhile (\<lambda>c. c \<noteq> DELIM) (s @ DELIM # rest) = DELIM # rest"
    "takeWhile (\<lambda>c. c \<noteq> DELIM) s = s" "dropWhile (\<lambda>c. c \<noteq> DELIM) s = []"
    using d by (simp_all add: takeWhile_append2 dropWhile_append2)
  have h: "dropWhile (\<lambda>c. c = DELIM) (s @ xs) = s @ xs" for xs using c by simp
  from h [of "DELIM # rest"] t show "strtok DELIM (s @ DELIM # rest) = (Some s, rest)"
    using s(2) by (simp add: strtok_def Let_def)
  from h [of "[]"] show "strtok DELIM s = (Some s, [])" using s(2) by (simp add: strtok_def Let_def t(3,4))
  from h [of "DELIM # rest"] t show "strtok DELIM (DELIM # s @ DELIM # rest) = (Some s, rest)"
    using s(2) by (simp add: strtok_def Let_def)
qed

lemma strtok_empty: "strtok DELIM [] = (None, [])"
  by (simp add: strtok_def)

lemma token_llu:
  "next_token msg (fmt_llu w @ DELIM # rest) = Inr (fmt_llu w, rest)"
  "next_token msg (DELIM # fmt_llu w @ DELIM # rest) = Inr (fmt_llu w, rest)"
  "next_token msg (fmt_llu w) = Inr (fmt_llu w, [])"
  by (simp_all add: next_token_def strtok_digits fmt_digits)

lemma num_llu:
  "next_num msg (fmt_llu w @ DELIM # rest) = Inr (w, rest)"
  "next_num msg (DELIM # fmt_llu w @ DELIM # rest) = Inr (w, rest)"
  "next_num msg (fmt_llu w) = Inr (w, [])"
  using strtoull10_fmt(1) [of "[]" w] by (simp_all add: next_num_def token_llu)

lemma id_u: "next_id msg (fmt_u v @ DELIM # rest) = Inr (ucast v, rest)"
  using strtoull10_fmt(2) [of "[]" v] by (simp add: next_id_def next_token_def strtok_digits fmt_digits)

text \<open>What a tuple is as a line: the sums of squares stay text, since they are read as floating
  point numbers.\<close>

definition line_of :: "input_metric_t \<Rightarrow> Input \<Rightarrow> TupleLine" where
  "line_of metric tp = \<lparr>l_size = i_input_size tp, l_min = min_cumulative_cost tp, l_max = max_cumulative_cost tp,
     l_sum = sum_cumulative_cost tp, l_sqr = fmt_llu (sqr_cumulative_cost tp), l_occ = calls tp,
     l_real = sum_cumul_real_cost tp, l_self = sum_self_cost tp, l_self_min = min_self_cost tp, l_self_max = max_self_cost tp,
     l_self_sqr = fmt_llu (sqr_self_cost tp),
     l_cumul_syscall = (if metric = DRMS then sum_cumul_syscall tp else 0),
     l_cumul_thread = (if metric = DRMS then sum_cumul_thread tp else 0),
     l_self_syscall = (if metric = DRMS then sum_self_syscall tp else 0),
     l_self_thread = (if metric = DRMS then sum_self_thread tp else 0)\<rparr>"

text \<open>The tokens of a printed tuple.\<close>

definition tuple_fields :: "input_metric_t \<Rightarrow> Input \<Rightarrow> string" where
  "tuple_fields metric tp =
     fmt_llu (i_input_size tp) @ DELIM # fmt_llu (min_cumulative_cost tp) @ DELIM # fmt_llu (max_cumulative_cost tp) @ DELIM #
     fmt_llu (sum_cumulative_cost tp) @ DELIM # fmt_llu (sqr_cumulative_cost tp) @ DELIM #
     fmt_llu (calls tp) @ DELIM # fmt_llu (sum_cumul_real_cost tp) @ DELIM # fmt_llu (sum_self_cost tp) @ DELIM #
     fmt_llu (min_self_cost tp) @ DELIM # fmt_llu (max_self_cost tp) @ DELIM # fmt_llu (sqr_self_cost tp) @
     (if metric = DRMS then DELIM # fmt_llu 0 @ DELIM # fmt_llu 0 @ DELIM # fmt_llu (sum_cumul_syscall tp) @ DELIM #
        fmt_llu (sum_cumul_thread tp) @ DELIM # fmt_llu (sum_self_syscall tp) @ DELIM # fmt_llu (sum_self_thread tp) else [])"

lemma parse_tuple_fields:
  "parse_tuple rid (fmt_u rid @ DELIM # tuple_fields metric tp) = Inr (line_of metric tp)"
  by (cases "metric = DRMS")
    (simp_all add: parse_tuple_def id_u num_llu token_llu parse_drms_def tuple_fields_def line_of_def strtok_digits strtok_empty fmt_digits)

lemma fmt_llu_0: "fmt_llu 0 = ''0''"
proof -
  have "char_of (of_char CHR ''0'' :: nat) = CHR ''0''" by (rule char_of_char)
  then have "char_of (48 :: nat) = CHR ''0''" by simp
  then show ?thesis by (simp add: fmt_llu_def dec_str.simps [of 0] digit_char_def)
qed

lemma map_blank_fmt:
  "map (\<lambda>c. if c = CHR '' '' then DELIM else c) (fmt_llu w) = fmt_llu w"
  "map (\<lambda>c. if c = CHR '' '' then DELIM else c) (fmt_u v) = fmt_u v"
  using digit_plain(3) fmt_digits by (fastforce intro: map_idI)+

lemma printed_line:
  assumes "\<not> collect_CCT c"
  shows "\<exists>line rest. concat (tuple_text c rid tp) = line @ [LF] \<and> LF \<notin> set line \<and>
    strtok DELIM (put_delim line) = (Some ''p'', rest) \<and> parse_tuple rid rest = Inr (line_of (input_metric c) tp)"
proof -
  define line where "line = butlast (concat (tuple_text c rid tp))"
  have tx: "concat (tuple_text c rid tp) = line @ [LF]"
    unfolding line_def by (simp add: tuple_text_def butlast_append)
  have chars: "is_dec_digit x \<or> x = CHR '' '' \<or> x = CHR ''p''" if "x \<in> set line" for x
    using that assms fmt_digits
    by (auto simp: line_def tuple_text_def butlast_append is_dec_digit_def split: if_splits)
  have nolf: "LF \<notin> set line" and plain: "\<forall>x \<in> set line. x \<noteq> DQ \<and> x \<noteq> NUL"
    using chars digit_plain by (fastforce simp: LF_def DQ_def NUL_def)+
  have "put_delim line = CHR ''p'' # DELIM # fmt_u rid @ DELIM # tuple_fields (input_metric c) tp"
    unfolding put_delim_plain [OF plain] using assms
    by (cases "input_metric c = DRMS")
      (simp_all add: line_def tuple_text_def butlast_append map_blank_fmt tuple_fields_def fmt_llu_0)
  moreover have "CHR ''p'' \<noteq> DELIM" by (simp add: DELIM_def)
  ultimately have "strtok DELIM (put_delim line) = (Some ''p'', fmt_u rid @ DELIM # tuple_fields (input_metric c) tp)"
    by (simp add: strtok_def)
  with tx nolf parse_tuple_fields show ?thesis by blast
qed

definition sample_tuple :: "u64 \<Rightarrow> Input" where
  "sample_tuple isz = \<lparr>i_input_size = isz, i_context_id = 0, calls = 2,
     min_cumulative_cost = 3, max_cumulative_cost = 7, sum_cumulative_cost = 10,
     min_self_cost = 1, max_self_cost = 4, sum_self_cost = 5, sum_cumul_real_cost = 10,
     sqr_cumulative_cost = 58, sqr_self_cost = 17, sum_cumul_syscall = 0, sum_cumul_thread = 0,
     sum_self_syscall = 0, sum_self_thread = 0\<rparr>"



section \<open>Merging a printed tuple\<close>

text \<open>What the checks of \<open>merge_tuple\<close> ask of a tuple.\<close>

definition consistent :: "input_metric_t \<Rightarrow> Input \<Rightarrow> bool" where
  "consistent metric tp \<longleftrightarrow> sum_cumul_real_cost tp \<le> sum_cumulative_cost tp \<and>
     min_self_cost tp \<le> min_cumulative_cost tp \<and> max_self_cost tp \<le> max_cumulative_cost tp \<and>
     sum_self_cost tp \<le> sum_cumulative_cost tp \<and> min_self_cost tp \<le> max_self_cost tp \<and>
     max_self_cost tp \<le> sum_self_cost tp \<and> min_self_cost tp * calls tp \<le> sum_self_cost tp \<and>
     (metric = DRMS \<longrightarrow>
        sum_cumul_thread tp + sum_cumul_syscall tp \<le> i_input_size tp * calls tp \<and>
        sum_self_thread tp + sum_self_syscall tp \<le> i_input_size tp * calls tp)"

text \<open>The tuple as another run will have it: contexts are not merged, and the sums that only DRMS
  reports have are zero for RMS.\<close>

definition reread :: "input_metric_t \<Rightarrow> Input \<Rightarrow> Input" where
  "reread metric tp = (if metric = DRMS then tp\<lparr>i_context_id := 0\<rparr>
     else tp\<lparr>i_context_id := 0, sum_cumul_syscall := 0, sum_cumul_thread := 0, sum_self_syscall := 0, sum_self_thread := 0\<rparr>)"

lemma max_update: "(if (0 :: u64) < x then x else 0) = x"
  by (simp add: word_gt_0)

lemma min_update: "(if x < (- 1 :: u64) then x else - 1) = x"
  by (simp add: word_order.not_eq_extremum [symmetric])

lemma merge_input_new:
  assumes fp: "\<And>x. addd lib 0 (fmt_llu x) = Some x" and ok: "consistent metric tp"
  shows "merge_input lib metric (line_of metric tp) (empty_tuple (i_input_size tp)) = Inr (reread metric tp)"
proof -
  have "merge_input lib metric (line_of metric tp) (empty_tuple (i_input_size tp)) =
    Inr \<lparr>i_input_size = i_input_size tp, i_context_id = 0, calls = calls tp,
     min_cumulative_cost = min_cumulative_cost tp, max_cumulative_cost = max_cumulative_cost tp,
     sum_cumulative_cost = sum_cumulative_cost tp, min_self_cost = min_self_cost tp, max_self_cost = max_self_cost tp,
     sum_self_cost = sum_self_cost tp, sum_cumul_real_cost = sum_cumul_real_cost tp,
     sqr_cumulative_cost = sqr_cumulative_cost tp, sqr_self_cost = sqr_self_cost tp,
     sum_cumul_syscall = (if metric = DRMS then sum_cumul_syscall tp else 0),
     sum_cumul_thread = (if metric = DRMS then sum_cumul_thread tp else 0),
     sum_self_syscall = (if metric = DRMS then sum_self_syscall tp else 0),
     sum_self_thread = (if metric = DRMS then sum_self_thread tp else 0)\<rparr>"
    using ok fp
    by (cases "metric = DRMS")
      (simp_all add: merge_input_def merge_cumul_def merge_self_def merge_drms_def ADD_def ADD_D_def line_of_def
        empty_tuple_def max_update min_update consistent_def Let_def split del: if_split cong: if_cong)
  also have "\<dots> = Inr (reread metric tp)" by (simp add: reread_def)
  finally show ?thesis .
qed


definition exact_libs :: Libs where
  "exact_libs = \<lparr>addd = (\<lambda>old tok. Some (fst (strtoull10 tok) + old)), junk = False, new_ptr = (\<lambda>_. 1)\<rparr>"


section \<open>Rejected reports\<close>

lemma new_fn_cost: "new_fn lib rt name = Inr (rt', f) \<Longrightarrow> extra_cost rt' = extra_cost rt"
  by (auto simp: new_fn_def Let_def bindR_eq_Inr)

lemma obj_of_cost: "obj_of rt name = Inr (rt', i) \<Longrightarrow> extra_cost rt' = extra_cost rt"
  by (auto simp: obj_of_def Let_def bindR_eq_Inr split: option.splits)

lemma merge_r_cost:
  assumes m: "merge_r lib s0 s = Inr s'" and first: "m_curr s = None"
  shows "extra_cost (m_rt s') = extra_cost (m_rt s) + m_total s"
proof -
  from m first obtain rt1 f fn rt3 where
    a: "(case find_fn ((m_rt s)\<lparr>extra_cost := extra_cost (m_rt s) + m_total s\<rparr>) rt1 of
          Some f \<Rightarrow> Inr ((m_rt s)\<lparr>extra_cost := extra_cost (m_rt s) + m_total s\<rparr>, f)
        | None \<Rightarrow> new_fn lib ((m_rt s)\<lparr>extra_cost := extra_cost (m_rt s) + m_total s\<rparr>) rt1) = Inr (rt3, f)"
    and b: "\<exists>obj rt4. (case fn_obj fn of Some _ \<Rightarrow> Inr rt3
            | None \<Rightarrow> bindR (obj_of rt3 obj) (\<lambda>(rt2, i). Inr (rt2\<lparr>fns := (fns rt2)(f := Some (fn\<lparr>fn_obj := Some i\<rparr>))\<rparr>))) = Inr rt4 \<and>
          m_rt s' = rt4"
    by (fastforce simp: merge_r_def bindR_eq_Inr ADD_def)
  from a have "extra_cost rt3 = extra_cost (m_rt s) + m_total s"
    by (auto split: option.splits dest: new_fn_cost)
  moreover from b obtain obj rt4 where
    c: "(case fn_obj fn of Some _ \<Rightarrow> Inr rt3
       | None \<Rightarrow> bindR (obj_of rt3 obj) (\<lambda>(rt2, i). Inr (rt2\<lparr>fns := (fns rt2)(f := Some (fn\<lparr>fn_obj := Some i\<rparr>))\<rparr>))) = Inr rt4"
      "m_rt s' = rt4" by blast
  from c(1) have "extra_cost rt4 = extra_cost rt3"
    by (auto simp: bindR_eq_Inr split: option.splits dest: obj_of_cost)
  ultimately show ?thesis using c(2) by simp
qed

text \<open>C28. A report that is rejected because it has calling contexts (a line with tag \<open>q\<close>) has by then
  already been counted: the first routine line added the report's total cost to this run's, and the
  rejection does not take it back.\<close>

theorem rejected_report_keeps_its_cost:
  assumes "merge_tuple lib report rl s = Inr s1" "m_curr s = None"
    and "strtok DELIM (put_delim rl) = (Some (CHR ''r'' # x), rest)" "rl \<noteq> []"
    and "strtok DELIM (put_delim ql) = (Some (CHR ''q'' # y), rest')" "ql \<noteq> []" "length ql + length report + 1 < 2048"
  shows "extra_cost (m_rt s1) = extra_cost (m_rt s) + m_total s \<and>
    (\<exists>s2. merge_tuple lib report ql s1 = Inr s2 \<and> m_invalid s2 \<and> m_rt s2 = m_rt s1)"
proof -
  from assms(1,3,4) have "merge_r lib rest (s\<lparr>m_invalid := False\<rparr>) = Inr s1"
    by (simp add: merge_tuple_def next_token_def bindR_eq_Inr)
  from merge_r_cost [OF this] assms(2) have "extra_cost (m_rt s1) = extra_cost (m_rt s) + m_total s" by simp
  moreover have "merge_tuple lib report ql s1 = Inr (reject (s1\<lparr>m_invalid := False\<rparr>))"
    using assms(5-7) by (simp add: merge_tuple_def next_token_def)
  ultimately show ?thesis by (simp add: reject_def)
qed

definition start_merge :: "u64 \<Rightarrow> MState" where
  "start_merge cost = \<lparr>m_rt = \<lparr>cfg = default_params, current_TID = 0, current_tdata = None, running_threads = 0,
     threads = (\<lambda>_. None), bb_ht = None, bbs = [], last_exit = NONE, last_bb = None,
     obj_ht = HT_construct False, objs = [], fn_ht = HT_construct False, fns = (\<lambda>_. None), binary_mtime = 0,
     application = ''a'', cmd_line = ''a'', extra_cost = 0, r_root = None, ccts = [], global_shadow_memory = None,
     global_counter = 0, dl_runtime_resolve_addr = 0, dl_runtime_resolve_length = 0, loaded_report = False,
     next_function_id = 0\<rparr>, m_curr = None, m_rid = 0, m_total = cost, m_invalid = False\<rparr>"

lemma new_fn_ok:
  assumes "ht_inv (fn_ht rt)"
  shows "\<exists>rt' f fn. new_fn lib rt name = Inr (rt', f) \<and> fns rt' f = Some fn \<and> obj_ht rt' = obj_ht rt"
  using HT_add_node_ok [OF assms, of "\<lparr>key = ucast (str_hash name), val = new_ptr lib (fns rt)\<rparr>"]
  by (auto simp: new_fn_def Let_def)

lemma obj_of_ok:
  assumes "ht_inv (obj_ht rt)"
  shows "\<exists>rt' i. obj_of rt name = Inr (rt', i)"
  using HT_add_node_ok [OF assms, of "\<lparr>key = ucast (str_hash name), val = length (objs rt)\<rparr>"]
  by (auto simp: obj_of_def Let_def split: option.split)

lemma find_fn_Some: "find_fn rt name = Some f \<Longrightarrow> \<exists>fn. fns rt f = Some fn"
  by (auto simp: find_fn_def find_Some_iff split: option.splits)

lemma merge_r_ok:
  assumes n: "next_name ''Invalid fn name'' s0 = Inr (name, s1)" "next_name ''Invalid obj name'' s1 = Inr (obj_name, s2)"
      "next_id ''Invalid id'' s2 = Inr (rtn, r)"
    and inv: "ht_inv (fn_ht (m_rt s))" "ht_inv (obj_ht (m_rt s))"
    and cost: "extra_cost (m_rt s) \<le> extra_cost (m_rt s) + m_total s"
  shows "\<exists>s'. merge_r lib s0 s = Inr s'"
proof -
  obtain rt where rt: "(if m_curr s = None
            then bindR (ADD (extra_cost (m_rt s)) (m_total s)) (\<lambda>c. Inr ((m_rt s)\<lparr>extra_cost := c\<rparr>))
            else Inr (m_rt s)) = Inr rt" "fn_ht rt = fn_ht (m_rt s)" "obj_ht rt = obj_ht (m_rt s)"
    using cost by (cases "m_curr s = None") (auto simp: ADD_def)
  obtain rt1 f fn where f: "(case find_fn rt name of Some f \<Rightarrow> Inr (rt, f) | None \<Rightarrow> new_fn lib rt name) = Inr (rt1, f)"
    "fns rt1 f = Some fn" "obj_ht rt1 = obj_ht (m_rt s)"
    using new_fn_ok [of rt lib name] inv rt(2,3) find_fn_Some [of rt name] by (cases "find_fn rt name") auto
  obtain rt2 i where "obj_of rt1 obj_name = Inr (rt2, i)" using obj_of_ok [of rt1 obj_name] inv f(3) by auto
  then have "\<exists>rt3. (case fn_obj fn of
              Some _ \<Rightarrow> Inr rt1
            | None \<Rightarrow> bindR (obj_of rt1 obj_name) (\<lambda>(rt2, i).
                Inr (rt2\<lparr>fns := (fns rt2)(f := Some (fn\<lparr>fn_obj := Some i\<rparr>))\<rparr>))) = Inr rt3"
    by (cases "fn_obj fn") auto
  then show ?thesis
    unfolding merge_r_def rt(1) bindR_simps n prod.case f(1) get_fn_def f(2) derefR_simps by auto
qed

theorem rejected_report_keeps_its_cost_witness:
  "\<exists>s1 s2. merge_tuple exact_libs ''a'' (''r '' @ [DQ] @ ''f'' @ [DQ] @ '' '' @ [DQ] @ ''o'' @ [DQ] @ '' 1'') (start_merge 9) = Inr s1 \<and>
     merge_tuple exact_libs ''a'' ''q 1 8'' s1 = Inr s2 \<and> m_invalid s2 \<and> extra_cost (m_rt s2) = 9"
proof -
  let ?rl = "''r '' @ [DQ] @ ''f'' @ [DQ] @ '' '' @ [DQ] @ ''o'' @ [DQ] @ '' 1''"
  let ?rest = "[DQ] @ ''f'' @ [DQ, DELIM, DQ] @ ''o'' @ [DQ, DELIM] @ ''1''"
  have t: "strtok DELIM (put_delim ?rl) = (Some ''r'', ?rest)"
    by (simp add: put_delim_def strtok_def DQ_def DELIM_def NUL_def)
  have q: "strtok DELIM (put_delim ''q 1 8'') = (Some ''q'', [CHR ''1'', DELIM, CHR ''8''])"
    by (simp add: put_delim_def strtok_def DQ_def DELIM_def NUL_def)
  have n: "next_name ''Invalid fn name'' ?rest = Inr (''f'', [DQ] @ ''o'' @ [DQ, DELIM] @ ''1'')"
    "next_name ''Invalid obj name'' ([DQ] @ ''o'' @ [DQ, DELIM] @ ''1'') = Inr (''o'', ''1'')"
    "next_id ''Invalid id'' ''1'' = Inr (1, [])"
    by (simp_all add: next_name_def next_id_def next_token_def strtok_def DQ_def DELIM_def strtoull10_def isspace_def is_dec_digit_def)
  have "\<exists>s1. merge_r exact_libs ?rest ((start_merge 9)\<lparr>m_invalid := False\<rparr>) = Inr s1"
    by (rule merge_r_ok [OF n]) (simp_all add: start_merge_def HT_construct_ok)
  then obtain s1 where s1: "merge_tuple exact_libs ''a'' ?rl (start_merge 9) = Inr s1"
    using t by (auto simp: merge_tuple_def next_token_def)
  have "m_curr (start_merge 9) = None" "extra_cost (m_rt (start_merge 9)) + m_total (start_merge 9) = 9" "?rl \<noteq> []"
    "''q 1 8'' \<noteq> []" "length ''q 1 8'' + length ''a'' + 1 < 2048" by (simp_all add: start_merge_def)
  from rejected_report_keeps_its_cost [OF s1 this(1) t this(3) q this(4,5)] this(2) s1 show ?thesis by auto
qed

end
