(* ===== verification/Symbols.thy ===== *)
theory Symbols
  imports Util Libc
begin

text \<open>
  The first execution of a basic block (\<open>callstack.c\<close>): \<open>BB_start\<close> asks Valgrind's debug
  information for the function and the object of the block and enters them into the tables.
  What the debug information answers is the record \<open>DebugInfo\<close>, a parameter.
\<close>

section \<open>The runtime linker\<close>

text \<open>A pattern is a list of chunks (start, length) of the code to compare; a chunk of length 0
  ends it.\<close>

record pattern =
  pat_len :: nat
  pat_chunk :: "(nat \<times> nat) list"

definition code_at :: "(u64 \<Rightarrow> nat) \<Rightarrow> u64 \<Rightarrow> nat \<Rightarrow> nat list" where
  "code_at memory addr n = map (\<lambda>i. memory (addr + of_nat i)) [0..<n]"

fun check_chunks :: "(u64 \<Rightarrow> nat) \<Rightarrow> u64 \<Rightarrow> nat list \<Rightarrow> (nat \<times> nat) list \<Rightarrow> bool res" where
  "check_chunks memory addr code [] = Inl OutOfBounds"
| "check_chunks memory addr code ((st, len) # cs) =
     (if len = 0 then Inr True
      else bindR (assertR (len > 2) ''fail check pattern'') (\<lambda>_.
           if code_at memory (addr + of_nat st) len \<noteq> take len (drop st code) then Inr False
           else check_chunks memory addr code cs))"

text \<open>The scan from \<open>addr\<close> to \<open>end_addr\<close>: the first address where the pattern is found.\<close>

fun check_code_loop :: "nat \<Rightarrow> (u64 \<Rightarrow> nat) \<Rightarrow> u64 \<Rightarrow> u64 \<Rightarrow> nat list \<Rightarrow> pattern \<Rightarrow> u64 option res" where
  "check_code_loop 0 memory addr end_addr code pat = Inl Diverges"
| "check_code_loop (Suc fuel) memory addr end_addr code pat =
     (if addr < end_addr
      then bindR (if code_at memory addr (snd (hd (pat_chunk pat))) = take (snd (hd (pat_chunk pat))) code
                  then check_chunks memory addr code (tl (pat_chunk pat)) else Inr False) (\<lambda>found.
           if found then Inr (Some addr) else check_code_loop fuel memory (addr + 1) end_addr code pat)
      else Inr None)"

definition check_code :: "(u64 \<Rightarrow> nat) \<Rightarrow> Runtime \<Rightarrow> u64 \<Rightarrow> u64 \<Rightarrow> nat list \<Rightarrow> pattern \<Rightarrow> (Runtime \<times> bool) res" where
  "check_code memory rt obj_start obj_size code pat =
     bindR (assertR (fst (hd (pat_chunk pat)) = 0 \<and> snd (hd (pat_chunk pat)) > 2) ''Check on chunk pat failed'') (\<lambda>_.
     let end_addr = obj_start + obj_size - of_nat (pat_len pat) in
     bindR (check_code_loop (unat (end_addr - obj_start) + 1) memory obj_start end_addr code pat) (\<lambda>r.
       Inr (case r of
              Some addr \<Rightarrow> (rt\<lparr>dl_runtime_resolve_addr := addr, dl_runtime_resolve_length := int (pat_len pat)\<rparr>, True)
            | None \<Rightarrow> (rt, False))))"

definition resolve_code :: "nat list" where
  "resolve_code = [
    0x48, 0x83, 0xec, 0x38, 0x48, 0x89, 0x04, 0x24,
    0x48, 0x89, 0x4c, 0x24, 0x08, 0x48, 0x89, 0x54, 0x24, 0x10,
    0x48, 0x89, 0x74, 0x24, 0x18, 0x48, 0x89, 0x7c, 0x24, 0x20,
    0x4c, 0x89, 0x44, 0x24, 0x28, 0x4c, 0x89, 0x4c, 0x24, 0x30,
    0x48, 0x8b, 0x74, 0x24, 0x40, 0x49, 0x89, 0xf3,
    0x4c, 0x01, 0xde, 0x4c, 0x01, 0xde, 0x48, 0xc1, 0xe6, 0x03,
    0x48, 0x8b, 0x7c, 0x24, 0x38, 0xe8, 0xee, 0x01, 0x00, 0x00,
    0x49, 0x89, 0xc3, 0x4c, 0x8b, 0x4c, 0x24, 0x30,
    0x4c, 0x8b, 0x44, 0x24, 0x28, 0x48, 0x8b, 0x7c, 0x24, 0x20,
    0x48, 0x8b, 0x74, 0x24, 0x18, 0x48, 0x8b, 0x54, 0x24, 0x10,
    0x48, 0x8b, 0x4c, 0x24, 0x08, 0x48, 0x8b, 0x04, 0x24,
    0x48, 0x83, 0xc4, 0x48, 0x41, 0xff, 0xe3]"

definition resolve_pat :: pattern where
  "resolve_pat = \<lparr>pat_len = 110, pat_chunk = [(0, 62), (66, 44), (110, 0)]\<rparr>"

definition search_runtime_resolve :: "(u64 \<Rightarrow> nat) \<Rightarrow> Runtime \<Rightarrow> string \<Rightarrow> u64 \<Rightarrow> u64 \<Rightarrow> (Runtime \<times> bool) res" where
  "search_runtime_resolve memory rt obj_name obj_start obj_size =
     (if take 7 obj_name \<noteq> ''/lib/ld'' \<and> take 9 obj_name \<noteq> ''/lib64/ld'' then Inr (rt, False)
      else check_code memory rt obj_start obj_size resolve_code resolve_pat)"

section \<open>Debug information\<close>

record DebugInfo =
  sect_kind :: "u64 \<Rightarrow> VgSectKind"
  fnname_if_entry :: "u64 \<Rightarrow> string option"
  fnname :: "u64 \<Rightarrow> string option"
  fnname_mangled :: "u64 \<Rightarrow> string option"
  di_object :: "u64 \<Rightarrow> (string option \<times> u64 \<times> u64) option"  \<comment> \<open>file name, start and size of the text\<close>
  di_memory :: "u64 \<Rightarrow> nat"                  \<comment> \<open>the code of the program\<close>
  di_new_fn :: "(u64 \<Rightarrow> Function option) \<Rightarrow> u64"   \<comment> \<open>the address of a new function\<close>

fun hex_str :: "nat \<Rightarrow> string" where
  "hex_str n = (let d = (''0123456789ABCDEF'' ! (n mod 16)) in if n < 16 then [d] else hex_str (n div 16) @ [d])"

declare hex_str.simps [simp del]

definition fmt_p :: "u64 \<Rightarrow> string" where "fmt_p w = ''0x'' @ hex_str (unat w)"

section \<open>A new basic block\<close>

text \<open>\<open>get_BB\<close>: the block of the table, or a new one that is not in it yet.\<close>

definition new_BB :: "BB" where
  "new_BB = \<lparr>bb_key = 0, instr_offset = 0, exit = BB_INIT, obj_section = Vg_SectUnknown,
     is_dl_runtime_resolve = False, is_entry = False, bb_fn = None\<rparr>"

definition get_BB :: "Runtime \<Rightarrow> u64 \<Rightarrow> (Runtime \<times> nat) res" where
  "get_BB rt target = bindR (derefR (bb_ht rt)) (\<lambda>h. case HT_lookup h target of
     Some n \<Rightarrow> Inr (rt, val n)
   | None \<Rightarrow> Inr (rt\<lparr>bbs := bbs rt @ [new_BB]\<rparr>, length (bbs rt)))"

definition get_bb :: "Runtime \<Rightarrow> nat \<Rightarrow> BB res" where
  "get_bb rt b = (if b < length (bbs rt) then Inr (bbs rt ! b) else Inl NullDeref)"

definition put_bb :: "Runtime \<Rightarrow> nat \<Rightarrow> BB \<Rightarrow> Runtime" where
  "put_bb rt b bb = rt\<lparr>bbs := (bbs rt)[b := bb]\<rparr>"

text \<open>The name of the function: whether it is known to be entered here, and what it is called.\<close>

definition bb_fn_name :: "DebugInfo \<Rightarrow> Runtime \<Rightarrow> u64 \<Rightarrow> BB \<Rightarrow> Runtime \<times> BB \<times> string option" where
  "bb_fn_name di rt target bb =
     (let entry = (fnname_if_entry di target \<noteq> None);
          name = (if entry then fnname_if_entry di target else fnname di target);
          bb1 = bb\<lparr>bb_key := target, obj_section := sect_kind di target, is_entry := entry\<rparr>
      in if name = Some ''(below main)'' then (rt, bb1, Some ''below_main'')
         else if name = Some ''_dl_runtime_resolve''
              then (rt\<lparr>dl_runtime_resolve_addr := 1\<rparr>, bb1\<lparr>is_dl_runtime_resolve := True\<rparr>, name)
         else (rt, bb1, name))"

text \<open>The object, asked for only when the function is unknown or has none.\<close>

definition bb_object :: "DebugInfo \<Rightarrow> Runtime \<Rightarrow> u64 \<Rightarrow> (Runtime \<times> nat option \<times> string option) res" where
  "bb_object di rt target =
     (case di_object di target of
        None \<Rightarrow> Inr (rt, None, None)
      | Some (None, _) \<Rightarrow> Inr (rt, None, None)
      | Some (Some obj_name, _) \<Rightarrow> bindR (obj_of rt obj_name) (\<lambda>(rt', i). Inr (rt', Some i, Some obj_name)))"

text \<open>The search for the runtime linker's resolver in a newly entered object.\<close>

definition bb_search_resolve :: "DebugInfo \<Rightarrow> Runtime \<Rightarrow> u64 \<Rightarrow> BB \<Rightarrow> nat option \<Rightarrow> nat option \<Rightarrow> string option \<Rightarrow> (Runtime \<times> bool) res" where
  "bb_search_resolve di rt target bb b_last obj obj_name =
     (if dl_runtime_resolve_addr rt = 0 \<and> \<not> is_dl_runtime_resolve bb \<and> obj_name \<noteq> None \<and> b_last \<noteq> None
      then bindR (get_bb rt (the b_last)) (\<lambda>lb.
           bindR (derefR (bb_fn lb)) (\<lambda>f.
           bindR (get_fn rt f) (\<lambda>lfn.
             if obj \<noteq> fn_obj lfn
             then (let (st, sz) = (case di_object di target of Some (_, st, sz) \<Rightarrow> (st, sz) | None \<Rightarrow> (0, 0))
                   in search_runtime_resolve (di_memory di) rt (the obj_name) st sz)
             else Inr (rt, False))))
      else Inr (rt, False))"

definition in_resolve :: "Runtime \<Rightarrow> u64 \<Rightarrow> BB \<Rightarrow> bool" where
  "in_resolve rt target bb \<longleftrightarrow> \<not> is_dl_runtime_resolve bb \<and> dl_runtime_resolve_addr rt > 1 \<and>
     target \<ge> dl_runtime_resolve_addr rt \<and>
     target < dl_runtime_resolve_addr rt + of_int (dl_runtime_resolve_length rt)"

definition unknown_name :: "BB \<Rightarrow> string" where
  "unknown_name bb = (if obj_section bb = Vg_SectPLT then ''PLT_'' @ fmt_p (bb_key bb) else fmt_p (bb_key bb))"

text \<open>The function of the block when the first search found none: a second search if the name has
  changed, else a new function.\<close>

definition new_function :: "DebugInfo \<Rightarrow> Runtime \<Rightarrow> u64 \<Rightarrow> string \<Rightarrow> bool \<Rightarrow> nat option \<Rightarrow> (Runtime \<times> u64) res" where
  "new_function di rt k name unknown obj =
     (let f = di_new_fn di (fns rt); hash = (ucast (str_hash name) :: u64);
          fn0 = \<lparr>fn_name = name, fn_obj = obj, mangled = None, discard = unknown, fn_skip = False,
                 fn_input_map = None, function_id = 0\<rparr>;
          mg = map_option (\<lambda>m. if m = ''(below main)'' then ''below_main'' else m) (fnname_mangled di k);
          fn = (if unknown then fn0
                else fn0\<lparr>fn_input_map := (if single_report (cfg rt) then Some (HT_construct True) else None),
                         function_id := ucast (next_function_id rt),
                         mangled := (if mg = Some name then None else mg)\<rparr>);
          rt1 = (if unknown then rt else rt\<lparr>next_function_id := next_function_id rt + 1\<rparr>)
      in bindR (HT_add_node (fn_ht rt1) hash \<lparr>key = hash, val = f\<rparr>) (\<lambda>h.
         Inr (rt1\<lparr>fn_ht := h, fns := (fns rt1)(f := Some fn)\<rparr>, f)))"

definition bb_function :: "DebugInfo \<Rightarrow> Runtime \<Rightarrow> u64 \<Rightarrow> u32 \<Rightarrow> string \<Rightarrow> bool \<Rightarrow> nat option \<Rightarrow> (Runtime \<times> u64) res" where
  "bb_function di rt k hash name unknown obj =
     (case (if hash \<noteq> str_hash name then find_fn rt name else None) of
        Some f \<Rightarrow> Inr (rt, f)
      | None \<Rightarrow> new_function di rt k name unknown obj)"

text \<open>The whole of it.\<close>

definition bb_create :: "DebugInfo \<Rightarrow> Runtime \<Rightarrow> u64 \<Rightarrow> nat \<Rightarrow> nat option \<Rightarrow> Runtime res" where
  "bb_create di rt target b b_last =
     bindR (get_bb rt b) (\<lambda>bb0.
     let (rt1, bb1, name1) = bb_fn_name di rt target bb0;
         hash = (case name1 of Some n \<Rightarrow> str_hash n | None \<Rightarrow> 0);
         f1 = (case name1 of Some n \<Rightarrow> find_fn rt1 n | None \<Rightarrow> None)
     in bindR (case f1 of None \<Rightarrow> Inr True | Some f \<Rightarrow> bindR (get_fn rt1 f) (\<lambda>fn. Inr (fn_obj fn = None))) (\<lambda>need_obj.
        bindR (if need_obj
               then bindR (bb_object di rt1 target) (\<lambda>(rt2, obj, obj_name).
                    bindR (bb_search_resolve di rt2 target bb1 b_last obj obj_name) (\<lambda>(rt3, found).
                    Inr (rt3, obj, found)))
               else Inr (rt1, None, False)) (\<lambda>(rt3, obj, found).
        let bb2 = (if found then bb1\<lparr>is_dl_runtime_resolve := True\<rparr> else bb1);
            name2 = (if found then Some ''_dl_runtime_resolve'' else name1);
            inside = in_resolve rt3 target bb2;
            bb3 = (if inside then bb2\<lparr>is_dl_runtime_resolve := True\<rparr> else bb2);
            name3 = (if inside then Some ''_dl_runtime_resolve'' else name2);
            unknown = (name3 = None);
            name4 = (case name3 of Some n \<Rightarrow> n | None \<Rightarrow> unknown_name bb3)
        in bindR (case f1 of Some f \<Rightarrow> Inr (rt3, f)
                  | None \<Rightarrow> bb_function di rt3 target hash name4 unknown obj) (\<lambda>(rt4, f).
           bindR (get_fn rt4 f) (\<lambda>fn.
           let rt5 = (if is_dl_runtime_resolve bb3 then rt4\<lparr>fns := (fns rt4)(f := Some (fn\<lparr>fn_skip := True\<rparr>))\<rparr> else rt4);
               bb4 = bb3\<lparr>bb_fn := Some f, instr_offset := 0\<rparr>
           in bindR (derefR (bb_ht rt5)) (\<lambda>h.
              bindR (HT_add_node h (bb_key bb4) \<lparr>key = bb_key bb4, val = b\<rparr>) (\<lambda>h'.
                Inr ((put_bb rt5 b bb4)\<lparr>bb_ht := Some h'\<rparr>))))))))"

end
