(* ===== verification/Callstack.thy ===== *)
theory Callstack
  imports Functions
begin

text \<open>
  \<open>callstack.c\<close>: the shadow stack of a thread.  Its activations are pushed when a call is
  recognised and popped when the stack pointer leaves their frame.
\<close>

section \<open>Push\<close>

definition push_stack :: "Runtime \<Rightarrow> nat \<Rightarrow> u64 \<Rightarrow> u64 \<Rightarrow> Runtime res" where
  "push_stack rt t csp f =
     bindR (get_td rt t) (\<lambda>td0.
     let depth = stack_depth td0 + 1 in
     bindR (get_activation (td0\<lparr>stack_depth := depth\<rparr>) depth) (\<lambda>(td1, p).
     bindR (if HT_lookup (rtn_ht td1) f = None then new_routine_info (put_td rt t td1) t f f
            else Inr (put_td rt t td1)) (\<lambda>rt2.
     bindR (upd_act rt2 t p (\<lambda>a. a\<lparr>sp := csp, routine_info := f, ret_addr := 0\<rparr>)) (\<lambda>rt3.
     function_enter rt3 t p))))"

section \<open>Pop\<close>

text \<open>One iteration of the loops of \<open>pop_stack\<close> and \<open>unwind_stack\<close>.\<close>

definition pop_one :: "Runtime \<Rightarrow> nat \<Rightarrow> aptr \<Rightarrow> Runtime res" where
  "pop_one rt t current =
     bindR (function_exit rt t current) (\<lambda>rt1.
     bindR (get_td rt1 t) (\<lambda>td.
     bindR (assertR (stack_depth td > 0) ''Invalid stack depth'') (\<lambda>_.
       Inr (put_td rt1 t (td\<lparr>stack_depth := stack_depth td - 1\<rparr>)))))"

text \<open>The loop of \<open>pop_stack\<close>; every iteration lowers the stack depth, which bounds the fuel.\<close>

fun pop_loop :: "nat \<Rightarrow> Runtime \<Rightarrow> nat \<Rightarrow> u64 \<Rightarrow> u32 \<Rightarrow> aptr \<Rightarrow> u32 \<Rightarrow> (Runtime \<times> u32) res" where
  "pop_loop fuel rt t csp n_frames current n_pop =
     bindR (get_td rt t) (\<lambda>td.
       if stack_depth td = 0 then Inr (rt, n_pop)
       else bindR (get_act td current) (\<lambda>a.
         if csp > sp a \<or> (csp = sp a \<and> n_frames > 0)
         then (case fuel of 0 \<Rightarrow> Inl Diverges
               | Suc fuel' \<Rightarrow> bindR (pop_one rt t current) (\<lambda>rt1.
                   pop_loop fuel' rt1 t csp (if n_frames > 0 then n_frames - 1 else n_frames) (current - 1) (n_pop + 1)))
         else Inr (rt, n_pop)))"

declare pop_loop.simps [simp del]

definition pop_stack :: "Runtime \<Rightarrow> nat \<Rightarrow> u64 \<Rightarrow> u32 \<Rightarrow> aptr \<Rightarrow> (Runtime \<times> u32) res" where
  "pop_stack rt t csp n_frames current =
     bindR (get_td rt t) (\<lambda>td. pop_loop (unat (stack_depth td)) rt t csp n_frames current 0)"

fun unwind_loop :: "nat \<Rightarrow> Runtime \<Rightarrow> nat \<Rightarrow> Runtime res" where
  "unwind_loop fuel rt t =
     bindR (get_td rt t) (\<lambda>td.
       if stack_depth td = 0 then Inr rt
       else (case fuel of 0 \<Rightarrow> Inl Diverges
         | Suc fuel' \<Rightarrow> bindR (pop_one rt t (get_activation_noresize (stack_depth td))) (\<lambda>rt1.
             unwind_loop fuel' rt1 t)))"

declare unwind_loop.simps [simp del]

definition unwind_stack :: "Runtime \<Rightarrow> nat \<Rightarrow> Runtime res" where
  "unwind_stack rt t = bindR (get_td rt t) (\<lambda>td. unwind_loop (unat (stack_depth td)) rt t)"

end
