(* ===== verification/BBStart.thy ===== *)
theory BBStart
  imports Callstack Symbols
begin

text \<open>
  \<open>BB_start\<close> (\<open>callstack.c\<close>): what happens when a basic block starts.  From how the last block of
  the thread ended and from the stack pointer it decides whether routines were called or have
  returned, and brings the shadow stack up to date.  The stack pointer \<open>csp\<close> is a parameter
  (\<open>VG_(get_SP)\<close>), as is the debug information \<open>di\<close> (theory Symbols).
\<close>

text \<open>Which frames a return leaves when the stack pointer has not moved: activations with that same
  stack pointer down to the one whose return address this block is, or none.  The C loop looks at
  the activation below the lowest one before it checks that there is one.\<close>

fun ret_frames :: "ThreadData \<Rightarrow> u64 \<Rightarrow> u64 \<Rightarrow> nat \<Rightarrow> aptr \<Rightarrow> u32 \<Rightarrow> u32 res" where
  "ret_frames td target csp depth c n_pop =
     bindR (get_act td c) (\<lambda>a.
       if ret_addr a = target then Inr n_pop
       else (case depth of
               0 \<Rightarrow> Inr 0
             | Suc d \<Rightarrow> bindR (get_act td (c - 1)) (\<lambda>a'.
                 if sp a' = csp then ret_frames td target csp d (c - 1) (n_pop + 1) else Inr 0)))"

declare ret_frames.simps [simp del]

text \<open>Is the end of the last block, a return instruction, a real return?  The result is the number of
  frames to leave, whether it is taken for a call, and the exit that counts.\<close>

definition real_return :: "ThreadData \<Rightarrow> jump_t \<Rightarrow> u64 \<Rightarrow> u64 \<Rightarrow> aptr option \<Rightarrow> (u32 \<times> bool \<times> jump_t) res" where
  "real_return td ex target csp current =
     (if ex = BBRET
      then bindR (derefR current) (\<lambda>p. bindR (get_act td p) (\<lambda>a.
           bindR (if csp < sp a then Inr 0
                  else if csp = sp a then ret_frames td target csp (unat (stack_depth td)) p 1
                  else Inr 1) (\<lambda>n_pop.
             Inr (if n_pop = 0 then (n_pop, True, BBOTHER) else (n_pop, False, ex)))))
      else Inr (1, False, ex))"

text \<open>A jump that is taken for a call: into another object or section, to the first block of a
  function, or by a return that is none.  If the resolver of the runtime linker did it, the resolver
  is left first.\<close>

record Jump =
  j_exit :: jump_t
  j_csp :: u64
  j_current :: "aptr option"
  j_emulated :: bool

definition is_call :: "Runtime \<Rightarrow> BB \<Rightarrow> BB \<Rightarrow> bool \<Rightarrow> bool res" where
  "is_call rt bb lb ret_as_call =
     bindR (bindR (derefR (bb_fn bb)) (get_fn rt)) (\<lambda>fn.
     bindR (bindR (derefR (bb_fn lb)) (get_fn rt)) (\<lambda>lfn.
       Inr (ret_as_call \<or> fn_obj fn \<noteq> fn_obj lfn \<or> obj_section bb \<noteq> obj_section lb \<or> is_entry bb)))"

definition leave_resolver :: "Runtime \<Rightarrow> nat \<Rightarrow> aptr \<Rightarrow> (Runtime \<times> u64 \<times> aptr) res" where
  "leave_resolver rt t p =
     bindR (get_td rt t) (\<lambda>td. bindR (get_act td p) (\<lambda>a.
     bindR (function_exit rt t p) (\<lambda>rt1.
     bindR (get_td rt1 t) (\<lambda>td1.
     let td2 = td1\<lparr>stack_depth := stack_depth td1 - 1\<rparr>
     in Inr (put_td rt1 t td2, sp a, get_activation_noresize (stack_depth td2))))))"

definition emulate_call :: "Runtime \<Rightarrow> nat \<Rightarrow> BB \<Rightarrow> BB option \<Rightarrow> bool \<Rightarrow> Jump \<Rightarrow> (Runtime \<times> Jump) res" where
  "emulate_call rt t bb lastb ret_as_call j =
     (case lastb of
        None \<Rightarrow> Inr (rt, j)
      | Some lb \<Rightarrow>
          if j_exit j = BBCALL \<or> j_exit j = BBRET then Inr (rt, j)
          else bindR (is_call rt bb lb ret_as_call) (\<lambda>c.
            if c then
              bindR (get_td rt t) (\<lambda>td.
                if stack_depth td > 0 \<and> is_dl_runtime_resolve lb
                then bindR (derefR (j_current j)) (\<lambda>p. bindR (leave_resolver rt t p) (\<lambda>(rt1, csp, p').
                     Inr (rt1, j\<lparr>j_exit := BBCALL, j_csp := csp, j_current := Some p', j_emulated := True\<rparr>)))
                else Inr (rt, j\<lparr>j_exit := BBCALL, j_emulated := True\<rparr>))
            else Inr (rt, j)))"

text \<open>The adjustment of the stack.  A stack pointer above that of the top activation means returns,
  whatever the block ended with: then nothing is called.\<close>

definition call_block :: "Runtime \<Rightarrow> nat \<Rightarrow> BB \<Rightarrow> BB option \<Rightarrow> Jump \<Rightarrow> Runtime res" where
  "call_block rt t bb lastb j =
     bindR (get_td rt t) (\<lambda>td.
     bindR (if j_emulated j \<and> stack_depth td > 0
            then bindR (derefR (j_current j)) (\<lambda>p. bindR (get_act td p) (\<lambda>a. Inr (sp a)))
            else Inr (j_csp j)) (\<lambda>csp.
     bindR (case lastb of
              Some lb \<Rightarrow> if stack_depth td > 0 \<and> exit lb = BBCALL
                then bindR (derefR (j_current j)) (\<lambda>p. upd_act rt t p (\<lambda>a. a\<lparr>ret_addr := bb_key lb + ucast (instr_offset lb)\<rparr>))
                else Inr rt
            | None \<Rightarrow> Inr rt) (\<lambda>rt1.
     bindR (derefR (bb_fn bb)) (\<lambda>f. push_stack rt1 t csp f))))"

definition adjust_stack :: "Runtime \<Rightarrow> nat \<Rightarrow> BB \<Rightarrow> BB option \<Rightarrow> u32 \<Rightarrow> Jump \<Rightarrow> Runtime res" where
  "adjust_stack rt t bb lastb n_pop j =
     (if j_exit j = BBRET
      then bindR (derefR (j_current j)) (\<lambda>p. bindR (pop_stack rt t (j_csp j) n_pop p) (\<lambda>(rt1, _). Inr rt1))
      else
        bindR (get_td rt t) (\<lambda>td.
        bindR (if stack_depth td > 0
               then bindR (derefR (j_current j)) (\<lambda>p. bindR (pop_stack rt t (j_csp j) 0 p) (\<lambda>(rt1, n).
                    Inr (rt1, if n > 0 then BBRET else j_exit j)))
               else Inr (rt, j_exit j)) (\<lambda>(rt1, ex).
          if ex = BBCALL then call_block rt1 t bb lastb j else Inr rt1)))"

definition BB_start :: "DebugInfo \<Rightarrow> u64 \<Rightarrow> Runtime \<Rightarrow> u64 \<Rightarrow> nat \<Rightarrow> Runtime res" where
  "BB_start di csp rt0 target b =
     bindR (derefR (current_tdata rt0)) (\<lambda>t.
     bindR (get_td rt0 t) (\<lambda>td0.
     let rt1 = put_td rt0 t (td0\<lparr>t_cost := t_cost td0 + 1\<rparr>);
         b_last = t_last_bb td0;
         ex = (if b_last \<noteq> None then last_exit rt1 else NONE)
     in bindR (get_bb rt1 b) (\<lambda>bb0.
        bindR (if bb_key bb0 = 0 then bb_create di rt1 target b b_last else Inr rt1) (\<lambda>rt2.
        bindR (get_bb rt2 b) (\<lambda>bb.
        bindR (case b_last of None \<Rightarrow> Inr None | Some l \<Rightarrow> bindR (get_bb rt2 l) (\<lambda>lb. Inr (Some lb))) (\<lambda>lastb.
        bindR (get_td rt2 t) (\<lambda>td.
        let current = (if stack_depth td > 0 then Some (get_activation_noresize (stack_depth td)) else None)
        in bindR (real_return td ex target csp current) (\<lambda>(n_pop, ret_as_call, ex').
           bindR (emulate_call rt2 t bb lastb ret_as_call
                    \<lparr>j_exit = ex', j_csp = csp, j_current = current, j_emulated = False\<rparr>) (\<lambda>(rt3, j).
           bindR (adjust_stack rt3 t bb lastb n_pop j) (\<lambda>rt4.
           bindR (get_td rt4 t) (\<lambda>td4.
             Inr ((put_td rt4 t (td4\<lparr>t_last_bb := Some b\<rparr>))\<lparr>last_exit := BBOTHER\<rparr>))))))))))))"

end
