(* ===== verification/Threads.thy ===== *)
theory Threads
  imports Callstack Report
begin

text \<open>
  \<open>thread.c\<close>, and the initialisation and finalisation of \<open>main.c\<close>: the data of the client's
  threads.  A thread's data sits in the slot \<open>tid - 1\<close> of \<open>threads\<close>; the environment of the
  reports written at the exit of a thread is the parameter \<open>env\<close> (theory Report).
\<close>

section \<open>Initialisation\<close>

text \<open>The command line, as the loop of \<open>init\<close> puts it together in 4096 bytes.\<close>

fun build_cmd_line :: "string \<Rightarrow> string list \<Rightarrow> string res" where
  "build_cmd_line s [] = Inr s"
| "build_cmd_line s (c # cs) =
     bindR (assertR (length (s @ '' '' @ c) < 4096) ''command line too long'') (\<lambda>_. build_cmd_line (s @ '' '' @ c) cs)"

text \<open>\<open>exename\<close> and \<open>args\<close> are the program and its arguments, \<open>mtime\<close> the time its file was changed.\<close>

definition init :: "Config \<Rightarrow> string \<Rightarrow> string list \<Rightarrow> u64 \<Rightarrow> Runtime res" where
  "init c exename args mtime =
     bindR (assertR (input_metric c = RMS \<or> input_metric c = DRMS) ''Invalid input size metric'') (\<lambda>_.
     bindR (if input_metric c = DRMS then bindR (LK_create (memory_resolution c)) (\<lambda>g. Inr (Some g)) else Inr None) (\<lambda>g.
     bindR (build_cmd_line exename args) (\<lambda>cmd.
       Inr \<lparr>cfg = c, current_TID = VG_INVALID_THREADID, current_tdata = None, running_threads = 0,
         threads = (\<lambda>_. None), bb_ht = (if function_tracing c then Some (HT_construct True) else None), bbs = [],
         last_exit = NONE, last_bb = None, obj_ht = HT_construct True, objs = [],
         fn_ht = HT_construct True, fns = (\<lambda>_. None), binary_mtime = mtime, application = exename, cmd_line = cmd,
         extra_cost = 0, r_root = (if collect_CCT c \<and> single_report c then Some 0 else None),
         ccts = (if collect_CCT c \<and> single_report c then [empty_node] else []),
         global_shadow_memory = g, global_counter = 1, dl_runtime_resolve_addr = 0, dl_runtime_resolve_length = 0,
         loaded_report = False, next_function_id = 0\<rparr>)))"

section \<open>Start of a thread\<close>

definition zero_activation :: Activation where
  "zero_activation = \<lparr>start = 0, sum_children_cost = 0, a_input_size = 0, routine_info = 0, activation_id = 0,
     node = None, sp = 0, ret_addr = 0, cumul_syscall = 0, cumul_thread = 0, self_syscall = 0, self_thread = 0\<rparr>"

definition tid_slot :: "u32 \<Rightarrow> nat" where
  "tid_slot tid = unat (tid - 1)"

definition slot_ok :: "u32 \<Rightarrow> unit res" where
  "slot_ok tid = (if tid_slot tid < VG_N_THREADS then Inr () else Inl OutOfBounds)"

definition thread_start :: "Runtime \<Rightarrow> u32 \<Rightarrow> Runtime res" where
  "thread_start rt tid =
     bindR (LK_create (memory_resolution (cfg rt))) (\<lambda>lk.
     let own = collect_CCT (cfg rt) \<and> \<not> single_report (cfg rt);
         tdata = \<lparr>shadow_memory = lk, rtn_ht = HT_construct True, t_cost = 0, stack_depth = 0,
           stack = (\<lambda>_. zero_activation), max_stack_size = STACK_SIZE, t_last_bb = None, t_last_exit = NONE,
           next_routine_id = 0, t_skip = 0, skip_cost = 0, next_activation_id = 1,
           t_root = (if own then Some (length (ccts rt)) else if collect_CCT (cfg rt) then r_root rt else None),
           next_context_id = 1\<rparr>
     in bindR (slot_ok tid) (\<lambda>_.
        Inr ((put_td rt (tid_slot tid) tdata)
               \<lparr>ccts := (if own then ccts rt @ [empty_node] else ccts rt), running_threads := running_threads rt + 1\<rparr>)))"

definition thread_create :: "Runtime \<Rightarrow> u32 \<Rightarrow> u32 \<Rightarrow> Runtime res" where
  "thread_create rt tid child = thread_start rt child"

section \<open>Switch\<close>

definition increase_global_counter :: "Runtime \<Rightarrow> Runtime res" where
  "increase_global_counter rt =
     (let rt1 = rt\<lparr>global_counter := global_counter rt + 1\<rparr>
      in if global_counter rt1 = MAX_COUNT_VAL
         then bindR (overflow_handler_drms rt1) (\<lambda>(rt2, v). Inr (rt2\<lparr>global_counter := v\<rparr>))
         else Inr rt1)"

definition thread_switch :: "Runtime \<Rightarrow> u32 \<Rightarrow> Runtime res" where
  "thread_switch rt tid =
     (if tid = current_TID rt then Inr rt
      else
        bindR (case current_tdata rt of
                 None \<Rightarrow> Inr rt
               | Some t \<Rightarrow> bindR (get_td rt t) (\<lambda>td. Inr (put_td rt t (td\<lparr>t_last_exit := last_exit rt\<rparr>)))) (\<lambda>rt1.
        let rt2 = rt1\<lparr>current_TID := tid\<rparr> in
        if tid = VG_INVALID_THREADID then Inr (rt2\<lparr>current_tdata := None\<rparr>)
        else
          bindR (if input_metric (cfg rt2) = DRMS then increase_global_counter rt2 else Inr rt2) (\<lambda>rt3.
          bindR (slot_ok tid) (\<lambda>_.
          bindR (if threads rt3 (tid_slot tid) = None then thread_start rt3 tid else Inr rt3) (\<lambda>rt4.
          let rt5 = rt4\<lparr>current_tdata := Some (tid_slot tid)\<rparr> in
          bindR (get_td rt5 (tid_slot tid)) (\<lambda>td. Inr (rt5\<lparr>last_exit := t_last_exit td\<rparr>)))))))"

section \<open>Exit\<close>

text \<open>The result has the report written, if any, and the nodes of the calling context tree handed to
  \<open>free\<close>.\<close>

definition thread_exit :: "Env \<Rightarrow> Runtime \<Rightarrow> u32 \<Rightarrow> (Runtime \<times> (string \<times> string) option \<times> nat list) res" where
  "thread_exit env rt tid =
     bindR (slot_ok tid) (\<lambda>_.
     let t = tid_slot tid in
     bindR (get_td rt t) (\<lambda>_.
     bindR (unwind_stack rt t) (\<lambda>rt1.
     bindR (generate_report env rt1 t tid) (\<lambda>(rt2, report).
     bindR (get_td rt2 t) (\<lambda>td.
     bindR (if collect_CCT (cfg rt2) then free_CCT (cct_fuel (ccts rt2)) (ccts rt2) (t_root td) else Inr []) (\<lambda>freed.
       Inr (rt2\<lparr>threads := (threads rt2)(t := None), current_TID := VG_INVALID_THREADID, current_tdata := None,
                running_threads := running_threads rt2 - 1\<rparr>, report, freed)))))))"

definition kill_threads :: "Env \<Rightarrow> Runtime \<Rightarrow> (Runtime \<times> (string \<times> string) list) res" where
  "kill_threads env rt =
     foldR (\<lambda>i (rt, reports).
       if threads rt i \<noteq> None
       then bindR (thread_exit env rt (of_nat i + 1)) (\<lambda>(rt', report, _).
              Inr (rt', case report of Some r \<Rightarrow> reports @ [r] | None \<Rightarrow> reports))
       else Inr (rt, reports)) [0..<VG_N_THREADS] (rt, [])"

text \<open>\<open>fini\<close>: after the threads, the tables are freed; what remains of the run are its reports.\<close>

definition fini :: "Env \<Rightarrow> Runtime \<Rightarrow> (Runtime \<times> (string \<times> string) list) res" where
  "fini env rt = bindR (kill_threads env rt) (\<lambda>(rt', reports).
     Inr (rt'\<lparr>bb_ht := (if function_tracing (cfg rt') then None else bb_ht rt'), fns := (\<lambda>_. None), objs := [],
        global_shadow_memory := (if input_metric (cfg rt') = DRMS then None else global_shadow_memory rt')\<rparr>, reports))"

end
