(* ===== verification/Profile.thy ===== *)
theory Profile
  imports RMS Threads
begin

text \<open>
  The profile of a run.  A run of one thread is a sequence of events: a call recognised by the
  tracer, a return, a memory access, a basic block executed.  The specification keeps the pending
  calls with their cells (theory RMS) and costs, what is ignored because a skipped function is
  active, and a log of the completed calls.  The theory shows that the tool's state simulates it:
  in particular the tuple tables summarise exactly the log.
\<close>

section \<open>Specification\<close>

record call =
  c_fn :: u64
  c_start :: u64
  c_children :: u64
  c_frame :: frame

type_synonym entry = "u64 \<times> u32 \<times> Sample"

record world =
  tracked :: "call list"
  ignored :: "(u64 \<times> u64) list"
  clock :: u64
  w_skip :: u64
  log :: "entry list"

datatype event = Enter u64 u64 | Exit | Access access_t u64 nat | Tick

definition now :: "world \<Rightarrow> u64" where
  "now w = clock w - w_skip w"

definition skips :: "(u64 \<Rightarrow> Function option) \<Rightarrow> u64 \<Rightarrow> bool" where
  "skips F f = (case F f of Some fn \<Rightarrow> fn_skip fn | None \<Rightarrow> False)"

definition discards :: "(u64 \<Rightarrow> Function option) \<Rightarrow> u64 \<Rightarrow> bool" where
  "discards F f = (case F f of Some fn \<Rightarrow> discard fn | None \<Rightarrow> False)"

definition add_children :: "u64 \<Rightarrow> call list \<Rightarrow> call list" where
  "add_children cost cs = (if cs = [] then [] else butlast cs @ [(last cs)\<lparr>c_children := c_children (last cs) + cost\<rparr>])"

definition call_entry :: "world \<Rightarrow> call \<Rightarrow> entry" where
  "call_entry w c =
     (let cumul = now w - c_start c in
      (c_fn c, of_nat (rms_value (c_frame c)),
       \<lparr>s_cumul = cumul, s_self = cumul - c_children c,
        s_real = (c_fn c \<notin> c_fn ` set (butlast (tracked w))),
        s_cumul_syscall = 0, s_cumul_thread = 0, s_self_syscall = 0, s_self_thread = 0\<rparr>))"

definition spec_return :: "(u64 \<Rightarrow> Function option) \<Rightarrow> world \<Rightarrow> world" where
  "spec_return F w =
     (if ignored w \<noteq> [] then
        (let (f, s) = last (ignored w)
         in w\<lparr>ignored := butlast (ignored w), w_skip := (if skips F f then w_skip w + (now w - s) else w_skip w)\<rparr>)
      else if tracked w \<noteq> [] then
        (let c = last (tracked w)
         in w\<lparr>tracked := add_children (now w - c_start c) (butlast (tracked w)),
              log := (if discards F (c_fn c) then log w else call_entry w c # log w)\<rparr>)
      else w)"

definition spec_call :: "(u64 \<Rightarrow> Function option) \<Rightarrow> u64 \<Rightarrow> world \<Rightarrow> world" where
  "spec_call F f w =
     (if ignored w \<noteq> [] \<or> skips F f then w\<lparr>ignored := ignored w @ [(f, now w)]\<rparr>
      else w\<lparr>tracked := tracked w @ [\<lparr>c_fn = f, c_start = now w, c_children = 0,
             c_frame = \<lparr>accessed = {}, read_first = {}\<rparr>\<rparr>]\<rparr>)"

fun spec_step :: "(u64 \<Rightarrow> Function option) \<Rightarrow> u32 \<Rightarrow> event \<Rightarrow> world \<Rightarrow> world" where
  "spec_step F sh (Enter f csp) w = spec_call F f w"
| "spec_step F sh Exit w = spec_return F w"
| "spec_step F sh (Access type addr n) w =
     (if ignored w \<noteq> [] then w
      else w\<lparr>tracked := map (\<lambda>c. c\<lparr>c_frame := fold (frame_access type) (cells_of sh addr n) (c_frame c)\<rparr>) (tracked w)\<rparr>)"
| "spec_step F sh Tick w = w\<lparr>clock := clock w + 1\<rparr>"

text \<open>What the tool does on the same events.\<close>

fun step :: "nat \<Rightarrow> event \<Rightarrow> Runtime \<Rightarrow> Runtime res" where
  "step t (Enter f csp) rt = push_stack rt t csp f"
| "step t Exit rt = bindR (get_td rt t) (\<lambda>td. pop_one rt t (get_activation_noresize (stack_depth td)))"
| "step t (Access type addr n) rt = trace_access_rms rt type addr (of_nat n)"
| "step t Tick rt = increase_cost rt"

text \<open>The events the tool can handle: functions it knows, returns from pending calls, accesses
  inside the mapped addresses, a stack below the tool's limit.\<close>

definition height :: "world \<Rightarrow> nat" where
  "height w = length (tracked w) + length (ignored w)"

fun event_ok :: "(u64 \<Rightarrow> Function option) \<Rightarrow> event \<Rightarrow> world \<Rightarrow> bool" where
  "event_ok F (Enter f csp) w = (F f \<noteq> None \<and> Suc (height w) < MAX_STACK_SIZE)"
| "event_ok F Exit w = (0 < height w)"
| "event_ok F (Access type addr n) w = (0 < n \<and> n < 2 ^ 31 - 16 \<and> unat addr + n \<le> 2 ^ 46)"
| "event_ok F Tick w = True"

fun spec_run :: "(u64 \<Rightarrow> Function option) \<Rightarrow> u32 \<Rightarrow> event list \<Rightarrow> world \<Rightarrow> world" where
  "spec_run F sh [] w = w"
| "spec_run F sh (e # es) w = spec_run F sh es (spec_step F sh e w)"

fun run_ok :: "(u64 \<Rightarrow> Function option) \<Rightarrow> u32 \<Rightarrow> event list \<Rightarrow> world \<Rightarrow> bool" where
  "run_ok F sh [] w = True"
| "run_ok F sh (e # es) w = (event_ok F e w \<and> run_ok F sh es (spec_step F sh e w))"

section \<open>Simulation\<close>

definition samples_of :: "entry list \<Rightarrow> u64 \<Rightarrow> observed" where
  "samples_of l f = (\<lambda>(ctx, sz). if ctx = None then map (\<lambda>e. snd (snd e)) (filter (\<lambda>e. fst e = f \<and> fst (snd e) = sz) l) else [])"

lemma samples_of_Cons:
  "samples_of ((f, sz, s) # l) f' =
    (if f' = f then (samples_of l f)((None, sz) := s # samples_of l f (None, sz)) else samples_of l f')"
  by (auto simp: samples_of_def fun_eq_iff)

definition act_sim :: "Activation \<Rightarrow> call \<Rightarrow> bool" where
  "act_sim a c \<longleftrightarrow> routine_info a = c_fn c \<and> start a = c_start c \<and> sum_children_cost a = c_children c \<and>
     cumul_syscall a = 0 \<and> cumul_thread a = 0 \<and> self_syscall a = 0 \<and> self_thread a = 0"

definition pending :: "u64 \<Rightarrow> call list \<Rightarrow> nat" where
  "pending f cs = length (filter (\<lambda>c. c_fn c = f) cs)"

definition routine_sim :: "(u64 \<Rightarrow> Function option) \<Rightarrow> ThreadData \<Rightarrow> world \<Rightarrow> u64 \<Rightarrow> bool" where
  "routine_sim F td w f \<longleftrightarrow> (case get_ri td f of
     Inl _ \<Rightarrow> f \<notin> c_fn ` set (tracked w) \<and> f \<notin> fst ` set (ignored w) \<and> samples_of (log w) f = (\<lambda>_. [])
   | Inr ri \<Rightarrow> ri_fn ri = f \<and> recursion_pending ri = of_nat (pending f (tracked w)) \<and>
       (\<exists>fn. F f = Some fn \<and> (\<not> discard fn \<longrightarrow> (\<exists>m. input_map ri = OwnMap m \<and> map_rel False m (samples_of (log w) f)))))"

definition n_skips :: "(u64 \<Rightarrow> Function option) \<Rightarrow> (u64 \<times> u64) list \<Rightarrow> nat" where
  "n_skips F xs = length (filter (\<lambda>x. skips F (fst x)) xs)"

definition thread_sim :: "(u64 \<Rightarrow> Function option) \<Rightarrow> ThreadData \<Rightarrow> world \<Rightarrow> bool" where
  "thread_sim F td w \<longleftrightarrow> routines_inv td \<and>
     rms_rel (length (tracked w)) td (map c_frame (tracked w)) \<and> unat (stack_depth td) = height w \<and>
     (\<forall>i < length (tracked w). act_sim (stack td i) (tracked w ! i)) \<and>
     (\<forall>i < length (ignored w). routine_info (stack td (length (tracked w) + i)) = fst (ignored w ! i) \<and>
        start (stack td (length (tracked w) + i)) = snd (ignored w ! i)) \<and>
     t_skip td = of_nat (n_skips F (ignored w)) \<and> (ignored w \<noteq> [] \<longrightarrow> skips F (fst (hd (ignored w)))) \<and>
     (\<forall>c \<in> set (tracked w). \<not> skips F (c_fn c)) \<and>
     t_cost td = clock w \<and> skip_cost td = w_skip w \<and> (\<forall>f. routine_sim F td w f)"

definition sim :: "(u64 \<Rightarrow> Function option) \<Rightarrow> nat \<Rightarrow> u32 \<Rightarrow> Runtime \<Rightarrow> world \<Rightarrow> bool" where
  "sim F t sh rt w \<longleftrightarrow> current_tdata rt = Some t \<and> fns rt = F \<and> input_metric (cfg rt) = RMS \<and>
     \<not> collect_CCT (cfg rt) \<and> \<not> single_report (cfg rt) \<and> dope_fn (cfg rt) = None \<and>
     memory_resolution (cfg rt) = 2 ^ unat sh \<and>
     (\<exists>td. threads rt t = Some td \<and> res_shift (shadow_memory td) = sh \<and> thread_sim F td w)"

lemma thread_simD:
  assumes "thread_sim F td w"
  shows "routines_inv td" "rms_rel (length (tracked w)) td (map c_frame (tracked w))" "unat (stack_depth td) = height w"
    "\<And>i. i < length (tracked w) \<Longrightarrow> act_sim (stack td i) (tracked w ! i)"
    "\<And>i. i < length (ignored w) \<Longrightarrow> routine_info (stack td (length (tracked w) + i)) = fst (ignored w ! i) \<and>
        start (stack td (length (tracked w) + i)) = snd (ignored w ! i)"
    "t_skip td = of_nat (n_skips F (ignored w))" "ignored w \<noteq> [] \<Longrightarrow> skips F (fst (hd (ignored w)))"
    "\<And>c. c \<in> set (tracked w) \<Longrightarrow> \<not> skips F (c_fn c)"
    "t_cost td = clock w" "skip_cost td = w_skip w" "\<And>f. routine_sim F td w f"
  using assms unfolding thread_sim_def by blast+

lemma stack_ok_height: "thread_sim F td w \<Longrightarrow> stack_ok td \<and> height w \<le> 16384"
  using thread_simD(2,3) [of F td w] by (auto simp: rms_rel_def stack_ok_def)

lemma skip_iff:
  assumes "thread_sim F td w"
  shows "t_skip td = 0 \<longleftrightarrow> ignored w = []" "t_skip td > 0 \<longleftrightarrow> ignored w \<noteq> []"
proof -
  have "n_skips F (ignored w) \<le> height w" by (simp add: n_skips_def height_def trans_le_add2)
  with stack_ok_height [OF assms] have "n_skips F (ignored w) < 2 ^ 32" by simp
  then have "unat (t_skip td) = n_skips F (ignored w)" by (simp add: thread_simD(6) [OF assms] unat_of_nat32)
  moreover have "n_skips F (ignored w) = 0 \<longleftrightarrow> ignored w = []"
    using thread_simD(7) [OF assms] by (cases "ignored w") (auto simp: n_skips_def)
  ultimately show "t_skip td = 0 \<longleftrightarrow> ignored w = []" by (metis unat_eq_zero)
  then show "t_skip td > 0 \<longleftrightarrow> ignored w \<noteq> []" by (simp add: word_gt_0)
qed

lemma fold_spec_access: "fold (spec_access type) cs fs = map (fold (frame_access type) cs) fs"
  by (induction cs arbitrary: fs) (simp_all add: spec_access_def)

lemma thread_simI:
  assumes "routines_inv td" "rms_rel (length (tracked w)) td (map c_frame (tracked w))" "unat (stack_depth td) = height w"
    "\<And>i. i < length (tracked w) \<Longrightarrow> act_sim (stack td i) (tracked w ! i)"
    "\<And>i. i < length (ignored w) \<Longrightarrow> routine_info (stack td (length (tracked w) + i)) = fst (ignored w ! i) \<and>
        start (stack td (length (tracked w) + i)) = snd (ignored w ! i)"
    "t_skip td = of_nat (n_skips F (ignored w))" "ignored w \<noteq> [] \<Longrightarrow> skips F (fst (hd (ignored w)))"
    "\<And>c. c \<in> set (tracked w) \<Longrightarrow> \<not> skips F (c_fn c)"
    "t_cost td = clock w" "skip_cost td = w_skip w" "\<And>f. routine_sim F td w f"
  shows "thread_sim F td w"
  unfolding thread_sim_def using assms by blast

lemma routine_sim_cong:
  assumes "routine_sim F td w f" "get_ri td' f = get_ri td f" "map c_fn (tracked w') = map c_fn (tracked w)"
    "f \<in> fst ` set (ignored w') \<Longrightarrow> f \<in> fst ` set (ignored w)" "log w' = log w"
  shows "routine_sim F td' w' f"
proof -
  have s: "c_fn ` set (tracked w') = c_fn ` set (tracked w)"
    using arg_cong [OF assms(3), of set] by simp
  have P: "pending f cs = length (filter (\<lambda>x. x = f) (map c_fn cs))" for cs
    by (simp add: pending_def filter_map o_def)
  have "pending f (tracked w') = pending f (tracked w)" unfolding P assms(3) ..
  with assms s show ?thesis by (auto simp: routine_sim_def split: sum.splits)
qed

lemma simD:
  assumes "sim F t sh rt w"
  shows "current_tdata rt = Some t" "fns rt = F" "input_metric (cfg rt) = RMS" "\<not> collect_CCT (cfg rt)"
    "\<not> single_report (cfg rt)" "dope_fn (cfg rt) = None" "memory_resolution (cfg rt) = 2 ^ unat sh"
  using assms unfolding sim_def by blast+

lemma sim_put:
  assumes "sim F t sh rt w" "thread_sim F td w'" "res_shift (shadow_memory td) = sh"
  shows "sim F t sh (put_td rt t td) w'"
  using assms by (simp add: sim_def)

lemma step_Access:
  assumes S: "sim F t sh rt w" and n: "event_ok F (Access type addr n) w"
  shows "\<exists>rt'. step t (Access type addr n) rt = Inr rt' \<and> sim F t sh rt' (spec_step F sh (Access type addr n) w)"
proof -
  note G = simD [OF S]
  from S obtain td where td: "threads rt t = Some td" "res_shift (shadow_memory td) = sh" "thread_sim F td w"
    unfolding sim_def by blast
  note T = thread_simD [OF td(3)]
  show ?thesis
  proof (cases "ignored w = []")
    case False
    with skip_iff(2) [OF td(3)] have "step t (Access type addr n) rt = Inr rt"
      by (simp add: trace_access_rms_def G(1) get_td_def td(1))
    with False S show ?thesis by simp
  next
    case True
    let ?cs = "cells_of sh addr n"
    let ?w = "w\<lparr>tracked := map (\<lambda>c. c\<lparr>c_frame := fold (frame_access type) ?cs (c_frame c)\<rparr>) (tracked w)\<rparr>"
    have e: "spec_step F sh (Access type addr n) w = ?w" using True by simp
    have d: "length (tracked w) = unat (stack_depth td)" using T(3) True by (simp add: height_def)
    have sk: "t_skip td = 0" using skip_iff(1) [OF td(3)] True by simp
    from trace_access_rms_ok [OF G(1) td(1) sk T(2) d, of n addr type] n G(7) td(2) obtain td' where
      td': "trace_access_rms rt type addr (of_nat n) = Inr (rt\<lparr>threads := (threads rt)(t := Some td')\<rparr>)"
        "same_but_inputs td td'" "rms_rel (length (tracked w)) td' (fold (spec_access type) ?cs (map c_frame (tracked w)))"
      by auto
    note D = same_but_inputsD [OF td'(2)]
    have fr: "map c_frame (tracked ?w) = fold (spec_access type) ?cs (map c_frame (tracked w))"
      by (simp add: fold_spec_access)
    have "thread_sim F td' ?w"
    proof (rule thread_simI)
      show "routines_inv td'" using routines_inv_cong [OF D(4)] T(1) by simp
      show "rms_rel (length (tracked ?w)) td' (map c_frame (tracked ?w))" unfolding fr using td'(3) by simp
      show "unat (stack_depth td') = height ?w" using T(3) True by (simp add: height_def D(1))
      fix i assume i: "i < length (tracked ?w)"
      have "stack td' i = (stack td i)\<lparr>a_input_size := a_input_size (stack td' i)\<rparr>"
        using td'(2) by (simp add: same_but_inputs_def)
      from arg_cong [OF this, of cumul_syscall] arg_cong [OF this, of cumul_thread]
        arg_cong [OF this, of self_syscall] arg_cong [OF this, of self_thread]
      show "act_sim (stack td' i) (tracked ?w ! i)" using T(4) [of i] i by (simp add: act_sim_def D(10,11,12))
    next
      fix f show "routine_sim F td' ?w f"
        by (rule routine_sim_cong [OF T(11)]) (simp_all add: o_def get_ri_cong [OF D(4)])
    qed (use T(6,8,9,10) True in \<open>auto simp: D\<close>)
    then have "sim F t sh (put_td rt t td') ?w" by (rule sim_put [OF S]) (simp add: D(8) td(2))
    with td'(1) e show ?thesis by (simp add: put_td_def)
  qed
qed

lemma step_Tick:
  assumes S: "sim F t sh rt w"
  shows "\<exists>rt'. step t Tick rt = Inr rt' \<and> sim F t sh rt' (spec_step F sh Tick w)"
proof -
  from S obtain td where td: "threads rt t = Some td" "res_shift (shadow_memory td) = sh" "thread_sim F td w"
    unfolding sim_def by blast
  note T = thread_simD [OF td(3)]
  let ?td = "td\<lparr>t_cost := t_cost td + 1\<rparr>" and ?w = "w\<lparr>clock := clock w + 1\<rparr>"
  have "thread_sim F ?td ?w"
  proof (rule thread_simI)
    show "routines_inv ?td" using T(1) by (simp add: routines_inv_def)
    show "rms_rel (length (tracked ?w)) ?td (map c_frame (tracked ?w))"
      by (simp, rule rms_rel_cong [OF T(2)]) (use T(2) in \<open>simp_all add: rms_rel_def stack_ok_def\<close>)
    fix f show "routine_sim F ?td ?w f"
      by (rule routine_sim_cong [OF T(11)]) (simp_all add: get_ri_def)
  qed (use T in \<open>auto simp: height_def\<close>)
  then have "sim F t sh (put_td rt t ?td) ?w" by (rule sim_put [OF S]) (simp add: td(2))
  moreover have "step t Tick rt = Inr (put_td rt t ?td)" using S td(1) by (simp add: increase_cost_def sim_def get_td_def)
  ultimately show ?thesis by simp
qed

section \<open>A call\<close>

lemma push_activation:
  assumes ok: "stack_ok td" and h: "unat (stack_depth td) = h" "Suc h < MAX_STACK_SIZE"
  shows "unat (stack_depth td + 1) = Suc h"
    and "\<exists>m. get_activation (td\<lparr>stack_depth := stack_depth td + 1\<rparr>) (stack_depth td + 1) =
        Inr (td\<lparr>stack_depth := stack_depth td + 1, max_stack_size := m\<rparr>, int h) \<and>
      stack_ok (td\<lparr>stack_depth := stack_depth td + 1, max_stack_size := m\<rparr>)"
proof -
  show d: "unat (stack_depth td + 1) = Suc h"
    using h by (simp add: unat_word_ariths MAX_STACK_SIZE_def)
  then have p: "uint (stack_depth td + 1) - 1 = int h" using uint_of_depth [of "stack_depth td + 1"] by simp
  let ?m = "unat (max_stack_size td)"
  from ok obtain k where k: "k \<le> 8" "?m = 64 * 2 ^ k" by (auto simp: stack_ok_def stack_size_ok_def)
  have hm: "h \<le> ?m" using ok h by (simp add: stack_ok_def)
  consider (small) "Suc h < ?m" | (full) "Suc h = ?m" | (grow) "h = ?m" using hm by linarith
  then show "\<exists>m. get_activation (td\<lparr>stack_depth := stack_depth td + 1\<rparr>) (stack_depth td + 1) =
        Inr (td\<lparr>stack_depth := stack_depth td + 1, max_stack_size := m\<rparr>, int h) \<and>
      stack_ok (td\<lparr>stack_depth := stack_depth td + 1, max_stack_size := m\<rparr>)"
  proof cases
    case small
    then have "\<not> max_stack_size td \<le> stack_depth td + 1" by (simp add: word_le_nat_alt d)
    then have "get_activation (td\<lparr>stack_depth := stack_depth td + 1\<rparr>) (stack_depth td + 1) =
        Inr (td\<lparr>stack_depth := stack_depth td + 1, max_stack_size := max_stack_size td\<rparr>, int h)"
      by (simp add: get_activation_def p)
    moreover have "stack_ok (td\<lparr>stack_depth := stack_depth td + 1, max_stack_size := max_stack_size td\<rparr>)"
      using ok small by (simp add: stack_ok_def d)
    ultimately show ?thesis by blast
  next
    case full
    then have "max_stack_size td \<le> stack_depth td + 1" "\<not> max_stack_size td \<le> stack_depth td"
      by (simp_all add: word_le_nat_alt d h(1))
    then have "get_activation (td\<lparr>stack_depth := stack_depth td + 1\<rparr>) (stack_depth td + 1) =
        Inr (td\<lparr>stack_depth := stack_depth td + 1, max_stack_size := max_stack_size td\<rparr>, int h)"
      using h(2) by (simp add: get_activation_def resize_stack_def p d)
    moreover have "stack_ok (td\<lparr>stack_depth := stack_depth td + 1, max_stack_size := max_stack_size td\<rparr>)"
      using ok full h(2) by (simp add: stack_ok_def d)
    ultimately show ?thesis by blast
  next
    case grow
    then have "max_stack_size td \<le> stack_depth td + 1" "max_stack_size td \<le> stack_depth td"
      by (simp_all add: word_le_nat_alt d h(1))
    then have g: "get_activation (td\<lparr>stack_depth := stack_depth td + 1\<rparr>) (stack_depth td + 1) =
        Inr (td\<lparr>stack_depth := stack_depth td + 1, max_stack_size := max_stack_size td * 2\<rparr>, int h)"
      using h(2) by (simp add: get_activation_def resize_stack_def p d)
    have k7: "k \<le> 7"
    proof (rule ccontr)
      assume "\<not> k \<le> 7"
      then have "k = 8" using k(1) by simp
      with k(2) grow h(2) show False by (simp add: MAX_STACK_SIZE_def)
    qed
    have m: "unat (max_stack_size td * 2) = 64 * 2 ^ Suc k"
      using k(2) power_increasing [OF k7, of "2 :: nat"] by (simp add: unat_word_ariths)
    have "stack_ok (td\<lparr>stack_depth := stack_depth td + 1, max_stack_size := max_stack_size td * 2\<rparr>)"
      using ok k7 k(2) grow h(2) power_increasing [OF k7, of "2 :: nat"]
      by (auto simp: stack_ok_def stack_size_ok_def d m MAX_STACK_SIZE_def intro: exI [of _ "Suc k"])
    with g show ?thesis by blast
  qed
qed

text \<open>The routine of a call: the one the thread knows, or a new one.\<close>

lemma new_routine_ok:
  assumes td: "threads rt t = Some td" and inv: "routines_inv td" and fn: "fns rt f = Some fn" "\<not> single_report (cfg rt)"
    and new: "HT_lookup (rtn_ht td) f = None"
  shows "\<exists>td' ri. new_routine_info rt t f f = Inr (put_td rt t td') \<and>
    td' = td\<lparr>rtn_ht := rtn_ht td', next_routine_id := next_routine_id td'\<rparr> \<and> routines_inv td' \<and>
    (\<forall>k. get_ri td' k = (if k = f then Inr ri else get_ri td k)) \<and>
    ri_fn ri = f \<and> recursion_pending ri = 0 \<and> (\<not> discard fn \<longrightarrow> input_map ri = OwnMap (HT_construct False))"
proof (cases "discard fn")
  case True
  let ?ri = "\<lparr>routine_id = 0, ri_fn = f, recursion_pending = 0, input_map = NoMap\<rparr>"
  from add_routine_ok [OF td inv new, of ?ri] obtain h where
    "add_routine rt t f ?ri = Inr (put_td rt t (td\<lparr>rtn_ht := h\<rparr>))" "routines_inv (td\<lparr>rtn_ht := h\<rparr>)"
    "\<forall>k. get_ri (td\<lparr>rtn_ht := h\<rparr>) k = (if k = f then Inr ?ri else get_ri td k)" by blast
  with True fn show ?thesis
    by (intro exI [of _ "td\<lparr>rtn_ht := h\<rparr>"] exI [of _ ?ri]) (simp add: new_routine_info_def get_fn_def)
next
  case False
  let ?ri = "\<lparr>routine_id = next_routine_id td, ri_fn = f, recursion_pending = 0, input_map = OwnMap (HT_construct False)\<rparr>"
  let ?td = "td\<lparr>next_routine_id := next_routine_id td + 1\<rparr>"
  have i: "routines_inv ?td" "HT_lookup (rtn_ht ?td) f = None" "get_ri ?td = get_ri td"
    using inv new routines_inv_cong [of ?td td] get_ri_cong [of ?td td] by simp_all
  from add_routine_ok [OF put_td_fields(2) i(1,2), of rt t ?ri] obtain h where
    "add_routine (put_td rt t ?td) t f ?ri = Inr (put_td rt t (?td\<lparr>rtn_ht := h\<rparr>))" "routines_inv (?td\<lparr>rtn_ht := h\<rparr>)"
    "\<forall>k. get_ri (?td\<lparr>rtn_ht := h\<rparr>) k = (if k = f then Inr ?ri else get_ri td k)" unfolding i(3) by auto
  with False fn td show ?thesis
    by (intro exI [of _ "?td\<lparr>rtn_ht := h\<rparr>"] exI [of _ ?ri])
      (simp add: new_routine_info_def get_fn_def get_td_def Let_def)
qed

lemma get_ri_Inl: "(\<exists>e. get_ri td k = Inl e) \<longleftrightarrow> HT_lookup (rtn_ht td) k = None"
  by (cases "HT_lookup (rtn_ht td) k") (simp_all add: get_ri_def)

text \<open>What \<open>push_stack\<close> does before it enters the function: the activation and the routine.\<close>

lemma push_thread:
  assumes td: "threads rt t = Some td" and ok: "stack_ok td" and inv: "routines_inv td"
    and d: "unat (stack_depth td) = d" "Suc d < MAX_STACK_SIZE"
    and f: "fns rt f = Some fn" "\<not> single_report (cfg rt)"
  shows "\<exists>td' ri. push_stack rt t csp f = function_enter (put_td rt t td') t (int d) \<and>
     td' = td\<lparr>stack_depth := stack_depth td + 1, max_stack_size := max_stack_size td', rtn_ht := rtn_ht td',
       next_routine_id := next_routine_id td', stack := stack td'\<rparr> \<and>
     stack td' = (stack td)(d := (stack td d)\<lparr>sp := csp, routine_info := f, ret_addr := 0\<rparr>) \<and>
     stack_ok td' \<and> unat (stack_depth td') = Suc d \<and> routines_inv td' \<and>
     (\<forall>g. get_ri td' g = (if g = f then Inr ri else get_ri td g)) \<and>
     (get_ri td f = Inr ri \<or> (\<exists>e. get_ri td f = Inl e) \<and> ri_fn ri = f \<and> recursion_pending ri = 0 \<and>
       (\<not> discard fn \<longrightarrow> input_map ri = OwnMap (HT_construct False)))"
proof -
  from push_activation [OF ok d] obtain m where n: "unat (stack_depth td + 1) = Suc d"
    and m: "get_activation (td\<lparr>stack_depth := stack_depth td + 1\<rparr>) (stack_depth td + 1) =
        Inr (td\<lparr>stack_depth := stack_depth td + 1, max_stack_size := m\<rparr>, int d)"
      "stack_ok (td\<lparr>stack_depth := stack_depth td + 1, max_stack_size := m\<rparr>)" by blast
  let ?td1 = "td\<lparr>stack_depth := stack_depth td + 1, max_stack_size := m\<rparr>"
  have i1: "routines_inv ?td1" "get_ri ?td1 = get_ri td"
    using inv routines_inv_cong [of ?td1 td] get_ri_cong [of ?td1 td] by simp_all
  have "\<exists>td2 ri. (if HT_lookup (rtn_ht ?td1) f = None then new_routine_info (put_td rt t ?td1) t f f
            else Inr (put_td rt t ?td1)) = Inr (put_td rt t td2) \<and>
      td2 = ?td1\<lparr>rtn_ht := rtn_ht td2, next_routine_id := next_routine_id td2\<rparr> \<and> routines_inv td2 \<and>
      (\<forall>g. get_ri td2 g = (if g = f then Inr ri else get_ri td g)) \<and>
      (get_ri td f = Inr ri \<or> (\<exists>e. get_ri td f = Inl e) \<and> ri_fn ri = f \<and> recursion_pending ri = 0 \<and>
        (\<not> discard fn \<longrightarrow> input_map ri = OwnMap (HT_construct False)))"
  proof (cases "HT_lookup (rtn_ht ?td1) f = None")
    case False
    then obtain ri where "get_ri td f = Inr ri" by (auto simp: get_ri_def)
    then show ?thesis using False i1 by (intro exI [of _ ?td1] exI [of _ ri]) auto
  next
    case True
    then have "HT_lookup (rtn_ht td) f = None" by simp
    then obtain e where e: "get_ri td f = Inl e" using get_ri_Inl by blast
    from new_routine_ok [OF put_td_fields(2) i1(1) _ _ True, of rt t fn] f obtain td2 ri where
      "new_routine_info (put_td rt t ?td1) t f f = Inr (put_td rt t td2)"
      "td2 = ?td1\<lparr>rtn_ht := rtn_ht td2, next_routine_id := next_routine_id td2\<rparr>" "routines_inv td2"
      "\<forall>k. get_ri td2 k = (if k = f then Inr ri else get_ri td k)"
      "ri_fn ri = f" "recursion_pending ri = 0" "\<not> discard fn \<longrightarrow> input_map ri = OwnMap (HT_construct False)"
      unfolding put_td_put_td put_td_fields i1(2) by blast
    with e True show ?thesis by (intro exI [of _ td2] exI [of _ ri]) simp
  qed
  then obtain td2 ri where t2:
    "(if HT_lookup (rtn_ht ?td1) f = None then new_routine_info (put_td rt t ?td1) t f f
            else Inr (put_td rt t ?td1)) = Inr (put_td rt t td2)"
    "td2 = ?td1\<lparr>rtn_ht := rtn_ht td2, next_routine_id := next_routine_id td2\<rparr>" "routines_inv td2"
    "\<forall>g. get_ri td2 g = (if g = f then Inr ri else get_ri td g)"
    "get_ri td f = Inr ri \<or> (\<exists>e. get_ri td f = Inl e) \<and> ri_fn ri = f \<and> recursion_pending ri = 0 \<and>
        (\<not> discard fn \<longrightarrow> input_map ri = OwnMap (HT_construct False))" by blast
  have st2: "stack td2 = stack td" "max_stack_size td2 = m" "stack_depth td2 = stack_depth td + 1"
    using arg_cong [OF t2(2), of stack] arg_cong [OF t2(2), of max_stack_size] arg_cong [OF t2(2), of stack_depth] by simp_all
  have ok2: "stack_ok td2" using m(2) by (simp add: stack_ok_def st2)
  have a: "get_act td2 (int d) = Inr (stack td2 d)"
    by (rule get_act_in_stack [OF ok2]) (simp add: st2 n)
  let ?td = "set_act td2 (int d) ((stack td d)\<lparr>sp := csp, routine_info := f, ret_addr := 0\<rparr>)"
  have r: "routines_inv ?td" "get_ri ?td = get_ri td2"
    using t2(3) routines_inv_cong [of ?td td2] get_ri_cong [of ?td td2] by simp_all
  have e: "push_stack rt t csp f = function_enter (put_td rt t ?td) t (int d)"
    unfolding push_stack_def get_td_def td(1) derefR_simps bindR_simps Let_def m(1) prod.case t2(1) upd_act_def
      get_td_put_td [unfolded get_td_def] a put_td_put_td st2(1) ..
  have e2: "?td = td\<lparr>stack_depth := stack_depth td + 1, max_stack_size := max_stack_size ?td, rtn_ht := rtn_ht ?td,
       next_routine_id := next_routine_id ?td, stack := stack ?td\<rparr>"
    by (subst t2(2)) (simp add: set_act_def st2)
  show ?thesis
    by (rule exI [of _ ?td], rule exI [of _ ri]) (use e e2 ok2 st2 n r t2(4,5) in simp)
qed

lemma push_begin:
  assumes S: "sim F t sh rt w" and td: "threads rt t = Some td" "thread_sim F td w"
    and f: "F f = Some fn" and h: "Suc (height w) < MAX_STACK_SIZE"
  shows "\<exists>td' ri. push_stack rt t csp f = function_enter (put_td rt t td') t (int (height w)) \<and>
     td' = td\<lparr>stack_depth := stack_depth td + 1, max_stack_size := max_stack_size td', rtn_ht := rtn_ht td',
       next_routine_id := next_routine_id td', stack := stack td'\<rparr> \<and>
     stack td' = (stack td)(height w := (stack td (height w))\<lparr>sp := csp, routine_info := f, ret_addr := 0\<rparr>) \<and>
     stack_ok td' \<and> unat (stack_depth td') = Suc (height w) \<and> routines_inv td' \<and>
     get_ri td' f = Inr ri \<and> (\<forall>g. routine_sim F td' w g)"
proof -
  note G = simD [OF S] note T = thread_simD [OF td(2)]
  have ok: "stack_ok td" using stack_ok_height [OF td(2)] by simp
  have fn: "fns rt f = Some fn" using f G(2) by simp
  from push_thread [OF td(1) ok T(1,3) h fn G(5)] obtain td' ri where p:
    "push_stack rt t csp f = function_enter (put_td rt t td') t (int (height w))"
    "td' = td\<lparr>stack_depth := stack_depth td + 1, max_stack_size := max_stack_size td', rtn_ht := rtn_ht td',
       next_routine_id := next_routine_id td', stack := stack td'\<rparr>"
    "stack td' = (stack td)(height w := (stack td (height w))\<lparr>sp := csp, routine_info := f, ret_addr := 0\<rparr>)"
    "stack_ok td'" "unat (stack_depth td') = Suc (height w)" "routines_inv td'"
    "\<forall>g. get_ri td' g = (if g = f then Inr ri else get_ri td g)"
    "get_ri td f = Inr ri \<or> (\<exists>e. get_ri td f = Inl e) \<and> ri_fn ri = f \<and> recursion_pending ri = 0 \<and>
       (\<not> discard fn \<longrightarrow> input_map ri = OwnMap (HT_construct False))" by blast
  have "routine_sim F td' w g" for g
  proof (cases "g = f \<and> (\<exists>e. get_ri td f = Inl e)")
    case False
    then have "get_ri td' g = get_ri td g" using p(7,8) by auto
    then show ?thesis by (intro routine_sim_cong [OF T(11)]) simp_all
  next
    case True
    then obtain e where e: "get_ri td f = Inl e" by blast
    from T(11) [of f] have "f \<notin> c_fn ` set (tracked w)" "samples_of (log w) f = (\<lambda>_. [])"
      by (simp_all add: routine_sim_def e)
    moreover then have "pending f (tracked w) = 0" by (auto simp: pending_def filter_empty_conv)
    ultimately show ?thesis
      using p(7,8) f e True by (simp add: routine_sim_def map_rel_construct)
  qed
  with p show ?thesis by (intro exI [of _ td'] exI [of _ ri]) simp
qed

text \<open>A call that is ignored: only the start of its activation and the count of skipped
  functions change.\<close>

lemma function_enter_skipped:
  assumes td: "threads rt t = Some td" and act: "get_act td (int h) = Inr (stack td h)"
    and ri: "get_ri td (routine_info (stack td h)) = Inr ri" "fns rt (ri_fn ri) = Some fn"
    and skip: "fn_skip fn \<or> t_skip td > 0"
  shows "function_enter rt t (int h) = Inr (put_td rt t
    ((set_act td (int h) ((stack td h)\<lparr>start := aprof_time td\<rparr>))\<lparr>t_skip := (if fn_skip fn then t_skip td + 1 else t_skip td)\<rparr>))"
proof (cases "fn_skip fn")
  case False
  have same: "(set_act td p a)\<lparr>t_skip := t_skip td\<rparr> = set_act td p a" for p a by (cases td) (simp add: set_act_def)
  from False show ?thesis
    using assms by (simp add: same function_enter_def get_td_def get_fn_def Let_def)
qed (use assms in \<open>simp add: function_enter_def get_td_def get_fn_def Let_def\<close>)

lemma pushed_cong:
  assumes rel: "rms_rel d td fs" "d \<le> unat (stack_depth td)" "d \<le> h" and ok: "stack_ok td'" "unat (stack_depth td') = Suc h"
    and e: "shadow_memory td' = shadow_memory td" "next_activation_id td' = next_activation_id td"
      "\<And>i. i < h \<Longrightarrow> stack td' i = stack td i"
  shows "rms_rel d td' fs"
  by (rule rms_rel_cong [OF rel(1) ok(1)]) (use assms in auto)

lemma routine_simD:
  assumes "routine_sim F td w f" "get_ri td f = Inr ri"
  shows "ri_fn ri = f" "recursion_pending ri = of_nat (pending f (tracked w))"
    "\<exists>fn. F f = Some fn \<and> (\<not> discard fn \<longrightarrow> (\<exists>m. input_map ri = OwnMap m \<and> map_rel False m (samples_of (log w) f)))"
  using assms by (simp_all add: routine_sim_def)

lemma step_Enter_ignored:
  assumes S: "sim F t sh rt w" and ok: "event_ok F (Enter f csp) w" and ign: "ignored w \<noteq> [] \<or> skips F f"
  shows "\<exists>rt'. step t (Enter f csp) rt = Inr rt' \<and> sim F t sh rt' (spec_step F sh (Enter f csp) w)"
proof -
  note G = simD [OF S]
  from S obtain td where td: "threads rt t = Some td" "res_shift (shadow_memory td) = sh" "thread_sim F td w"
    unfolding sim_def by blast
  note T = thread_simD [OF td(3)]
  from ok obtain fn where f: "F f = Some fn" and h: "Suc (height w) < MAX_STACK_SIZE" by auto
  let ?h = "height w" and ?w = "w\<lparr>ignored := ignored w @ [(f, now w)]\<rparr>"
  from push_begin [OF S td(1,3) f h, of csp] obtain td1 ri where p:
    "push_stack rt t csp f = function_enter (put_td rt t td1) t (int ?h)"
    "td1 = td\<lparr>stack_depth := stack_depth td + 1, max_stack_size := max_stack_size td1, rtn_ht := rtn_ht td1,
       next_routine_id := next_routine_id td1, stack := stack td1\<rparr>"
    "stack td1 = (stack td)(?h := (stack td ?h)\<lparr>sp := csp, routine_info := f, ret_addr := 0\<rparr>)"
    "stack_ok td1" "unat (stack_depth td1) = Suc ?h" "routines_inv td1" "get_ri td1 f = Inr ri" "\<forall>g. routine_sim F td1 w g"
    by blast
  have q: "shadow_memory td1 = shadow_memory td" "next_activation_id td1 = next_activation_id td"
    "t_skip td1 = t_skip td" "t_cost td1 = t_cost td" "skip_cost td1 = skip_cost td"
    using arg_cong [OF p(2), of shadow_memory] arg_cong [OF p(2), of next_activation_id] arg_cong [OF p(2), of t_skip]
      arg_cong [OF p(2), of t_cost] arg_cong [OF p(2), of skip_cost] by simp_all
  have act: "get_act td1 (int ?h) = Inr (stack td1 ?h)" by (rule get_act_in_stack [OF p(4)]) (simp add: p(5))
  have rf: "routine_info (stack td1 ?h) = f" by (simp add: p(3))
  note R = routine_simD [OF spec [OF p(8)] p(7)]
  have sk: "fn_skip fn \<or> t_skip td1 > 0" using ign skip_iff(2) [OF td(3)] f by (auto simp: skips_def q)
  let ?td = "(set_act td1 (int ?h) ((stack td1 ?h)\<lparr>start := aprof_time td1\<rparr>))\<lparr>t_skip := (if fn_skip fn then t_skip td1 + 1 else t_skip td1)\<rparr>"
  have e: "step t (Enter f csp) rt = Inr (put_td rt t ?td)"
    using function_enter_skipped [of "put_td rt t td1" t td1 ?h ri fn] act p(7) R(1) f sk G(2)
    by (simp only: step.simps p(1) rf put_td_fields put_td_put_td)
  have st: "stack ?td i = stack td i" if "i < ?h" for i using that by (simp add: p(3))
  have top: "routine_info (stack ?td ?h) = f" "start (stack ?td ?h) = now w"
    using rf T(9,10) by (simp_all add: aprof_time_def q now_def)
  have depth: "unat (stack_depth ?td) = Suc ?h" using p(5) by simp
  have "thread_sim F ?td ?w"
  proof (rule thread_simI)
    show "routines_inv ?td" using p(6) by (simp add: routines_inv_def)
    have "rms_rel (length (tracked w)) ?td (map c_frame (tracked w))"
      by (rule pushed_cong [OF T(2) _ _ _ depth]) (use T(3) p(4) st in \<open>simp_all add: height_def stack_ok_def q\<close>)
    then show "rms_rel (length (tracked ?w)) ?td (map c_frame (tracked ?w))" by simp
    show "unat (stack_depth ?td) = height ?w" using depth by (simp add: height_def)
    show "act_sim (stack ?td i) (tracked ?w ! i)" if "i < length (tracked ?w)" for i
      using st [of i] T(4) [of i] that by (simp add: height_def)
    show "routine_info (stack ?td (length (tracked ?w) + i)) = fst (ignored ?w ! i) \<and>
        start (stack ?td (length (tracked ?w) + i)) = snd (ignored ?w ! i)" if i: "i < length (ignored ?w)" for i
    proof (cases "i = length (ignored w)")
      case True
      then have "length (tracked ?w) + i = ?h" by (simp add: height_def)
      with top True show ?thesis by (simp only: nth_append) simp
    next
      case False
      with i have "i < length (ignored w)" "length (tracked ?w) + i < ?h" by (simp_all add: height_def)
      with st [of "length (tracked ?w) + i"] T(5) [of i] show ?thesis by (simp add: nth_append)
    qed
    show "t_skip ?td = of_nat (n_skips F (ignored ?w))"
      using T(6) f by (simp add: n_skips_def skips_def q)
    show "skips F (fst (hd (ignored ?w)))" using T(7) ign by (cases "ignored w") auto
    show "t_cost ?td = clock ?w" "skip_cost ?td = w_skip ?w" using T(9,10) by (simp_all add: q)
    fix g show "routine_sim F ?td ?w g"
      using spec [OF p(8), of g] p(7) get_ri_cong [of ?td td1]
      by (auto simp: routine_sim_def split: sum.splits)
  qed (use T(8) in simp)
  then have "sim F t sh (put_td rt t ?td) ?w" by (rule sim_put [OF S]) (simp add: q td(2))
  moreover have "spec_step F sh (Enter f csp) w = ?w" using ign by (simp add: spec_call_def)
  ultimately show ?thesis using e by simp
qed

lemma step_Enter_tracked:
  assumes S: "sim F t sh rt w" and ok: "event_ok F (Enter f csp) w" and ign: "ignored w = []" "\<not> skips F f"
  shows "\<exists>rt'. step t (Enter f csp) rt = Inr rt' \<and> sim F t sh rt' (spec_step F sh (Enter f csp) w)"
proof -
  note G = simD [OF S]
  from S obtain td where td: "threads rt t = Some td" "res_shift (shadow_memory td) = sh" "thread_sim F td w"
    unfolding sim_def by blast
  note T = thread_simD [OF td(3)]
  from ok obtain fn where f: "F f = Some fn" and h: "Suc (height w) < MAX_STACK_SIZE" by auto
  let ?h = "height w"
  let ?c = "\<lparr>c_fn = f, c_start = now w, c_children = 0, c_frame = \<lparr>accessed = {}, read_first = {}\<rparr>\<rparr>"
  let ?w = "w\<lparr>tracked := tracked w @ [?c]\<rparr>"
  have hl: "?h = length (tracked w)" using ign by (simp add: height_def)
  from push_begin [OF S td(1,3) f h, of csp] obtain td1 ri where p:
    "push_stack rt t csp f = function_enter (put_td rt t td1) t (int ?h)"
    "td1 = td\<lparr>stack_depth := stack_depth td + 1, max_stack_size := max_stack_size td1, rtn_ht := rtn_ht td1,
       next_routine_id := next_routine_id td1, stack := stack td1\<rparr>"
    "stack td1 = (stack td)(?h := (stack td ?h)\<lparr>sp := csp, routine_info := f, ret_addr := 0\<rparr>)"
    "stack_ok td1" "unat (stack_depth td1) = Suc ?h" "routines_inv td1" "get_ri td1 f = Inr ri" "\<forall>g. routine_sim F td1 w g"
    by blast
  have q: "shadow_memory td1 = shadow_memory td" "next_activation_id td1 = next_activation_id td"
    "t_skip td1 = t_skip td" "t_cost td1 = t_cost td" "skip_cost td1 = skip_cost td"
    using arg_cong [OF p(2), of shadow_memory] arg_cong [OF p(2), of next_activation_id] arg_cong [OF p(2), of t_skip]
      arg_cong [OF p(2), of t_cost] arg_cong [OF p(2), of skip_cost] by simp_all
  have st: "stack td1 i = stack td i" if "i < ?h" for i using that by (simp add: p(3))
  have rf: "routine_info (stack td1 ?h) = f" by (simp add: p(3))
  note R = routine_simD [OF spec [OF p(8)] p(7)]
  have rel: "rms_rel ?h td1 (map c_frame (tracked w))"
    by (rule pushed_cong [OF T(2) [folded hl] _ _ p(4,5) q(1,2) st]) (use T(3) in simp_all)
  have sk: "t_skip td1 = 0" using skip_iff(1) [OF td(3)] ign(1) by (simp add: q)
  have nofs: "\<not> fn_skip fn" using ign(2) f by (simp add: skips_def)
  have cur: "current_tdata (put_td rt t td1) = Some t" "threads (put_td rt t td1) t = Some td1" using G(1) by simp_all
  from function_enter_rms_ok [OF cur rel p(5,6), of ri fn] p(7) R(1) rf f nofs sk G obtain td2 where
    e: "function_enter (put_td rt t td1) t (int ?h) = Inr ((put_td (put_td rt t td1) t td2)\<lparr>ccts := ccts rt\<rparr>)"
      "entered ?h ri td1 td2" "rms_rel (Suc ?h) td2 (spec_enter (map c_frame (tracked w)))" by auto
  note E = enteredD [OF e(2)]
  have "step t (Enter f csp) rt = Inr (put_td rt t td2)"
    using e(1) p(1) by (simp add: put_td_def)
  moreover have "thread_sim F td2 ?w"
  proof (rule thread_simI)
    show "routines_inv td2" by (rule E(8))
    show "rms_rel (length (tracked ?w)) td2 (map c_frame (tracked ?w))"
      using e(3) by (simp add: hl spec_enter_def)
    show "unat (stack_depth td2) = height ?w" using p(5) by (simp add: E(1) height_def)
    show "act_sim (stack td2 i) (tracked ?w ! i)" if i: "i < length (tracked ?w)" for i
    proof (cases "i = ?h")
      case True
      then have "tracked ?w ! i = ?c" by (simp add: hl)
      moreover have "start (stack td2 ?h) = now w" using arg_cong [OF E(11), of start] T(9,10)
        by (simp add: aprof_time_def q now_def)
      moreover note arg_cong [OF E(11), of routine_info] arg_cong [OF E(11), of sum_children_cost]
        arg_cong [OF E(11), of cumul_syscall] arg_cong [OF E(11), of cumul_thread]
        arg_cong [OF E(11), of self_syscall] arg_cong [OF E(11), of self_thread]
      ultimately show ?thesis using True rf by (simp add: act_sim_def)
    next
      case False
      with i have l: "i < length (tracked w)" by (simp add: hl)
      have a: "stack td2 i = (stack td i)\<lparr>activation_id := activation_id (stack td2 i)\<rparr>"
        using E(10) [OF False] st [of i] l hl by simp
      have "act_sim ((stack td i)\<lparr>activation_id := x\<rparr>) (tracked w ! i)" for x
        using T(4) [OF l] by (simp add: act_sim_def)
      then have "act_sim (stack td2 i) (tracked w ! i)" by (subst a)
      with l show ?thesis by (simp add: nth_append)
    qed
    fix g
    show "routine_sim F td2 ?w g"
    proof (cases "g = f")
      case True
      then show ?thesis using R rf by (simp add: routine_sim_def E(9) pending_def)
    next
      case False
      then show ?thesis using spec [OF p(8), of g] rf
        by (auto simp: routine_sim_def E(9) pending_def split: sum.splits)
    qed
  qed (use T(6,8,9,10) ign q E in \<open>auto simp: n_skips_def\<close>)
  then have "sim F t sh (put_td rt t td2) ?w" by (rule sim_put [OF S]) (simp add: q E(7) td(2))
  moreover have "spec_step F sh (Enter f csp) w = ?w" using ign by (simp add: spec_call_def)
  ultimately show ?thesis by simp
qed

section \<open>A return\<close>

lemma pop_one_ok:
  assumes "function_exit rt t p = Inr rt1" "threads rt1 t = Some td" "stack_depth td > 0"
  shows "pop_one rt t p = Inr (put_td rt1 t (td\<lparr>stack_depth := stack_depth td - 1\<rparr>))"
  using assms by (simp add: pop_one_def get_td_def)

lemma function_exit_skipped:
  assumes td: "threads rt t = Some td" and act: "get_act td (int d) = Inr (stack td d)"
    and ri: "get_ri td (routine_info (stack td d)) = Inr ri" "fns rt (ri_fn ri) = Some fn"
    and skip: "t_skip td > 0" and dope: "dope_fn (cfg rt) = None"
  shows "function_exit rt t (int d) = Inr (put_td rt t
    (if fn_skip fn then td\<lparr>t_skip := t_skip td - 1, skip_cost := skip_cost td + (aprof_time td - start (stack td d))\<rparr> else td))"
  using assms by (simp add: function_exit_def get_td_def get_fn_def Let_def)

lemma n_skips_butlast:
  "xs \<noteq> [] \<Longrightarrow> n_skips F xs = n_skips F (butlast xs) + (if skips F (fst (last xs)) then 1 else 0)"
  by (cases xs rule: rev_cases) (simp_all add: n_skips_def)

lemma hd_butlast: "butlast xs \<noteq> [] \<Longrightarrow> hd (butlast xs) = hd xs"
  by (cases xs) auto

lemma depth_word: "unat (w :: u32) = Suc d \<Longrightarrow> 0 < w" "unat (w :: u32) = Suc d \<Longrightarrow> get_activation_noresize w = int d"
  using uint_of_depth [of w] by (auto simp: word_gt_0 get_activation_noresize_def)

lemma step_Exit_ignored:
  assumes S: "sim F t sh rt w" and ign: "ignored w \<noteq> []"
  shows "\<exists>rt'. step t Exit rt = Inr rt' \<and> sim F t sh rt' (spec_step F sh Exit w)"
proof -
  note G = simD [OF S]
  from S obtain td where td: "threads rt t = Some td" "res_shift (shadow_memory td) = sh" "thread_sim F td w"
    unfolding sim_def by blast
  note T = thread_simD [OF td(3)]
  obtain f s where last: "last (ignored w) = (f, s)" by fastforce
  define n where "n = length (ignored w) - 1"
  let ?d = "length (tracked w) + n"
  have len: "length (ignored w) = Suc n" using ign by (simp add: n_def)
  have depth: "unat (stack_depth td) = Suc ?d" using T(3) len by (simp add: height_def)
  have ok: "stack_ok td" using stack_ok_height [OF td(3)] by simp
  have act: "get_act td (int ?d) = Inr (stack td ?d)" by (rule get_act_in_stack [OF ok]) (simp add: depth)
  have "ignored w ! n = (f, s)" using last ign len by (simp add: last_conv_nth)
  with T(5) [of n] len have a: "routine_info (stack td ?d) = f" "start (stack td ?d) = s" by simp_all
  have "f \<in> fst ` set (ignored w)" using last ign by (metis last_in_set fst_conv imageI)
  with T(11) [of f] obtain ri where ri: "get_ri td f = Inr ri" by (auto simp: routine_sim_def split: sum.splits)
  note R = routine_simD [OF T(11) ri]
  from R(3) obtain fn where fn: "F f = Some fn" by blast
  let ?td = "(if fn_skip fn then td\<lparr>t_skip := t_skip td - 1, skip_cost := skip_cost td + (aprof_time td - s)\<rparr> else td)"
  have "function_exit rt t (int ?d) = Inr (put_td rt t ?td)"
    using function_exit_skipped [OF td(1) act, of ri fn] a ri R(1) fn G skip_iff(2) [OF td(3)] ign by simp
  moreover have "stack_depth ?td = stack_depth td" by simp
  ultimately have e: "step t Exit rt = Inr (put_td rt t (?td\<lparr>stack_depth := stack_depth td - 1\<rparr>))"
    using pop_one_ok [of rt t "int ?d" "put_td rt t ?td" ?td] td(1) depth_word [OF depth] by (simp add: get_td_def)
  let ?td' = "?td\<lparr>stack_depth := stack_depth td - 1\<rparr>"
  let ?w = "w\<lparr>ignored := butlast (ignored w), w_skip := (if skips F f then w_skip w + (now w - s) else w_skip w)\<rparr>"
  have w: "spec_step F sh Exit w = ?w" using ign last by (simp add: spec_return_def)
  have depth': "unat (stack_depth td - 1) = ?d" by (rule depth_pred [OF depth])
  have ok': "stack_ok ?td'" using ok depth depth' by (auto simp: stack_ok_def)
  have same: "stack ?td' = stack td" "shadow_memory ?td' = shadow_memory td" "next_activation_id ?td' = next_activation_id td"
    "rtn_ht ?td' = rtn_ht td" "stack_depth ?td' = stack_depth td - 1" by simp_all
  have nth: "butlast (ignored w) ! i = ignored w ! i" if "i < n" for i using that len by (simp add: nth_butlast)
  have "thread_sim F ?td' ?w"
  proof (rule thread_simI)
    show "routines_inv ?td'" using routines_inv_cong [OF same(4)] T(1) by simp
    have "rms_rel (length (tracked w)) ?td' (map c_frame (tracked w))"
      by (rule rms_rel_cong [OF T(2) ok' _ same(2,3)]) (simp_all only: same depth' le_add1)
    then show "rms_rel (length (tracked ?w)) ?td' (map c_frame (tracked ?w))" by simp
    show "unat (stack_depth ?td') = height ?w" unfolding same depth' by (simp add: height_def len)
    show "act_sim (stack ?td' i) (tracked ?w ! i)" if "i < length (tracked ?w)" for i
      unfolding same using T(4) that by simp
    show "routine_info (stack ?td' (length (tracked ?w) + i)) = fst (ignored ?w ! i) \<and>
        start (stack ?td' (length (tracked ?w) + i)) = snd (ignored ?w ! i)" if "i < length (ignored ?w)" for i
      unfolding same using T(5) [of i] that len by (simp add: nth)
    show "t_skip ?td' = of_nat (n_skips F (ignored ?w))"
      using T(6) n_skips_butlast [OF ign, of F] fn by (simp add: last skips_def)
    show "skips F (fst (hd (ignored ?w)))" if "ignored ?w \<noteq> []"
      using T(7) [OF ign] that by (simp add: hd_butlast)
    show "t_cost ?td' = clock ?w" using T(9) by simp
    show "skip_cost ?td' = w_skip ?w" using T(9,10) fn by (simp add: skips_def aprof_time_def now_def)
    fix g show "routine_sim F ?td' ?w g"
      by (rule routine_sim_cong [OF T(11)]) (use get_ri_cong [OF same(4)] in \<open>auto dest: in_set_butlastD\<close>)
  qed (use T(8) in simp)
  then have "sim F t sh (put_td rt t ?td') ?w" by (rule sim_put [OF S]) (simp only: same td(2))
  with e w show ?thesis by simp
qed

text \<open>The exit of the pending call on top: what its tuple, or the discarding of it, amounts to.\<close>

lemma pending_butlast:
  "cs \<noteq> [] \<Longrightarrow> pending f cs = pending f (butlast cs) + (if c_fn (last cs) = f then 1 else 0)"
  by (cases cs rule: rev_cases) (simp_all add: pending_def)

lemma pending_0: "pending f cs = 0 \<longleftrightarrow> f \<notin> c_fn ` set cs"
  by (auto simp: pending_def filter_empty_conv)

lemma pending_le: "pending f cs \<le> length cs"
  by (simp add: pending_def)

lemma function_exit_tracked:
  assumes S: "sim F t sh rt w" and td: "threads rt t = Some td" "thread_sim F td w"
    and w: "ignored w = []" "tracked w = cs @ [c]" and fn: "F (c_fn c) = Some fn"
  shows "\<exists>td' ri ri'. function_exit rt t (int (length cs)) = Inr (put_td rt t td') \<and>
    exited (length cs) (clock w) (now w - c_start c) td td' \<and> get_ri td (c_fn c) = Inr ri \<and>
    (\<forall>k. get_ri td' k = (if k = c_fn c then Inr ri' else get_ri td k)) \<and>
    ri_fn ri' = c_fn c \<and> recursion_pending ri' = of_nat (pending (c_fn c) cs) \<and>
    (\<not> discard fn \<longrightarrow> (\<exists>m. input_map ri' = OwnMap m \<and> map_rel False m (samples_of (call_entry w c # log w) (c_fn c))))"
proof -
  note G = simD [OF S] note T = thread_simD [OF td(2)]
  let ?d = "length cs" and ?f = "c_fn c" and ?act = "stack td (length cs)"
  have depth: "unat (stack_depth td) = Suc ?d" using T(3) w by (simp add: height_def)
  have ok: "stack_ok td" using stack_ok_height [OF td(2)] by simp
  have small: "Suc ?d < 2 ^ 32" using unat_less_32 [of "stack_depth td"] depth by simp
  have a: "act_sim ?act c" using T(4) [of ?d] w(2) by simp
  then have rf: "routine_info ?act = ?f" by (simp add: act_sim_def)
  from T(11) [of ?f] w(2) obtain ri where ri: "get_ri td ?f = Inr ri" by (auto simp: routine_sim_def split: sum.splits)
  note R = routine_simD [OF T(11) ri]
  have sk: "t_skip td = 0" using skip_iff(1) [OF td(2)] w(1) by simp
  have cost: "exit_cost rt fn ?act td = clock w" using G(6) T(9) by (simp add: exit_cost_def)
  have cumul: "exit_cumul rt fn ?act td = now w - c_start c"
    using a cost T(10) by (simp add: exit_cumul_def act_sim_def now_def)
  have pend: "recursion_pending (exit_ri ri) = of_nat (pending ?f cs)"
    using R(2) w(2) by (simp add: exit_ri_def pending_butlast)
  have fin: "a_input_size ?act = of_nat (rms_value (c_frame c))"
  proof -
    have "rms_rel (Suc ?d) td (map c_frame (tracked w))" using T(2) w(2) by simp
    then have "frames_ok (Suc ?d) td (map c_frame (tracked w))" by (simp add: rms_rel_def)
    then have "of_nat (rms_value (map c_frame (tracked w) ! ?d)) = (\<Sum>j = ?d..<Suc ?d. a_input_size (stack td j))"
      unfolding frames_ok_def by blast
    then show ?thesis using w(2) by (simp add: nth_append)
  qed
  note hyps = td(1) ok depth T(1) ri [folded rf] _ sk
  have fn': "fns rt (ri_fn ri) = Some fn" using fn R(1) G(2) by simp
  show ?thesis
  proof (cases "discard fn")
    case True
    from function_exit_discard_ok [OF td(1) ok depth T(1) ri [folded rf] fn' sk True] obtain td' where
      "function_exit rt t (int ?d) = Inr (put_td rt t td')" "exited ?d (clock w) (now w - c_start c) td td'"
      "\<forall>k. get_ri td' k = (if k = ?f then Inr (exit_ri ri) else get_ri td k)"
      unfolding cost cumul rf by blast
    then show ?thesis using True pend R(1) ri by (intro exI [of _ td'] exI [of _ ri] exI [of _ "exit_ri ri"]) (simp add: exit_ri_def)
  next
    case False
    from R(3) fn False obtain m where m: "input_map ri = OwnMap m" "map_rel False m (samples_of (log w) ?f)" by auto
    have ctx: "has_ctx rt ?act" "act_ctx rt ?act = None" using G(4) by (simp_all add: has_ctx_def act_ctx_def)
    have m1: "routine_map rt ri = Inr m" "map_rel (collect_CCT (cfg rt)) m (samples_of (log w) ?f)"
      using m G(4) by (simp_all add: routine_map_def)
    from function_exit_ok [OF td(1) ok depth T(1) ri [folded rf] fn' sk False m1 ctx(1)] obtain rt' td' ri' m' where
      e: "function_exit rt t (int ?d) = Inr rt'" "rt' = rt\<lparr>threads := (threads rt)(t := Some td'), fns := fns rt'\<rparr>"
      "exited ?d (clock w) (now w - c_start c) td td'"
      "\<forall>k. get_ri td' k = (if k = ?f then Inr ri' else get_ri td k)" "same_routine (exit_ri ri) ri'"
      "fns rt' = fns rt" "input_map ri' = OwnMap m'"
      "map_rel (collect_CCT (cfg rt)) m' ((samples_of (log w) ?f)((None, a_input_size ?act) :=
        exit_sample ?act (exit_ri ri) (now w - c_start c) (now w - c_start c - sum_children_cost ?act) #
        samples_of (log w) ?f (None, a_input_size ?act)))"
      unfolding cost cumul rf ctx(2) using m(1) by blast
    have rt': "rt' = put_td rt t td'" by (subst e(2)) (simp add: e(6) put_td_def)
    have real: "recursion_pending (exit_ri ri) = 0 \<longleftrightarrow> ?f \<notin> c_fn ` set (butlast (tracked w))"
    proof -
      have "pending ?f cs < 2 ^ 32" using pending_le [of ?f cs] small by simp
      from unat_of_nat32 [OF this] have "recursion_pending (exit_ri ri) = 0 \<longleftrightarrow> pending ?f cs = 0"
        unfolding pend using unat_eq_zero [of "of_nat (pending ?f cs) :: u32"] by argo
      then show ?thesis using pending_0 [of ?f cs] w(2) by simp
    qed
    have "call_entry w c = (?f, a_input_size ?act,
        exit_sample ?act (exit_ri ri) (now w - c_start c) (now w - c_start c - sum_children_cost ?act))"
      using a by (simp add: call_entry_def exit_sample_def fin real act_sim_def Let_def)
    then have "samples_of (call_entry w c # log w) ?f = (samples_of (log w) ?f)((None, a_input_size ?act) :=
        exit_sample ?act (exit_ri ri) (now w - c_start c) (now w - c_start c - sum_children_cost ?act) #
        samples_of (log w) ?f (None, a_input_size ?act))"
      by (simp add: samples_of_Cons)
    then have m2: "map_rel False m' (samples_of (call_entry w c # log w) ?f)" using e(8) G(4) by simp
    have r': "ri_fn ri' = ?f" "recursion_pending ri' = of_nat (pending ?f cs)"
      using e(5) pend R(1) by (simp_all add: same_routine_def exit_ri_def)
    have "function_exit rt t (int ?d) = Inr (put_td rt t td')" using e(1) rt' by simp
    with e(3,4,7) ri r' m2 show ?thesis by blast
  qed
qed

lemma add_children_simps:
  "length (add_children x cs) = length cs" "map c_fn (add_children x cs) = map c_fn cs"
  "map c_frame (add_children x cs) = map c_frame cs" "pending f (add_children x cs) = pending f cs"
  "c_fn ` set (add_children x cs) = c_fn ` set cs"
  by (cases cs rule: rev_cases; simp add: add_children_def pending_def)+

lemma step_Exit_tracked:
  assumes S: "sim F t sh rt w" and w: "ignored w = []" "tracked w \<noteq> []"
  shows "\<exists>rt'. step t Exit rt = Inr rt' \<and> sim F t sh rt' (spec_step F sh Exit w)"
proof -
  note G = simD [OF S]
  from S obtain td where td: "threads rt t = Some td" "res_shift (shadow_memory td) = sh" "thread_sim F td w"
    unfolding sim_def by blast
  note T = thread_simD [OF td(3)]
  from w(2) obtain cs c where c: "tracked w = cs @ [c]" by (cases "tracked w" rule: rev_cases) auto
  let ?d = "length cs"
  have "c_fn c \<in> c_fn ` set (tracked w)" using c by simp
  with T(11) [of "c_fn c"] obtain fn where fn: "F (c_fn c) = Some fn" by (auto simp: routine_sim_def split: sum.splits)
  from function_exit_tracked [OF S td(1,3) w(1) c fn] obtain td' ri ri' where e:
    "function_exit rt t (int ?d) = Inr (put_td rt t td')" "exited ?d (clock w) (now w - c_start c) td td'"
    "get_ri td (c_fn c) = Inr ri" "\<And>k. get_ri td' k = (if k = c_fn c then Inr ri' else get_ri td k)"
    "ri_fn ri' = c_fn c" "recursion_pending ri' = of_nat (pending (c_fn c) cs)"
    "\<not> discard fn \<Longrightarrow> \<exists>m. input_map ri' = OwnMap m \<and> map_rel False m (samples_of (call_entry w c # log w) (c_fn c))"
    by auto
  note X = exitedD [OF e(2)]
  have depth: "unat (stack_depth td) = Suc ?d" using T(3) w c by (simp add: height_def)
  have d': "0 < stack_depth td'" "get_activation_noresize (stack_depth td) = int ?d"
    using depth_word [OF depth] by (simp_all add: X(1))
  let ?td = "td'\<lparr>stack_depth := stack_depth td' - 1\<rparr>"
  let ?cs = "add_children (now w - c_start c) cs" and ?log = "if discards F (c_fn c) then log w else call_entry w c # log w"
  let ?w = "w\<lparr>tracked := ?cs, log := ?log\<rparr>"
  have e1: "step t Exit rt = Inr (put_td rt t ?td)"
    using pop_one_ok [OF e(1) _ d'(1)] td(1) d'(2) by (simp add: get_td_def)
  have sp: "spec_step F sh Exit w = ?w" using w c by (simp add: spec_return_def Let_def)
  have rel: "rms_rel (Suc ?d) td (map c_frame (tracked w))" using T(2) c by simp
  have act: "act_sim (stack td i) ((cs @ [c]) ! i)" if "i < Suc ?d" for i using T(4) [of i] that c by simp
  have topc: "act_sim (stack td ?d) c" using act [of ?d] by simp
  have "thread_sim F ?td ?w"
  proof (rule thread_simI)
    show "routines_inv ?td" using X(9) by (simp add: routines_inv_def)
    show "rms_rel (length (tracked ?w)) ?td (map c_frame (tracked ?w))"
      using rms_rel_exit(1) [OF rel depth e(2)] c by (simp add: spec_exit_def add_children_simps)
    show "unat (stack_depth ?td) = height ?w"
      using depth_pred [OF depth] w(1) by (simp add: height_def add_children_simps X(1))
    show "act_sim (stack ?td i) (tracked ?w ! i)" if i: "i < length (tracked ?w)" for i
    proof -
      from i have i': "i < ?d" by (simp add: add_children_simps)
      then have cs: "cs \<noteq> []" by auto
      have a: "act_sim (stack td i) (cs ! i)" using act [of i] i' by (simp add: nth_append)
      show ?thesis
      proof (cases "i = ?d - 1")
        case True
        then have "?cs ! i = (cs ! i)\<lparr>c_children := c_children (cs ! i) + (now w - c_start c)\<rparr>"
          using cs by (simp add: add_children_def nth_append last_conv_nth)
        with True i' a topc cs show ?thesis by (simp add: X(10) act_sim_def add_to_parent_def)
      next
        case False
        then have "?cs ! i = cs ! i" using cs i' by (simp add: add_children_def nth_append nth_butlast)
        with False i' a cs show ?thesis by (simp add: X(10))
      qed
    qed
    show "\<not> skips F (c_fn x)" if "x \<in> set (tracked ?w)" for x
    proof -
      have "c_fn x \<in> c_fn ` set cs" using imageI [OF that, of c_fn] by (simp add: add_children_simps)
      with T(8) c show ?thesis by auto
    qed
    show "t_skip ?td = of_nat (n_skips F (ignored ?w))" using T(6) by (simp add: X(3))
    show "t_cost ?td = clock ?w" "skip_cost ?td = w_skip ?w" using T(10) by (simp_all add: X(4,5))
    fix g
    have g: "get_ri ?td = get_ri td'" by (rule get_ri_cong) simp
    show "routine_sim F ?td ?w g"
    proof (cases "g = c_fn c")
      case True
      then show ?thesis using e(5,6,7) fn
        by (cases "discard fn") (simp_all add: routine_sim_def g e(4) discards_def add_children_simps)
    next
      case False
      obtain sz s where ce: "call_entry w c = (c_fn c, sz, s)" by (simp add: call_entry_def Let_def)
      have "samples_of ?log g = samples_of (log w) g" using False by (simp add: ce samples_of_Cons)
      then show ?thesis using T(11) [of g] False c w(1)
        by (auto simp: routine_sim_def g e(4) add_children_simps pending_butlast split: sum.splits)
    qed
  qed (use w in simp_all)
  then have "sim F t sh (put_td rt t ?td) ?w" by (rule sim_put [OF S]) (simp add: X(7) td(2))
  with e1 sp show ?thesis by simp
qed

section \<open>Runs\<close>

lemma step_ok:
  assumes "sim F t sh rt w" "event_ok F e w"
  shows "\<exists>rt'. step t e rt = Inr rt' \<and> sim F t sh rt' (spec_step F sh e w)"
proof (cases e)
  case (Enter f csp)
  note a = assms(1) assms(2) [unfolded Enter]
  show ?thesis
    using step_Enter_ignored [OF a] step_Enter_tracked [OF a] unfolding Enter by blast
next
  case Exit
  with assms(2) have "ignored w \<noteq> [] \<or> tracked w \<noteq> []" by (auto simp: height_def)
  with assms Exit step_Exit_ignored step_Exit_tracked show ?thesis by blast
next
  case (Access type addr n)
  with assms step_Access show ?thesis by blast
next
  case Tick
  with assms step_Tick show ?thesis by blast
qed

fun run :: "nat \<Rightarrow> event list \<Rightarrow> Runtime \<Rightarrow> Runtime res" where
  "run t [] rt = Inr rt"
| "run t (e # es) rt = bindR (step t e rt) (run t es)"

lemma run_sim:
  assumes "sim F t sh rt w" "run_ok F sh es w"
  shows "\<exists>rt'. run t es rt = Inr rt' \<and> sim F t sh rt' (spec_run F sh es w)"
  using assms
proof (induction es arbitrary: rt w)
  case (Cons e es)
  from Cons.prems(2) have "event_ok F e w" by simp
  from step_ok [OF Cons.prems(1) this] obtain rt1 where "step t e rt = Inr rt1" "sim F t sh rt1 (spec_step F sh e w)" by blast
  with Cons.IH [OF this(2)] Cons.prems(2) show ?case by simp
qed simp

section \<open>From the start of a thread\<close>

definition world0 :: world where
  "world0 = \<lparr>tracked = [], ignored = [], clock = 0, w_skip = 0, log = []\<rparr>"

text \<open>What the tool needs to know of the run: RMS, a table of its own for every thread.\<close>

definition plain_rms :: "u32 \<Rightarrow> Runtime \<Rightarrow> bool" where
  "plain_rms sh rt \<longleftrightarrow> input_metric (cfg rt) = RMS \<and> \<not> collect_CCT (cfg rt) \<and> \<not> single_report (cfg rt) \<and>
     dope_fn (cfg rt) = None \<and> unat sh \<le> 4 \<and> memory_resolution (cfg rt) = 2 ^ unat sh"

lemma LK_create_shift:
  assumes "unat sh \<le> 4"
  obtains lk where "LK_create (2 ^ unat sh) = Inr lk" "lk_inv lk" "LK_sm lk = (\<lambda>_. 0)" "res_shift lk = sh"
proof -
  have "unat sh \<in> {0, 1, 2, 3, 4}" using assms by auto
  then have "of_nat (unat sh) \<in> (of_nat ` {0, 1, 2, 3, 4} :: u32 set)" by blast
  then have "sh \<in> {0, 1, 2, 3, 4}" by simp
  then obtain lk where "LK_create (2 ^ unat sh) = Inr lk" "res_shift lk = sh"
    by (elim insertE) (auto simp: LK_create_def)
  with LK_create_ok that show ?thesis by blast
qed

lemma thread_start_ok:
  assumes rms: "plain_rms sh rt" and tid: "tid_slot tid < VG_N_THREADS"
  shows "\<exists>td rt1. thread_start rt tid = Inr rt1 \<and> threads rt1 = (threads rt)(tid_slot tid \<mapsto> td) \<and>
    cfg rt1 = cfg rt \<and> fns rt1 = fns rt \<and> res_shift (shadow_memory td) = sh \<and> thread_sim F td world0"
proof -
  from rms have r: "\<not> collect_CCT (cfg rt)" "memory_resolution (cfg rt) = 2 ^ unat sh" and sh: "unat sh \<le> 4"
    by (simp_all add: plain_rms_def)
  from LK_create_shift [OF sh] obtain lk where
    lk: "LK_create (2 ^ unat sh) = Inr lk" "lk_inv lk" "LK_sm lk = (\<lambda>_. 0)" "res_shift lk = sh" by blast
  let ?td = "\<lparr>shadow_memory = lk, rtn_ht = HT_construct True, t_cost = 0, stack_depth = 0,
           stack = (\<lambda>_. zero_activation), max_stack_size = STACK_SIZE, t_last_bb = None, t_last_exit = NONE,
           next_routine_id = 0, t_skip = 0, skip_cost = 0, next_activation_id = 1, t_root = None, next_context_id = 1\<rparr>"
  have inv: "routines_inv ?td" by (simp add: routines_inv_def HT_construct_ok ht.uniq_def)
  have get: "get_ri ?td f = Inl NullDeref" for f
    by (simp add: get_ri_def HT_lookup_ht_get HT_construct_ok)
  have routines: "routine_sim F ?td world0 f" for f
    using get [of f] by (simp add: routine_sim_def world0_def samples_of_def fun_eq_iff)
  then have all: "All (routine_sim F ?td world0)" by blast
  have "stack_size_ok 64" unfolding stack_size_ok_def by (rule exI [of _ 0]) simp
  then have "thread_sim F ?td world0"
    unfolding thread_sim_def
    using inv lk all
    by (simp add: world0_def rms_rel_def stack_ok_def ids_ok_def frames_ok_def height_def n_skips_def STACK_SIZE_def MAX_STACK_SIZE_def)
  then show ?thesis
    using r lk tid by (intro exI [of _ ?td]) (simp add: thread_start_def slot_ok_def put_td_def Let_def)
qed

lemma thread_switch_new:
  assumes rms: "plain_rms sh rt" and tid: "tid \<noteq> 0" "tid \<noteq> current_TID rt" "tid_slot tid < VG_N_THREADS"
    and new: "threads rt (tid_slot tid) = None" and cur: "\<forall>t. current_tdata rt = Some t \<longrightarrow> threads rt t \<noteq> None"
  shows "\<exists>rt1. thread_switch rt tid = Inr rt1 \<and> sim (fns rt) (tid_slot tid) sh rt1 world0"
proof -
  have ne: "current_tdata rt = Some t \<Longrightarrow> tid_slot tid \<noteq> t" for t using cur new by blast
  obtain rt1 where rt1: "(case current_tdata rt of None \<Rightarrow> Inr rt
      | Some t \<Rightarrow> bindR (get_td rt t) (\<lambda>td. Inr (put_td rt t (td\<lparr>t_last_exit := last_exit rt\<rparr>)))) = Inr rt1"
    "cfg rt1 = cfg rt" "fns rt1 = fns rt" "threads rt1 (tid_slot tid) = None"
    using cur new ne by (cases "current_tdata rt") (auto simp: get_td_def put_td_def)
  let ?rt2 = "rt1\<lparr>current_TID := tid\<rparr>"
  have "plain_rms sh ?rt2" using rms rt1 by (simp add: plain_rms_def)
  from thread_start_ok [OF this tid(3), of "fns rt"] obtain rt4 td where rt4: "thread_start ?rt2 tid = Inr rt4"
    "threads rt4 = (threads rt1)(tid_slot tid \<mapsto> td)" "cfg rt4 = cfg rt" "fns rt4 = fns rt"
    "res_shift (shadow_memory td) = sh" "thread_sim (fns rt) td world0" using rt1 by auto
  have m: "input_metric (cfg rt1) \<noteq> DRMS" using rms rt1(2) by (simp add: plain_rms_def)
  show ?thesis
    using rms tid(1-3) rt1 rt4 m
    by (simp add: thread_switch_def Let_def VG_INVALID_THREADID_def slot_ok_def get_td_def sim_def plain_rms_def)
qed

section \<open>The profile\<close>

text \<open>What the tables of thread \<open>t\<close> hold of the function with key \<open>f\<close> at the input size \<open>sz\<close>.\<close>

definition profile :: "Runtime \<Rightarrow> nat \<Rightarrow> u64 \<Rightarrow> u32 \<Rightarrow> Input option" where
  "profile rt t f sz =
     (case threads rt t of None \<Rightarrow> None | Some td \<Rightarrow>
      (case get_ri td f of Inl _ \<Rightarrow> None | Inr ri \<Rightarrow>
       (case input_map ri of OwnMap m \<Rightarrow> map_option val (HT_lookup m (ucast sz)) | _ \<Rightarrow> None)))"

definition entries :: "entry list \<Rightarrow> u64 \<Rightarrow> u32 \<Rightarrow> Sample list" where
  "entries l f sz = map (\<lambda>e. snd (snd e)) (filter (\<lambda>e. fst e = f \<and> fst (snd e) = sz) l)"

lemma sim_profile:
  assumes "sim F t sh rt w" "F f = Some fn" "\<not> discard fn"
  shows "profile rt t f sz =
    (if entries (log w) f sz = [] then None else Some (tuple_of (ucast sz) 0 (entries (log w) f sz)))"
proof -
  from assms(1) obtain td where td: "threads rt t = Some td" and T: "thread_sim F td w" unfolding sim_def by blast
  have e: "entries (log w) f sz = samples_of (log w) f (None, sz)" by (simp add: entries_def samples_of_def)
  show ?thesis
  proof (cases "get_ri td f")
    case (Inl x)
    then show ?thesis using thread_simD(11) [OF T, of f] td by (simp add: profile_def routine_sim_def e)
  next
    case (Inr ri)
    with thread_simD(11) [OF T, of f] assms(2,3) obtain m where
      "input_map ri = OwnMap m" "map_rel False m (samples_of (log w) f)" by (auto simp: routine_sim_def)
    with Inr td show ?thesis by (simp add: profile_def e map_rel_lookup)
  qed
qed

text \<open>A run to try it on.\<close>

definition sample_fn :: "string \<Rightarrow> u64 \<Rightarrow> Function" where
  "sample_fn s i = \<lparr>fn_name = s, fn_obj = None, mangled = None, discard = False, fn_skip = False,
     fn_input_map = None, function_id = i\<rparr>"

definition sample_runtime :: Runtime where
  "sample_runtime = (case init default_params ''prog'' [] 0 of Inr rt \<Rightarrow>
     rt\<lparr>fns := [1 \<mapsto> sample_fn ''main'' 0, 2 \<mapsto> sample_fn ''f'' 1]\<rparr> | Inl _ \<Rightarrow> undefined)"

definition sample_events :: "event list" where
  "sample_events = [Enter 1 4096, Tick, Access STORE 64 8, Enter 2 4080, Tick, Tick, Access LOAD 64 8,
     Access LOAD 128 4, Exit, Enter 2 4080, Tick, Access LOAD 68 4, Exit, Tick, Exit]"

definition sample_fns :: "u64 \<Rightarrow> Function option" where
  "sample_fns = [1 \<mapsto> sample_fn ''main'' 0, 2 \<mapsto> sample_fn ''f'' 1]"

lemma sample_fns: "fns sample_runtime = sample_fns"
  by (simp add: sample_runtime_def init_def default_params_def sample_fns_def)

lemmas sample_eval = sample_events_def world0_def spec_call_def spec_return_def sample_fns_def sample_fn_def now_def
  skips_def discards_def add_children_def frame_access_def cells_of_def call_entry_def rms_value_def entries_def
  Let_def LK_addr_cell_def

abbreviation plain_sample :: "u64 \<Rightarrow> Sample" where
  "plain_sample c \<equiv> \<lparr>s_cumul = c, s_self = c, s_real = True, s_cumul_syscall = 0, s_cumul_thread = 0,
     s_self_syscall = 0, s_self_thread = 0\<rparr>"

lemma sample_log:
  "entries (log (spec_run sample_fns 2 sample_events world0)) 2 3 = [plain_sample 2]"
  "entries (log (spec_run sample_fns 2 sample_events world0)) 2 1 = [plain_sample 1]"
  "entries (log (spec_run sample_fns 2 sample_events world0)) 2 2 = []"
  "run_ok sample_fns 2 sample_events world0"
  by (simp_all add: sample_eval height_def MAX_STACK_SIZE_def)

lemma sample_start: "plain_rms 2 sample_runtime" "current_TID sample_runtime = 0" "threads sample_runtime s = None"
  "current_tdata sample_runtime = None"
  by (simp_all add: sample_runtime_def init_def default_params_def plain_rms_def VG_INVALID_THREADID_def)

text \<open>C2. The profile of a run.  When the scheduler switches to a new thread and the thread then makes
  calls, returns, accesses memory and executes basic blocks - any sequence of events the tool can
  handle - the tool handles every event without an error, and at the end the tuple it keeps for a
  function and an input size is exactly the summary of the completed calls of the specification:
  the calls of that function whose read memory size (the cells whose first access since the call
  was a read) is that size, with their number and the sum, minimum, maximum and squares of their costs; and
  it keeps no tuple for a size that no call had.\<close>

theorem profile_of_a_run:
  assumes "plain_rms sh rt" "tid \<noteq> 0" "tid \<noteq> current_TID rt" "tid_slot tid < VG_N_THREADS"
    and "threads rt (tid_slot tid) = None" "\<forall>t. current_tdata rt = Some t \<longrightarrow> threads rt t \<noteq> None"
    and "run_ok (fns rt) sh es world0"
  shows "\<exists>rt'. bindR (thread_switch rt tid) (run (tid_slot tid) es) = Inr rt' \<and>
    (\<forall>f fn sz. fns rt f = Some fn \<longrightarrow> \<not> discard fn \<longrightarrow>
      profile rt' (tid_slot tid) f sz =
        (let ss = entries (log (spec_run (fns rt) sh es world0)) f sz
         in if ss = [] then None else Some (tuple_of (ucast sz) 0 ss)))"
proof -
  from thread_switch_new [OF assms(1-6)] obtain rt1 where
    r1: "thread_switch rt tid = Inr rt1" "sim (fns rt) (tid_slot tid) sh rt1 world0" by blast
  from run_sim [OF r1(2) assms(7)] obtain rt' where
    r2: "run (tid_slot tid) es rt1 = Inr rt'" "sim (fns rt) (tid_slot tid) sh rt' (spec_run (fns rt) sh es world0)"
    by blast
  show ?thesis using r1(1) r2(1) sim_profile [OF r2(2)] by (auto simp: Let_def)
qed

theorem profile_of_a_run_witness:
  "\<exists>rt'. bindR (thread_switch sample_runtime 1) (run 0 sample_events) = Inr rt' \<and>
     profile rt' 0 2 3 = Some (tuple_of 3 0 [plain_sample 2]) \<and>
     profile rt' 0 2 1 = Some (tuple_of 1 0 [plain_sample 1]) \<and> profile rt' 0 2 2 = None"
proof -
  have slot: "tid_slot 1 = 0" by (simp add: tid_slot_def)
  from profile_of_a_run [of 2 sample_runtime 1 sample_events] obtain rt' where
    "bindR (thread_switch sample_runtime 1) (run 0 sample_events) = Inr rt'"
    and p: "\<And>sz. profile rt' 0 2 sz =
        (let ss = entries (log (spec_run sample_fns 2 sample_events world0)) 2 sz
         in if ss = [] then None else Some (tuple_of (ucast sz) 0 ss))"
    by (auto simp: sample_start sample_fns sample_log slot VG_N_THREADS_def sample_fns_def [symmetric])
      (simp add: sample_fns_def sample_fn_def)
  then show ?thesis by (simp add: p sample_log)
qed

end
