(* ===== verification/Frames.thy ===== *)
theory Frames
  imports BBStart Profile
begin

text \<open>
  The shadow stack as a list of frames: what the activations of a thread say of its native stack
  (stack pointers and return addresses), which calls and returns change in the obvious way and
  everything else leaves alone.
\<close>

section \<open>What calls and returns leave alone\<close>

definition same_td :: "ThreadData \<Rightarrow> ThreadData \<Rightarrow> bool" where
  "same_td td td' \<longleftrightarrow> t_last_bb td' = t_last_bb td \<and> stack_depth td' = stack_depth td \<and>
     (\<forall>i. sp (stack td' i) = sp (stack td i) \<and> ret_addr (stack td' i) = ret_addr (stack td i))"

definition same_calls :: "nat \<Rightarrow> Runtime \<Rightarrow> Runtime \<Rightarrow> bool" where
  "same_calls t rt rt' \<longleftrightarrow> bbs rt' = bbs rt \<and> last_exit rt' = last_exit rt \<and> cfg rt' = cfg rt \<and>
     current_tdata rt' = current_tdata rt \<and>
     (\<exists>td td'. threads rt t = Some td \<and> threads rt' t = Some td' \<and> same_td td td')"

lemma same_td_refl [simp]: "same_td td td"
  by (simp add: same_td_def)

lemma same_td_trans: "same_td a b \<Longrightarrow> same_td b c \<Longrightarrow> same_td a c"
  by (simp add: same_td_def)

lemma same_calls_trans: "same_calls t a b \<Longrightarrow> same_calls t b c \<Longrightarrow> same_calls t a c"
  by (auto simp: same_calls_def intro: same_td_trans)

lemma same_calls_refl: "threads rt t = Some td \<Longrightarrow> same_calls t rt rt"
  by (simp add: same_calls_def)

lemma same_calls_put: "threads rt t = Some td \<Longrightarrow> same_td td td' \<Longrightarrow> same_calls t rt (put_td rt t td')"
  by (simp add: same_calls_def put_td_def)

lemma same_calls_put_eq: "get_td rt t = Inr td \<Longrightarrow> same_td td td' \<Longrightarrow> same_calls t rt (put_td rt t td')"
  by (simp add: same_calls_put get_td_def)

lemma same_td_set_act:
  "get_act td p = Inr a \<Longrightarrow> sp b = sp a \<Longrightarrow> ret_addr b = ret_addr a \<Longrightarrow> same_td td (set_act td p b)"
  by (auto simp: same_td_def set_act_def get_act_def split: if_splits)

lemma same_calls_upd_act:
  "upd_act rt t p f = Inr rt' \<Longrightarrow> (\<And>a. sp (f a) = sp a \<and> ret_addr (f a) = ret_addr a) \<Longrightarrow> same_calls t rt rt'"
  by (auto simp: upd_act_def bindR_eq_Inr get_td_def intro!: same_calls_put same_td_set_act)

lemma overflow_rms_loop_same:
  "overflow_rms_loop td n j arr = Inr (td', arr') \<Longrightarrow> same_td td td'"
proof (induction n arbitrary: td j arr)
  case (Suc n)
  from Suc.prems obtain td1 p a where g: "get_activation td (of_nat (j + 1)) = Inr (td1, p)" "get_act td1 p = Inr a"
    and r: "overflow_rms_loop (set_act td1 p (a\<lparr>activation_id := of_nat (j + 1)\<rparr>)) n (j + 1) (arr @ [activation_id a]) = Inr (td', arr')"
    by (auto simp: bindR_eq_Inr)
  have "same_td td td1" using g(1)
    by (auto simp: get_activation_def resize_stack_def bindR_eq_Inr same_td_def split: if_splits)
  moreover have "same_td td1 (set_act td1 p (a\<lparr>activation_id := of_nat (j + 1)\<rparr>))"
    by (rule same_td_set_act [OF g(2)]) simp_all
  ultimately show ?case using Suc.IH [OF r] by (blast intro: same_td_trans)
qed simp

lemma enter_id_rms_same:
  assumes "enter_id_rms rt t p = Inr rt'" "current_tdata rt = Some t"
  shows "same_calls t rt rt'"
proof -
  from assms(1) obtain td a where td: "threads rt t = Some td" "get_act td p = Inr a"
    by (auto simp: enter_id_rms_def bindR_eq_Inr get_td_def Let_def)
  let ?td1 = "(set_act td p (a\<lparr>activation_id := next_activation_id td\<rparr>))\<lparr>next_activation_id := next_activation_id td + 1\<rparr>"
  have s1: "same_td td ?td1"
    using same_td_set_act [OF td(2), of "a\<lparr>activation_id := next_activation_id td\<rparr>"] by (simp add: same_td_def)
  show ?thesis
  proof (cases "next_activation_id ?td1 = 0")
    case False
    with assms(1) td s1 show ?thesis
      by (auto simp: enter_id_rms_def get_td_def Let_def intro!: same_calls_put)
  next
    case True
    with assms(1) td assms(2) obtain td2 arr m n where
      "overflow_rms_loop ?td1 (unat (stack_depth ?td1)) 0 [] = Inr (td2, arr)"
      "rt' = put_td rt t (td2\<lparr>shadow_memory := m, next_activation_id := n\<rparr>)"
      by (fastforce simp: enter_id_rms_def get_td_def Let_def bindR_eq_Inr overflow_handler_rms_def)
    with s1 overflow_rms_loop_same [of ?td1 _ 0 "[]" td2 arr] have "same_td td td2" by (blast intro: same_td_trans)
    then have "same_td td (td2\<lparr>shadow_memory := m, next_activation_id := n\<rparr>)" by (simp add: same_td_def)
    with \<open>rt' = _\<close> td(1) show ?thesis by (auto intro: same_calls_put)
  qed
qed

lemma enter_reset_same: "enter_reset rt t p = Inr rt' \<Longrightarrow> same_calls t rt rt'"
  by (auto simp: enter_reset_def bindR_eq_Inr get_td_def Let_def same_td_def set_act_def get_act_def upd_ri_def
      intro!: same_calls_put split: if_splits)

lemma function_enter_same:
  assumes e: "function_enter rt t p = Inr rt'" and c: "input_metric (cfg rt) = RMS" "\<not> collect_CCT (cfg rt)" "current_tdata rt = Some t"
  shows "same_calls t rt rt'"
proof -
  from e obtain td a where td: "threads rt t = Some td" "get_act td p = Inr a"
    by (auto simp: function_enter_def bindR_eq_Inr get_td_def Let_def)
  let ?td1 = "set_act td p (a\<lparr>start := aprof_time td\<rparr>)"
  have s: "same_td td ?td1" "same_td td (?td1\<lparr>t_skip := t_skip ?td1 + 1\<rparr>)"
    using same_td_set_act [OF td(2), of "a\<lparr>start := aprof_time td\<rparr>"] by (simp_all add: same_td_def)
  have s1: "same_calls t rt (put_td rt t ?td1)" by (rule same_calls_put [OF td(1) s(1)])
  from e td c consider "rt' = put_td rt t (?td1\<lparr>t_skip := t_skip ?td1 + 1\<rparr>)" | "rt' = put_td rt t ?td1"
    | rt2 where "enter_id_rms (put_td rt t ?td1) t p = Inr rt2" "enter_reset rt2 t p = Inr rt'"
    by (auto simp: function_enter_def bindR_eq_Inr get_td_def Let_def split: if_splits)
  then show ?thesis
  proof cases
    case 1
    then show ?thesis using same_calls_put [OF td(1) s(2)] by simp
  next
    case 2
    then show ?thesis using s1 by simp
  next
    case 3
    have "current_tdata (put_td rt t ?td1) = Some t" using c(3) by simp
    from same_calls_trans [OF s1 enter_id_rms_same [OF 3(1) this]] enter_reset_same [OF 3(2)]
    show ?thesis by (rule same_calls_trans)
  qed
qed

lemma put_routine_map_same:
  "put_routine_map rt t k ri m = Inr rt' \<Longrightarrow> threads rt t = Some td \<Longrightarrow> same_calls t rt rt'"
  by (auto simp: put_routine_map_def bindR_eq_Inr get_td_def same_td_def upd_ri_def same_calls_def put_td_def
      split: input_ref.splits)

lemma exit_parent_same: "exit_parent rt t act cost = Inr rt' \<Longrightarrow> same_calls t rt rt'"
  by (auto simp: exit_parent_def bindR_eq_Inr get_td_def split: if_splits
      dest!: same_calls_upd_act intro: same_calls_refl)

lemma function_exit_same:
  assumes e: "function_exit rt t p = Inr rt'"
  shows "same_calls t rt rt'"
proof -
  from e obtain td act ri0 fn where td: "threads rt t = Some td" "get_act td p = Inr act"
    "get_ri td (routine_info act) = Inr ri0" "get_fn rt (ri_fn ri0) = Inr fn"
    by (auto simp: function_exit_def bindR_eq_Inr get_td_def)
  define td1 where "td1 = (if dope_fn (cfg rt) = Some (fn_name fn)
    then td\<lparr>t_cost := t_cost td + ucast (a_input_size act) * ucast (a_input_size act)\<rparr> else td)"
  have s1: "same_td td td1" by (simp add: td1_def same_td_def)
  define cumul where "cumul = aprof_time td1 - start act"
  define ri where "ri = ri0\<lparr>recursion_pending := recursion_pending ri0 - 1\<rparr>"
  define rt1 where "rt1 = put_td rt t (upd_ri td1 (routine_info act) (\<lambda>_. ri))"
  have e': "(if t_skip td1 > 0
      then Inr (put_td rt t (if fn_skip fn then td1\<lparr>t_skip := t_skip td1 - 1, skip_cost := skip_cost td1 + cumul\<rparr> else td1))
      else bindR (if \<not> discard fn then exit_tuple rt1 t act ri cumul (cumul - sum_children_cost act) else Inr rt1)
             (\<lambda>rt2. exit_parent rt2 t act cumul)) = Inr rt'"
    using e unfolding function_exit_def get_td_def td derefR_simps bindR_simps Let_def td1_def cumul_def ri_def rt1_def .
  show ?thesis
  proof (cases "t_skip td1 > 0")
    case True
    with e' have "rt' = put_td rt t (if fn_skip fn then td1\<lparr>t_skip := t_skip td1 - 1, skip_cost := skip_cost td1 + cumul\<rparr> else td1)"
      by simp
    moreover have "same_td td (if fn_skip fn then td1\<lparr>t_skip := t_skip td1 - 1, skip_cost := skip_cost td1 + cumul\<rparr> else td1)"
      using s1 by (simp add: same_td_def)
    ultimately show ?thesis using same_calls_put [OF td(1)] by simp
  next
    case False
    with e' obtain rt2 where r2: "(if \<not> discard fn then exit_tuple rt1 t act ri cumul (cumul - sum_children_cost act) else Inr rt1) = Inr rt2"
      "exit_parent rt2 t act cumul = Inr rt'" by (auto simp: bindR_eq_Inr)
    have a: "same_calls t rt rt1" unfolding rt1_def
      by (rule same_calls_put [OF td(1)]) (use s1 in \<open>simp add: same_td_def upd_ri_def\<close>)
    then obtain td' where t1: "threads rt1 t = Some td'" by (auto simp: same_calls_def)
    have "same_calls t rt1 rt2" using r2(1) t1
      by (auto simp: exit_tuple_def bindR_eq_Inr split: if_splits intro: put_routine_map_same same_calls_refl)
    with a exit_parent_same [OF r2(2)] show ?thesis by (blast intro: same_calls_trans)
  qed
qed

section \<open>The shadow stack as frames\<close>

text \<open>Stack pointer and return address of the activations, top first; and the place the thread is at:
  its frames, its last block, how it ended, and the blocks there are.\<close>

type_synonym sframe = "u64 \<times> u64"

definition sframes :: "ThreadData \<Rightarrow> sframe list" where
  "sframes td = map (\<lambda>i. (sp (stack td i), ret_addr (stack td i))) (rev [0..<unat (stack_depth td)])"

definition at_place :: "nat \<Rightarrow> Runtime \<Rightarrow> sframe list \<Rightarrow> nat option \<Rightarrow> jump_t \<Rightarrow> BB list \<Rightarrow> bool" where
  "at_place t rt fs l ex B \<longleftrightarrow> (\<exists>td. threads rt t = Some td \<and> sframes td = fs \<and> t_last_bb td = l) \<and>
     last_exit rt = ex \<and> bbs rt = B"

lemma sframes_same_td: "same_td td td' \<Longrightarrow> sframes td' = sframes td"
  by (simp add: sframes_def same_td_def)

lemma at_place_same_calls: "at_place t rt fs l ex B \<Longrightarrow> same_calls t rt rt' \<Longrightarrow> at_place t rt' fs l ex B"
  using sframes_same_td by (fastforce simp: at_place_def same_calls_def same_td_def)

lemma sim_sframes:
  assumes "sim F t sh rt w" "at_place t rt fs l ex B"
  obtains td where "threads rt t = Some td" "sframes td = fs" "length fs = height w" "unat (stack_depth td) = length fs"
    "get_activation_noresize (stack_depth td) = int (length fs) - 1" "t_last_bb td = l"
    "\<forall>i < length fs. get_act td (int i) = Inr (stack td i)"
proof -
  from assms obtain td where td: "threads rt t = Some td" "thread_sim F td w" "sframes td = fs" "t_last_bb td = l"
    by (auto simp: sim_def at_place_def)
  have h: "unat (stack_depth td) = height w" by (rule thread_simD(3) [OF td(2)])
  have len: "length fs = unat (stack_depth td)" using td(3) by (auto simp: sframes_def)
  have "get_activation_noresize (stack_depth td) = int (length fs) - 1"
    unfolding get_activation_noresize_def len by simp
  moreover have "\<forall>i < length fs. get_act td (int i) = Inr (stack td i)"
    using stack_ok_height [OF td(2)] len by (auto intro!: get_act_in_stack)
  ultimately show thesis using that [OF td(1,3)] td(4) h len by presburger
qed

lemma sframes_Suc:
  "unat (stack_depth td) = Suc d \<Longrightarrow> sframes td = (sp (stack td d), ret_addr (stack td d)) #
     map (\<lambda>i. (sp (stack td i), ret_addr (stack td i))) (rev [0..<d])"
  by (simp add: sframes_def)

text \<open>A return pops a frame.\<close>

lemma pop_one_place:
  assumes S: "sim F t sh rt w" and P: "at_place t rt fs l ex B" and ne: "fs \<noteq> []"
  shows "\<exists>rt'. pop_one rt t (int (length fs) - 1) = Inr rt' \<and> sim F t sh rt' (spec_return F w) \<and> at_place t rt' (tl fs) l ex B"
proof -
  from S P obtain td where td: "threads rt t = Some td" "sframes td = fs"
    "length (fs) = height w" "unat (stack_depth td) = length (fs)"
    "get_activation_noresize (stack_depth td) = int (length (fs)) - 1" "t_last_bb td = l"
    "\<forall>i < length (fs). get_act td (int i) = Inr (stack td i)" by (rule sim_sframes)
  have "event_ok F Exit w" using td(3) ne by (cases fs) auto
  from step_ok [OF S this] obtain rt' where r: "step t Exit rt = Inr rt'" "sim F t sh rt' (spec_return F w)" by auto
  from r(1) td(1,5) have p: "pop_one rt t (int (length fs) - 1) = Inr rt'" by (simp add: get_td_def)
  then obtain rt1 td1 where e: "function_exit rt t (int (length fs) - 1) = Inr rt1" "threads rt1 t = Some td1"
    "rt' = put_td rt1 t (td1\<lparr>stack_depth := stack_depth td1 - 1\<rparr>)"
    by (auto simp: pop_one_def bindR_eq_Inr get_td_def)
  from function_exit_same [OF e(1)] td(1) e(2) have s: "same_td td td1" "bbs rt1 = bbs rt" "last_exit rt1 = last_exit rt"
    by (auto simp: same_calls_def)
  obtain d where d: "length fs = Suc d" using ne by (cases fs) auto
  have "unat (stack_depth td1 - 1) = d" using s(1) td(4) d depth_pred by (simp add: same_td_def)
  then have "sframes (td1\<lparr>stack_depth := stack_depth td1 - 1\<rparr>) = tl fs"
    using s(1) td(2,4) d sframes_Suc [of td d] by (auto simp: sframes_def same_td_def)
  then have "at_place t rt' (tl fs) l ex B"
    using P e(3) s td(1,6) by (auto simp: at_place_def same_td_def put_td_def)
  with p r(2) show ?thesis by blast
qed

fun pop_count :: "u64 \<Rightarrow> nat \<Rightarrow> sframe list \<Rightarrow> nat" where
  "pop_count csp n [] = 0"
| "pop_count csp n ((s, r) # fs) = (if csp > s \<or> (csp = s \<and> n > 0) then Suc (pop_count csp (n - 1) fs) else 0)"

lemma pop_count_le: "pop_count csp n fs \<le> length fs"
  by (induction csp n fs rule: pop_count.induct) auto

lemma spec_run_Exit: "spec_run F sh (replicate (Suc k) Exit) w = spec_run F sh (replicate k Exit) (spec_return F w)"
  by simp

lemma pop_loop_place:
  assumes "sim F t sh rt w" "at_place t rt fs l ex B" "length fs \<le> fuel"
  shows "\<exists>rt'. pop_loop fuel rt t csp n (int (length fs) - 1) acc = Inr (rt', acc + of_nat (pop_count csp (unat n) fs)) \<and>
    sim F t sh rt' (spec_run F sh (replicate (pop_count csp (unat n) fs) Exit) w) \<and>
    at_place t rt' (drop (pop_count csp (unat n) fs) fs) l ex B"
  using assms
proof (induction fs arbitrary: rt w n acc fuel)
  case Nil
  from Nil.prems(1,2) obtain td where td: "threads rt t = Some td" "sframes td = []"
    "length ([] :: sframe list) = height w" "unat (stack_depth td) = length ([] :: sframe list)"
    "get_activation_noresize (stack_depth td) = int (length ([] :: sframe list)) - 1" "t_last_bb td = l"
    "\<forall>i < length ([] :: sframe list). get_act td (int i) = Inr (stack td i)" by (rule sim_sframes)
  then have "pop_loop fuel rt t csp n (- 1) acc = Inr (rt, acc)"
    using td(1,4) by (subst pop_loop.simps) (simp add: get_td_def unat_eq_0)
  with Nil show ?case by simp
next
  case (Cons f fs)
  obtain s r where f: "f = (s, r)" by (cases f)
  from Cons.prems(1,2) obtain td where td: "threads rt t = Some td" "sframes td = f # fs"
    "length (f # fs) = height w" "unat (stack_depth td) = length (f # fs)"
    "get_activation_noresize (stack_depth td) = int (length (f # fs)) - 1" "t_last_bb td = l"
    "\<forall>i < length (f # fs). get_act td (int i) = Inr (stack td i)" by (rule sim_sframes)
  have top: "sp (stack td (length fs)) = s" using sframes_Suc [of td "length fs"] td(2,4) f by simp
  have gt: "get_act td (int (length fs)) = Inr (stack td (length fs))" using td(7) by simp
  have ne: "stack_depth td \<noteq> 0" using td(4) by auto
  from Cons.prems(3) obtain fuel' where fuel: "fuel = Suc fuel'" "length fs \<le> fuel'" by (cases fuel) auto
  show ?case
  proof (cases "csp > s \<or> (csp = s \<and> n > 0)")
    case False
    then have "pop_loop fuel rt t csp n (int (length (f # fs)) - 1) acc = Inr (rt, acc)"
      using td(1) gt ne top by (subst pop_loop.simps) (auto simp: get_td_def)
    moreover have "pop_count csp (unat n) (f # fs) = 0" using False f by (auto simp: word_gt_0 unat_gt_0)
    ultimately show ?thesis using Cons.prems by simp
  next
    case True
    from pop_one_place [OF Cons.prems(1,2)] obtain rt1 where r1: "pop_one rt t (int (length fs)) = Inr rt1"
      "sim F t sh rt1 (spec_return F w)" "at_place t rt1 fs l ex B" by auto
    let ?n = "if n > 0 then n - 1 else n"
    have n: "unat ?n = unat n - 1" by (auto simp: word_gt_0 unat_minus_one)
    from Cons.IH [OF r1(2,3) fuel(2), of ?n "acc + 1"] obtain rt' where r2:
      "pop_loop fuel' rt1 t csp ?n (int (length fs) - 1) (acc + 1) = Inr (rt', acc + 1 + of_nat (pop_count csp (unat n - 1) fs))"
      "sim F t sh rt' (spec_run F sh (replicate (pop_count csp (unat n - 1) fs) Exit) (spec_return F w))"
      "at_place t rt' (drop (pop_count csp (unat n - 1) fs) fs) l ex B" unfolding n by blast
    have "pop_loop fuel rt t csp n (int (length (f # fs)) - 1) acc =
        pop_loop fuel' rt1 t csp ?n (int (length fs) - 1) (acc + 1)"
      using td(1) gt ne top True r1(1) by (subst pop_loop.simps) (simp add: get_td_def fuel(1))
    moreover have "pop_count csp (unat n) (f # fs) = Suc (pop_count csp (unat n - 1) fs)"
      using True f by (auto simp: word_gt_0 unat_gt_0)
    ultimately show ?thesis using r2 by (simp add: add.assoc)
  qed
qed

end
