(* ===== verification/Blocks.thy ===== *)
theory Blocks
  imports Frames
begin

text \<open>
  Basic blocks as events: what \<open>BB_start\<close> does to the state of a thread, in the terms of theory
  Profile.  \<open>block_step\<close> is the specification of the heuristics on the list of frames, and
  \<open>BB_start_place\<close> shows that the code makes its calls and returns, or fails where it fails.
\<close>

text \<open>C31. A return instruction at the end of the last block of a thread whose shadow stack is empty
  makes \<open>BB_start\<close> read through the null pointer \<open>current\<close> (for a block seen before).\<close>

theorem return_with_empty_stack_crashes:
  assumes "current_tdata rt = Some t" "threads rt t = Some td" "stack_depth td = 0"
    and "t_last_bb td = Some l" "l < length (bbs rt)" "last_exit rt = BBRET"
    and "b < length (bbs rt)" "bb_key (bbs rt ! b) \<noteq> 0"
  shows "BB_start di csp rt target b = Inl NullDeref"
  using assms
  by (simp add: BB_start_def get_td_def Let_def get_bb_def put_td_def real_return_def)

text \<open>The sample thread just started, with a block that ended in a return.\<close>

definition sample_block :: BB where
  "sample_block = \<lparr>bb_key = 4096, instr_offset = 7, exit = BBRET, obj_section = Vg_SectText,
     is_dl_runtime_resolve = False, is_entry = False, bb_fn = Some 1\<rparr>"

definition sample_returned :: Runtime where
  "sample_returned = (case thread_switch sample_runtime 1 of
     Inr rt \<Rightarrow> rt\<lparr>bbs := [sample_block], last_exit := BBRET,
        threads := (threads rt)(0 := map_option (\<lambda>td. td\<lparr>t_last_bb := Some 0\<rparr>) (threads rt 0))\<rparr>
   | Inl _ \<Rightarrow> sample_runtime)"

theorem return_with_empty_stack_crashes_witness:
  "\<forall>di. BB_start di 4096 sample_returned 8192 0 = Inl NullDeref"
proof
  fix di :: DebugInfo
  from thread_switch_new [of 2 sample_runtime 1] obtain rt1 where
    rt1: "thread_switch sample_runtime 1 = Inr rt1" "sim (fns sample_runtime) 0 2 rt1 world0"
    by (auto simp: sample_start tid_slot_def VG_N_THREADS_def)
  from rt1(2) obtain td where td: "current_tdata rt1 = Some 0" "threads rt1 0 = Some td" "thread_sim (fns sample_runtime) td world0"
    by (auto simp: sim_def)
  from thread_simD(3) [OF td(3)] have "stack_depth td = 0" by (simp add: height_def world0_def unat_eq_0)
  with rt1(1) td(1,2) return_with_empty_stack_crashes [of sample_returned 0 "td\<lparr>t_last_bb := Some 0\<rparr>" 0 0 di 4096 8192]
  show "BB_start di 4096 sample_returned 8192 0 = Inl NullDeref"
    by (simp add: sample_returned_def sample_block_def)
qed

section \<open>Blocks that are not the first\<close>

lemma tick_place:
  assumes "sim F t sh rt w" "at_place t rt fs l ex B" "threads rt t = Some td"
  shows "sim F t sh (put_td rt t (td\<lparr>t_cost := t_cost td + 1\<rparr>)) (spec_step F sh Tick w)"
    "at_place t (put_td rt t (td\<lparr>t_cost := t_cost td + 1\<rparr>)) fs l ex B"
proof -
  from step_Tick [OF assms(1)] assms(3) simD(1) [OF assms(1)]
  show "sim F t sh (put_td rt t (td\<lparr>t_cost := t_cost td + 1\<rparr>)) (spec_step F sh Tick w)"
    by (auto simp: increase_cost_def get_td_def)
  show "at_place t (put_td rt t (td\<lparr>t_cost := t_cost td + 1\<rparr>)) fs l ex B"
    using assms(2,3) by (auto simp: at_place_def put_td_def sframes_def)
qed

lemma sframes_upd:
  assumes "unat (stack_depth td') = Suc d" "stack td' = (stack td)(d := a)"
  shows "sframes td' = (sp a, ret_addr a) # map (\<lambda>i. (sp (stack td i), ret_addr (stack td i))) (rev [0..<d])"
  unfolding sframes_Suc [OF assms(1)] assms(2) by (auto intro!: map_cong)

text \<open>A call pushes a frame.\<close>

lemma push_place:
  assumes S: "sim F t sh rt w" and P: "at_place t rt fs l ex B" and f: "F f = Some fn" and h: "Suc (height w) < MAX_STACK_SIZE"
  shows "\<exists>rt'. push_stack rt t csp f = Inr rt' \<and> sim F t sh rt' (spec_call F f w) \<and> at_place t rt' ((csp, 0) # fs) l ex B"
proof -
  from S P obtain td where td: "threads rt t = Some td" "sframes td = fs"
    "length fs = height w" "unat (stack_depth td) = length fs"
    "get_activation_noresize (stack_depth td) = int (length fs) - 1" "t_last_bb td = l"
    "\<forall>i < length fs. get_act td (int i) = Inr (stack td i)" by (rule sim_sframes)
  from S td(1) have ts: "thread_sim F td w" by (auto simp: sim_def)
  have "event_ok F (Enter f csp) w" using f h by simp
  from step_ok [OF S this] obtain rt' where r: "push_stack rt t csp f = Inr rt'" "sim F t sh rt' (spec_call F f w)" by auto
  from push_begin [OF S td(1) ts f h, of csp] obtain td' where p:
    "push_stack rt t csp f = function_enter (put_td rt t td') t (int (height w))"
    "td' = td\<lparr>stack_depth := stack_depth td + 1, max_stack_size := max_stack_size td', rtn_ht := rtn_ht td',
       next_routine_id := next_routine_id td', stack := stack td'\<rparr>"
    "stack td' = (stack td)(height w := (stack td (height w))\<lparr>sp := csp, routine_info := f, ret_addr := 0\<rparr>)"
    "unat (stack_depth td') = Suc (height w)" by blast
  have lb: "t_last_bb td' = l" using arg_cong [OF p(2), of t_last_bb] td(6) by simp
  have sf: "sframes td' = (csp, 0) # fs"
    unfolding sframes_upd [OF p(4,3)] using td(2,3,4) by (simp add: sframes_def)
  have "same_calls t (put_td rt t td') rt'"
    by (rule function_enter_same [of _ _ "int (height w)"]) (use r(1) p(1) simD [OF S] in simp_all)
  moreover have "at_place t (put_td rt t td') ((csp, 0) # fs) l ex B"
    using P sf lb by (simp add: at_place_def put_td_def)
  ultimately have "at_place t rt' ((csp, 0) # fs) l ex B" using at_place_same_calls by blast
  with r show ?thesis by blast
qed

lemma thread_sim_cong:
  assumes s: "thread_sim F td w" and ok: "stack_ok td'"
    and e: "stack_depth td' = stack_depth td" "shadow_memory td' = shadow_memory td" "rtn_ht td' = rtn_ht td"
      "next_activation_id td' = next_activation_id td" "t_skip td' = t_skip td" "t_cost td' = t_cost td"
      "skip_cost td' = skip_cost td"
    and a: "\<And>i. stack td' i = (stack td i)\<lparr>ret_addr := ret_addr (stack td' i)\<rparr>"
  shows "thread_sim F td' w"
proof (rule thread_simI)
  note T = thread_simD [OF s]
  have f: "routine_info (stack td' i) = routine_info (stack td i)" "start (stack td' i) = start (stack td i)"
    "activation_id (stack td' i) = activation_id (stack td i)" "a_input_size (stack td' i) = a_input_size (stack td i)"
    "act_sim (stack td' i) = act_sim (stack td i)" for i
    by (subst a; simp add: act_sim_def fun_eq_iff)+
  show "routines_inv td'" using T(1) routines_inv_cong [OF e(3)] by simp
  show "rms_rel (length (tracked w)) td' (map c_frame (tracked w))"
    by (rule rms_rel_cong [OF T(2) ok]) (use T(3) e f in \<open>auto simp: height_def\<close>)
  show "act_sim (stack td' i) (tracked w ! i)" if "i < length (tracked w)" for i
    using T(4) [OF that] by (simp add: f)
  show "routine_info (stack td' (length (tracked w) + i)) = fst (ignored w ! i) \<and>
      start (stack td' (length (tracked w) + i)) = snd (ignored w ! i)" if "i < length (ignored w)" for i
    using T(5) [OF that] by (simp add: f)
  show "routine_sim F td' w f" for f by (rule routine_sim_cong [OF T(11)]) (simp_all add: get_ri_cong [OF e(3)])
qed (use thread_simD [OF s] e in simp_all)

fun set_ret :: "u64 \<Rightarrow> sframe list \<Rightarrow> sframe list" where
  "set_ret r [] = []"
| "set_ret r ((s, _) # fs) = (s, r) # fs"

lemma set_ret_place:
  assumes S: "sim F t sh rt w" and P: "at_place t rt fs l ex B" and ne: "fs \<noteq> []"
  shows "\<exists>rt'. upd_act rt t (int (length fs) - 1) (\<lambda>a. a\<lparr>ret_addr := r\<rparr>) = Inr rt' \<and> sim F t sh rt' w \<and>
    at_place t rt' (set_ret r fs) l ex B"
proof -
  from S P obtain td where td: "threads rt t = Some td" "sframes td = fs"
    "length fs = height w" "unat (stack_depth td) = length fs"
    "get_activation_noresize (stack_depth td) = int (length fs) - 1" "t_last_bb td = l"
    "\<forall>i < length fs. get_act td (int i) = Inr (stack td i)" by (rule sim_sframes)
  from S td(1) have ts: "thread_sim F td w" "res_shift (shadow_memory td) = sh" by (auto simp: sim_def)
  note T = thread_simD [OF ts(1)]
  obtain d where d: "length fs = Suc d" using ne by (cases fs) auto
  let ?td = "set_act td (int d) ((stack td d)\<lparr>ret_addr := r\<rparr>)"
  have u: "upd_act rt t (int (length fs) - 1) (\<lambda>a. a\<lparr>ret_addr := r\<rparr>) = Inr (put_td rt t ?td)"
    using td(1,7) d by (simp add: upd_act_def get_td_def)
  have ok: "stack_ok ?td" using stack_ok_height [OF ts(1)] by (simp add: stack_ok_def)
  have "thread_sim F ?td w" by (rule thread_sim_cong [OF ts(1) ok]) (simp_all add: set_act_def)
  then have s: "sim F t sh (put_td rt t ?td) w" by (rule sim_put [OF S]) (simp add: ts(2))
  have "sframes ?td = set_ret r fs"
    using sframes_Suc [of td d] sframes_upd [of ?td d td] td(2,4) d by (simp add: set_act_def)
  then have "at_place t (put_td rt t ?td) (set_ret r fs) l ex B"
    using P td(6) by (simp add: at_place_def put_td_def set_act_def)
  with u s show ?thesis by blast
qed

section \<open>The place of a block\<close>

text \<open>What \<open>BB_start\<close> looks at besides the stack: how the last block of the thread ended, whether
  this one is elsewhere (in another object or section, or the first of its function), whether the last
  one belongs to the resolver, and the address behind it if it ends in a call.\<close>

record Place =
  pl_exit :: jump_t
  pl_elsewhere :: bool
  pl_resolver :: bool
  pl_ret :: "u64 option"

definition known :: "(u64 \<Rightarrow> Function option) \<Rightarrow> BB \<Rightarrow> bool" where
  "known F bb \<longleftrightarrow> bb_key bb \<noteq> 0 \<and> (case bb_fn bb of None \<Rightarrow> False | Some f \<Rightarrow> F f \<noteq> None)"

definition bb_obj :: "(u64 \<Rightarrow> Function option) \<Rightarrow> BB \<Rightarrow> nat option" where
  "bb_obj F bb = fn_obj (the (F (the (bb_fn bb))))"

definition place :: "(u64 \<Rightarrow> Function option) \<Rightarrow> BB \<Rightarrow> BB option \<Rightarrow> jump_t \<Rightarrow> Place" where
  "place F bb lastb ex = (case lastb of
     None \<Rightarrow> \<lparr>pl_exit = NONE, pl_elsewhere = False, pl_resolver = False, pl_ret = None\<rparr>
   | Some lb \<Rightarrow> \<lparr>pl_exit = ex,
       pl_elsewhere = (bb_obj F bb \<noteq> bb_obj F lb \<or> obj_section bb \<noteq> obj_section lb \<or> is_entry bb),
       pl_resolver = is_dl_runtime_resolve lb,
       pl_ret = (if exit lb = BBCALL then Some (bb_key lb + ucast (instr_offset lb)) else None)\<rparr>)"

section \<open>What a block does to the frames\<close>

text \<open>How many frames a return leaves; 0 if it is none, \<open>None\<close> if the loop runs off the stack.\<close>

fun ret_count :: "u64 \<Rightarrow> u64 \<Rightarrow> sframe list \<Rightarrow> nat \<Rightarrow> nat option" where
  "ret_count target csp [] n = None"
| "ret_count target csp ((s, r) # fs) n =
     (if r = target then Some n
      else (case fs of [] \<Rightarrow> None | (s', _) # _ \<Rightarrow> if s' = csp then ret_count target csp fs (Suc n) else Some 0))"

definition returns :: "u64 \<Rightarrow> u64 \<Rightarrow> sframe list \<Rightarrow> nat option" where
  "returns target csp fs = (case fs of [] \<Rightarrow> None
     | (s, _) # _ \<Rightarrow> if csp < s then Some 0 else if csp = s then ret_count target csp fs 1 else Some 1)"

text \<open>A block that is not returned to: it may be called, by a call or by a jump, or the stack pointer
  shows that frames were left without a return.\<close>

definition jump_step :: "Place \<Rightarrow> bool \<Rightarrow> u64 \<Rightarrow> u64 \<Rightarrow> sframe list \<Rightarrow> event list \<times> sframe list" where
  "jump_step pl ret_as_call csp f fs =
     (let emulated = (ret_as_call \<or> pl_exit pl \<noteq> BBCALL \<and> pl_elsewhere pl);
          resolved = (emulated \<and> fs \<noteq> [] \<and> pl_resolver pl);
          left = (if resolved then [Exit] else []);
          csp1 = (if resolved then fst (hd fs) else csp);
          fs1 = (if resolved then tl fs else fs);
          m = pop_count csp1 0 fs1
      in if m > 0 then (left @ replicate m Exit, drop m fs1)
         else if emulated \<or> pl_exit pl = BBCALL
         then (let csp2 = (if emulated \<and> fs1 \<noteq> [] then fst (hd fs1) else csp1)
               in (left @ [Enter f csp2], (csp2, 0) # (case pl_ret pl of Some r \<Rightarrow> set_ret r fs1 | None \<Rightarrow> fs1)))
         else (left, fs1))"

definition block_step :: "Place \<Rightarrow> u64 \<Rightarrow> u64 \<Rightarrow> u64 \<Rightarrow> sframe list \<Rightarrow> (event list \<times> sframe list) res" where
  "block_step pl target csp f fs =
     (if pl_exit pl = BBRET
      then (case returns target csp fs of
              None \<Rightarrow> Inl (if fs = [] then NullDeref else OutOfBounds)
            | Some 0 \<Rightarrow> Inr (jump_step pl True csp f fs)
            | Some n \<Rightarrow> Inr (replicate (pop_count csp n fs) Exit, drop (pop_count csp n fs) fs))
      else Inr (jump_step pl False csp f fs))"

section \<open>The code does the same\<close>

lemma ret_frames_count:
  assumes "\<forall>i < d. get_act td (int i) = Inr (stack td i)"
  shows "ret_frames td target csp d (int d - 1) (of_nat n) =
    (case ret_count target csp (map (\<lambda>i. (sp (stack td i), ret_addr (stack td i))) (rev [0..<d])) n of
       None \<Rightarrow> Inl OutOfBounds | Some k \<Rightarrow> Inr (of_nat k))"
  using assms
proof (induction d arbitrary: n)
  case 0
  show ?case by (subst ret_frames.simps) (simp add: get_act_def)
next
  case (Suc d)
  have IH: "ret_frames td target csp d (int d - 1) (of_nat (Suc n)) =
    (case ret_count target csp (map (\<lambda>i. (sp (stack td i), ret_addr (stack td i))) (rev [0..<d])) (Suc n) of
       None \<Rightarrow> Inl OutOfBounds | Some k \<Rightarrow> Inr (of_nat k))"
    by (rule Suc.IH) (use Suc.prems in simp)
  have top: "get_act td (int d) = Inr (stack td d)" using Suc.prems by simp
  show ?case
  proof (cases d)
    case 0
    then show ?thesis using top by (subst ret_frames.simps) (simp add: get_act_def)
  next
    case (Suc d')
    then have "get_act td (int d') = Inr (stack td d')" using Suc.prems by simp
    then show ?thesis using top IH Suc by (subst ret_frames.simps) (auto simp: add.commute)
  qed
qed

lemma ret_count_le: "ret_count target csp fs n = Some k \<Longrightarrow> k \<le> n + length fs"
  by (induction target csp fs n rule: ret_count.induct) (auto split: if_splits list.splits)

lemma real_return_place:
  assumes td: "sframes td = fs" "unat (stack_depth td) = length fs"
    "get_activation_noresize (stack_depth td) = int (length fs) - 1" "length fs \<le> 16384"
    "\<forall>i < length fs. get_act td (int i) = Inr (stack td i)"
  shows "real_return td BBRET target csp (if stack_depth td > 0 then Some (get_activation_noresize (stack_depth td)) else None) =
    (case returns target csp fs of None \<Rightarrow> Inl (if fs = [] then NullDeref else OutOfBounds)
     | Some k \<Rightarrow> Inr (of_nat k, k = 0, if k = 0 then BBOTHER else BBRET))"
proof (cases "length fs")
  case 0
  then show ?thesis using td(2) by (simp add: real_return_def returns_def unat_eq_0)
next
  case (Suc d)
  have top: "get_act td (int d) = Inr (stack td d)" using td(5) Suc by simp
  have ne: "stack_depth td > 0" using td(2) Suc by (auto simp: word_gt_0)
  have fs: "fs = (sp (stack td d), ret_addr (stack td d)) # map (\<lambda>i. (sp (stack td i), ret_addr (stack td i))) (rev [0..<d])"
    using sframes_Suc [of td d] td(1,2) Suc by simp
  have fs': "map (\<lambda>i. (sp (stack td i), ret_addr (stack td i))) (rev [0..<Suc d]) = fs" using fs by simp
  have "ret_frames td target csp (Suc d) (int d) 1 =
      (case ret_count target csp fs 1 of None \<Rightarrow> Inl OutOfBounds | Some k \<Rightarrow> Inr (of_nat k))"
    using ret_frames_count [of "Suc d" td target csp 1] td(5) Suc unfolding fs' by simp
  moreover have "(of_nat k = (0 :: u32)) = (k = 0)" if "ret_count target csp fs 1 = Some k" for k
  proof -
    have "k < 2 ^ 32" using ret_count_le [OF that] td(4) by simp
    then have "unat (of_nat k :: u32) = k" by (rule unat_of_nat32)
    then show ?thesis by (auto simp: unat_eq_0)
  qed
  moreover obtain r gs where "fs = (sp (stack td d), r) # gs" using fs by blast
  ultimately show ?thesis
    using top ne td(2,3) Suc by (auto simp: real_return_def returns_def simp del: ret_count.simps split: option.splits)
qed

lemma leave_resolver_place:
  assumes S: "sim F t sh rt w" and P: "at_place t rt fs l ex B" and ne: "fs \<noteq> []"
  shows "\<exists>rt'. leave_resolver rt t (int (length fs) - 1) = Inr (rt', fst (hd fs), int (length (tl fs)) - 1) \<and>
    sim F t sh rt' (spec_return F w) \<and> at_place t rt' (tl fs) l ex B"
proof -
  from S P obtain td where td: "threads rt t = Some td" "sframes td = fs"
    "length fs = height w" "unat (stack_depth td) = length fs"
    "get_activation_noresize (stack_depth td) = int (length fs) - 1" "t_last_bb td = l"
    "\<forall>i < length fs. get_act td (int i) = Inr (stack td i)" by (rule sim_sframes)
  obtain d where d: "length fs = Suc d" using ne by (cases fs) auto
  have top: "get_act td (int d) = Inr (stack td d)" "fst (hd fs) = sp (stack td d)"
    using td(2,4,7) d sframes_Suc [of td d] by auto
  from pop_one_place [OF S P ne] obtain rt' where r: "pop_one rt t (int (length fs) - 1) = Inr rt'"
    "sim F t sh rt' (spec_return F w)" "at_place t rt' (tl fs) l ex B" by blast
  from r(2,3) obtain td' where td': "threads rt' t = Some td'"
    "get_activation_noresize (stack_depth td') = int (length (tl fs)) - 1" by (rule sim_sframes)
  from r(1) obtain rt1 td1 where p: "function_exit rt t (int d) = Inr rt1" "get_td rt1 t = Inr td1"
    "rt' = put_td rt1 t (td1\<lparr>stack_depth := stack_depth td1 - 1\<rparr>)"
    by (auto simp: pop_one_def bindR_eq_Inr d)
  have "td' = td1\<lparr>stack_depth := stack_depth td1 - 1\<rparr>" using p(3) td'(1) by simp
  then have "leave_resolver rt t (int d) = Inr (rt', sp (stack td d), get_activation_noresize (stack_depth td'))"
    using td(1) top(1) p by (simp add: leave_resolver_def get_td_def Let_def)
  with r td'(2) top d show ?thesis by auto
qed

lemma get_fn_sim: "sim F t sh rt w \<Longrightarrow> known F bb \<Longrightarrow>
   bindR (derefR (bb_fn bb)) (get_fn rt) = Inr (the (F (the (bb_fn bb))))"
  by (auto simp: known_def sim_def get_fn_def split: option.splits)

lemma is_call_place:
  assumes "sim F t sh rt w" "known F bb" "known F lb"
  shows "is_call rt bb lb rac = Inr (rac \<or> pl_elsewhere (place F bb (Some lb) ex))"
  unfolding is_call_def get_fn_sim [OF assms(1,2)] get_fn_sim [OF assms(1,3)] by (auto simp: place_def bb_obj_def)

lemma emulate_call_place:
  assumes S: "sim F t sh rt w" and P: "at_place t rt fs l ex B"
    and k: "known F bb" "\<And>lb. lastb = Some lb \<Longrightarrow> known F lb" and r: "rac \<Longrightarrow> lastb \<noteq> None \<and> ex' = BBOTHER"
    and ex': "ex' \<noteq> BBRET" "\<not> rac \<Longrightarrow> ex' = pl_exit (place F bb lastb e)"
    and cur: "fs \<noteq> [] \<Longrightarrow> cur = Some (int (length fs) - 1)"
    and em: "em = (rac \<or> pl_exit (place F bb lastb e) \<noteq> BBCALL \<and> pl_elsewhere (place F bb lastb e))"
    and rs: "rs = (em \<and> fs \<noteq> [] \<and> pl_resolver (place F bb lastb e))"
  shows "\<exists>rt'. emulate_call rt t bb lastb rac \<lparr>j_exit = ex', j_csp = csp, j_current = cur, j_emulated = False\<rparr> =
      Inr (rt', \<lparr>j_exit = (if em then BBCALL else ex'), j_csp = (if rs then fst (hd fs) else csp),
                 j_current = (if rs then Some (int (length (tl fs)) - 1) else cur), j_emulated = em\<rparr>) \<and>
    sim F t sh rt' (spec_run F sh (if rs then [Exit] else []) w) \<and> at_place t rt' (if rs then tl fs else fs) l ex B"
proof (cases lastb)
  case None
  then have "\<not> em" "\<not> rs" using em rs r by (auto simp: place_def)
  then show ?thesis using S P None by (simp add: emulate_call_def)
next
  case (Some lb)
  from S P obtain td where td: "threads rt t = Some td" "unat (stack_depth td) = length fs" by (rule sim_sframes)
  have d: "(stack_depth td > 0) = (fs \<noteq> [])" using td(2) by (cases fs) (auto simp: word_gt_0 unat_eq_0)
  have c: "is_call rt bb lb rac = Inr (rac \<or> pl_elsewhere (place F bb lastb e))"
    unfolding Some by (rule is_call_place [OF S k(1) k(2) [OF Some]])
  have rl: "pl_resolver (place F bb lastb e) = is_dl_runtime_resolve lb" by (simp add: Some place_def)
  show ?thesis
  proof (cases em)
    case False
    then have "emulate_call rt t bb lastb rac \<lparr>j_exit = ex', j_csp = csp, j_current = cur, j_emulated = False\<rparr> =
        Inr (rt, \<lparr>j_exit = ex', j_csp = csp, j_current = cur, j_emulated = False\<rparr>)"
      using c ex' em by (auto simp: emulate_call_def Some)
    with False rs S P show ?thesis by simp
  next
    case True
    then have i: "ex' \<noteq> BBCALL" "rac \<or> pl_elsewhere (place F bb lastb e)" by (cases rac; use em ex'(2) r in simp)+
    show ?thesis
    proof (cases rs)
      case False
      then have "emulate_call rt t bb lastb rac \<lparr>j_exit = ex', j_csp = csp, j_current = cur, j_emulated = False\<rparr> =
        Inr (rt, \<lparr>j_exit = BBCALL, j_csp = csp, j_current = cur, j_emulated = True\<rparr>)"
        using c ex' i True rs d td(1) rl by (auto simp: emulate_call_def Some get_td_def)
      with False True S P show ?thesis by simp
    next
      case rs': True
      then have ne: "fs \<noteq> []" using rs by simp
      from leave_resolver_place [OF S P ne] obtain rt' where l:
        "leave_resolver rt t (int (length fs) - 1) = Inr (rt', fst (hd fs), int (length (tl fs)) - 1)"
        "sim F t sh rt' (spec_return F w)" "at_place t rt' (tl fs) l ex B" by blast
      have "emulate_call rt t bb lastb rac \<lparr>j_exit = ex', j_csp = csp, j_current = cur, j_emulated = False\<rparr> =
        Inr (rt', \<lparr>j_exit = BBCALL, j_csp = fst (hd fs), j_current = Some (int (length (tl fs)) - 1), j_emulated = True\<rparr>)"
        using c ex' i rs rs' d td(1) rl l(1) cur [OF ne] by (simp add: emulate_call_def Some get_td_def)
      with l(2,3) rs' True show ?thesis by simp
    qed
  qed
qed

lemma pop_stack_place:
  assumes S: "sim F t sh rt w" and P: "at_place t rt fs l ex B" and m: "m = pop_count csp (unat n) fs"
  shows "\<exists>rt'. pop_stack rt t csp n (int (length fs) - 1) = Inr (rt', of_nat m) \<and>
    sim F t sh rt' (spec_run F sh (replicate m Exit) w) \<and> at_place t rt' (drop m fs) l ex B"
proof -
  from S P obtain td where td: "threads rt t = Some td" "unat (stack_depth td) = length fs" by (rule sim_sframes)
  then show ?thesis using pop_loop_place [OF S P order_refl, of csp n 0] by (simp add: pop_stack_def get_td_def m)
qed

lemma call_block_place:
  assumes S: "sim F t sh rt w" and P: "at_place t rt fs l ex B" and k: "known F bb" "bb_fn bb = Some f"
    and h: "Suc (height w) < MAX_STACK_SIZE"
    and cur: "fs \<noteq> [] \<Longrightarrow> j_current j = Some (int (length fs) - 1)"
    and csp2: "csp2 = (if j_emulated j \<and> fs \<noteq> [] then fst (hd fs) else j_csp j)"
  shows "\<exists>rt'. call_block rt t bb lastb j = Inr rt' \<and> sim F t sh rt' (spec_call F f w) \<and>
    at_place t rt' ((csp2, 0) # (case pl_ret (place F bb lastb e) of Some r \<Rightarrow> set_ret r fs | None \<Rightarrow> fs)) l ex B"
proof -
  from S P obtain td where td: "threads rt t = Some td" "sframes td = fs"
    "length fs = height w" "unat (stack_depth td) = length fs"
    "get_activation_noresize (stack_depth td) = int (length fs) - 1" "t_last_bb td = l"
    "\<forall>i < length fs. get_act td (int i) = Inr (stack td i)" by (rule sim_sframes)
  have d: "(stack_depth td > 0) = (fs \<noteq> [])" using td(4) by (cases fs) (auto simp: word_gt_0 unat_eq_0)
  have top: "get_act td (int (length fs) - 1) = Inr (stack td (length fs - 1)) \<and> fst (hd fs) = sp (stack td (length fs - 1))"
    if "fs \<noteq> []" using td(2,4,7) that sframes_Suc [of td "length fs - 1"] by (cases fs) auto
  have 1: "(if j_emulated j \<and> stack_depth td > 0 then bindR (derefR (j_current j)) (\<lambda>p. bindR (get_act td p) (\<lambda>a. Inr (sp a)))
      else Inr (j_csp j)) = Inr csp2"
    using d top cur csp2 by auto
  have "\<exists>rt1. (case lastb of Some lb \<Rightarrow> if stack_depth td > 0 \<and> exit lb = BBCALL
            then bindR (derefR (j_current j)) (\<lambda>p. upd_act rt t p (\<lambda>a. a\<lparr>ret_addr := bb_key lb + ucast (instr_offset lb)\<rparr>))
            else Inr rt | None \<Rightarrow> Inr rt) = Inr rt1 \<and> sim F t sh rt1 w \<and>
      at_place t rt1 (case pl_ret (place F bb lastb e) of Some r \<Rightarrow> set_ret r fs | None \<Rightarrow> fs) l ex B"
  proof (cases "fs \<noteq> [] \<and> pl_ret (place F bb lastb e) \<noteq> None")
    case True
    then obtain lb where lb: "lastb = Some lb" "exit lb = BBCALL"
      "pl_ret (place F bb lastb e) = Some (bb_key lb + ucast (instr_offset lb))"
      by (auto simp: place_def split: option.splits if_splits)
    from set_ret_place [OF S P, of "bb_key lb + ucast (instr_offset lb)"] True lb d cur show ?thesis by simp
  next
    case False
    then have "(case pl_ret (place F bb lastb e) of Some r \<Rightarrow> set_ret r fs | None \<Rightarrow> fs) = fs" by (auto split: option.splits)
    with False S P d show ?thesis by (auto simp: place_def split: option.splits if_splits)
  qed
  then obtain rt1 where 2: "(case lastb of Some lb \<Rightarrow> if stack_depth td > 0 \<and> exit lb = BBCALL
            then bindR (derefR (j_current j)) (\<lambda>p. upd_act rt t p (\<lambda>a. a\<lparr>ret_addr := bb_key lb + ucast (instr_offset lb)\<rparr>))
            else Inr rt | None \<Rightarrow> Inr rt) = Inr rt1" "sim F t sh rt1 w"
      "at_place t rt1 (case pl_ret (place F bb lastb e) of Some r \<Rightarrow> set_ret r fs | None \<Rightarrow> fs) l ex B" by blast
  from k obtain fn where "F f = Some fn" by (auto simp: known_def)
  from push_place [OF 2(2,3) this h, of csp2] show ?thesis
    unfolding call_block_def get_td_def td(1) derefR_simps bindR_simps 1 2(1) k(2) .
qed

lemma adjust_stack_place:
  assumes S: "sim F t sh rt w" and P: "at_place t rt fs l ex B" and k: "known F bb" "bb_fn bb = Some f"
    and h: "Suc (height w) < MAX_STACK_SIZE" and nr: "j_exit j \<noteq> BBRET"
    and cur: "fs \<noteq> [] \<Longrightarrow> j_current j = Some (int (length fs) - 1)"
    and csp2: "csp2 = (if j_emulated j \<and> fs \<noteq> [] then fst (hd fs) else j_csp j)"
    and m: "m = pop_count (j_csp j) 0 fs"
    and evs: "evs = (if m > 0 then replicate m Exit else if j_exit j = BBCALL then [Enter f csp2] else [])"
    and fs': "fs' = (if m > 0 then drop m fs else if j_exit j = BBCALL
       then (csp2, 0) # (case pl_ret (place F bb lastb e) of Some r \<Rightarrow> set_ret r fs | None \<Rightarrow> fs) else fs)"
  shows "\<exists>rt'. adjust_stack rt t bb lastb n j = Inr rt' \<and> sim F t sh rt' (spec_run F sh evs w) \<and> at_place t rt' fs' l ex B"
proof -
  from S P obtain td where td: "threads rt t = Some td" "length fs = height w" "unat (stack_depth td) = length fs"
    by (rule sim_sframes)
  have d: "(stack_depth td > 0) = (fs \<noteq> [])" using td(3) by (cases fs) (auto simp: word_gt_0 unat_eq_0)
  have m0: "(of_nat m > (0 :: u32)) = (m > 0)"
  proof -
    from S td(1) have "height w \<le> 16384" using stack_ok_height by (auto simp: sim_def)
    then have "m < 2 ^ 32" using pop_count_le [of "j_csp j" 0 fs] td(2) m by simp
    then have "unat (of_nat m :: u32) = m" by (rule unat_of_nat32)
    then have "(of_nat m = (0 :: u32)) = (m = 0)" by (auto simp: unat_eq_0)
    then show ?thesis by (simp add: word_gt_0)
  qed
  obtain rt1 where 1: "(if stack_depth td > 0
       then bindR (derefR (j_current j)) (\<lambda>p. bindR (pop_stack rt t (j_csp j) 0 p) (\<lambda>(rt1, n).
            Inr (rt1, if n > 0 then BBRET else j_exit j)))
       else Inr (rt, j_exit j)) = Inr (rt1, if m > 0 then BBRET else j_exit j)"
     "sim F t sh rt1 (spec_run F sh (replicate m Exit) w)" "at_place t rt1 (drop m fs) l ex B"
  proof (cases "fs = []")
    case True
    then have "m = 0" by (simp add: m)
    with that [of rt] True S P d show thesis by simp
  next
    case False
    from pop_stack_place [OF S P, of m "j_csp j" 0] m obtain rt1 where
      "pop_stack rt t (j_csp j) 0 (int (length fs) - 1) = Inr (rt1, of_nat m)"
      "sim F t sh rt1 (spec_run F sh (replicate m Exit) w)" "at_place t rt1 (drop m fs) l ex B" by auto
    with that [of rt1] False d cur m0 show thesis by simp
  qed
  have a: "adjust_stack rt t bb lastb n j =
      (if (if m > 0 then BBRET else j_exit j) = BBCALL then call_block rt1 t bb lastb j else Inr rt1)"
    using nr unfolding adjust_stack_def get_td_def td(1) derefR_simps bindR_simps 1(1) prod.case by simp
  show ?thesis
  proof (cases "m = 0 \<and> j_exit j = BBCALL")
    case False
    then have "adjust_stack rt t bb lastb n j = Inr rt1" "evs = replicate m Exit" "fs' = drop m fs"
      using a evs fs' by auto
    with 1(2,3) show ?thesis by simp
  next
    case True
    then have "adjust_stack rt t bb lastb n j = call_block rt1 t bb lastb j" "evs = [Enter f csp2]"
      "fs' = (csp2, 0) # (case pl_ret (place F bb lastb e) of Some r \<Rightarrow> set_ret r fs | None \<Rightarrow> fs)"
      using a evs fs' by auto
    moreover from 1(2,3) True have "sim F t sh rt1 w" "at_place t rt1 fs l ex B" by simp_all
    ultimately show ?thesis using call_block_place [OF _ _ k h cur csp2] by simp
  qed
qed

lemma spec_run_append: "spec_run F sh (xs @ ys) w = spec_run F sh ys (spec_run F sh xs w)"
  by (induction xs arbitrary: w) simp_all

lemma jump_step_place:
  assumes S: "sim F t sh rt w" and P: "at_place t rt fs l ex B"
    and k: "known F bb" "bb_fn bb = Some f" "\<And>lb. lastb = Some lb \<Longrightarrow> known F lb"
    and h: "Suc (height w) < MAX_STACK_SIZE" and r: "rac \<Longrightarrow> lastb \<noteq> None \<and> ex' = BBOTHER \<and> pl_exit (place F bb lastb e) = BBRET"
    and ex': "ex' \<noteq> BBRET" "\<not> rac \<Longrightarrow> ex' = pl_exit (place F bb lastb e)"
    and cur: "fs \<noteq> [] \<Longrightarrow> cur = Some (int (length fs) - 1)"
    and js: "jump_step (place F bb lastb e) rac csp f fs = (evs, fs')"
  shows "\<exists>rt1 j rt2. emulate_call rt t bb lastb rac \<lparr>j_exit = ex', j_csp = csp, j_current = cur, j_emulated = False\<rparr> = Inr (rt1, j) \<and>
    adjust_stack rt1 t bb lastb n j = Inr rt2 \<and> sim F t sh rt2 (spec_run F sh evs w) \<and> at_place t rt2 fs' l ex B"
proof -
  let ?pl = "place F bb lastb e"
  define em where "em = (rac \<or> pl_exit ?pl \<noteq> BBCALL \<and> pl_elsewhere ?pl)"
  define rs where "rs = (em \<and> fs \<noteq> [] \<and> pl_resolver ?pl)"
  define fs1 where "fs1 = (if rs then tl fs else fs)"
  define csp1 where "csp1 = (if rs then fst (hd fs) else csp)"
  define w1 where "w1 = spec_run F sh (if rs then [Exit] else []) w"
  define j where "j = \<lparr>j_exit = (if em then BBCALL else ex'), j_csp = csp1,
      j_current = (if rs then Some (int (length (tl fs)) - 1) else cur), j_emulated = em\<rparr>"
  define m where "m = pop_count csp1 0 fs1"
  define csp2 where "csp2 = (if em \<and> fs1 \<noteq> [] then fst (hd fs1) else csp1)"
  have "rac \<Longrightarrow> lastb \<noteq> None \<and> ex' = BBOTHER" using r by blast
  from emulate_call_place [OF S P k(1,3) this ex' cur em_def rs_def, of csp] obtain rt1 where e1:
    "emulate_call rt t bb lastb rac \<lparr>j_exit = ex', j_csp = csp, j_current = cur, j_emulated = False\<rparr> = Inr (rt1, j)"
    "sim F t sh rt1 w1" "at_place t rt1 fs1 l ex B" unfolding fs1_def csp1_def w1_def j_def by blast
  from S P have hw: "length fs = height w" by (rule sim_sframes)
  from e1(2,3) have "length fs1 = height w1" by (rule sim_sframes)
  moreover have "length fs1 \<le> length fs" by (simp add: fs1_def)
  ultimately have h1: "Suc (height w1) < MAX_STACK_SIZE" using h hw by simp
  have cur1: "j_current j = Some (int (length fs1) - 1)" if "fs1 \<noteq> []" using that cur by (auto simp: j_def fs1_def)
  have nr: "j_exit j \<noteq> BBRET" using ex' by (simp add: j_def)
  have called: "(j_exit j = BBCALL) = (em \<or> pl_exit ?pl = BBCALL)" using r ex' by (auto simp: j_def em_def)
  define evs1 where "evs1 = (if m > 0 then replicate m Exit else if j_exit j = BBCALL then [Enter f csp2] else [])"
  define fs2 where "fs2 = (if m > 0 then drop m fs1 else if j_exit j = BBCALL
       then (csp2, 0) # (case pl_ret ?pl of Some r \<Rightarrow> set_ret r fs1 | None \<Rightarrow> fs1) else fs1)"
  have jj: "j_emulated j = em" "j_csp j = csp1" by (simp_all add: j_def)
  from adjust_stack_place [OF e1(2,3) k(1,2) h1 nr cur1, unfolded jj, OF _ csp2_def m_def evs1_def fs2_def, of n]
  obtain rt2 where e2: "adjust_stack rt1 t bb lastb n j = Inr rt2"
    "sim F t sh rt2 (spec_run F sh evs1 w1)" "at_place t rt2 fs2 l ex B" by blast
  have "evs = (if rs then [Exit] else []) @ evs1" "fs' = fs2"
    using js called unfolding jump_step_def Let_def evs1_def fs2_def csp2_def m_def csp1_def fs1_def rs_def em_def
    by (auto split: if_splits)
  then show ?thesis using e1(1) e2 by (auto simp: spec_run_append w1_def)
qed

text \<open>The block refinement, without the theorem's number.\<close>

lemma BB_start_place:
  assumes S: "sim F t sh rt w" and P: "at_place t rt fs l ex B" and b: "b < length B" "known F (B ! b)" "bb_fn (B ! b) = Some f"
    and l: "\<And>i. l = Some i \<Longrightarrow> i < length B \<and> known F (B ! i)" and h: "Suc (height w) < MAX_STACK_SIZE"
    and pl: "pl = place F (B ! b) (map_option ((!) B) l) ex"
  shows "case block_step pl target csp f fs of
      Inl e \<Rightarrow> BB_start di csp rt target b = Inl e
    | Inr (evs, fs') \<Rightarrow> \<exists>rt'. BB_start di csp rt target b = Inr rt' \<and>
        sim F t sh rt' (spec_run F sh (Tick # evs) w) \<and> at_place t rt' fs' (Some b) BBOTHER B"
proof -
  from S P obtain td0 where td0: "threads rt t = Some td0" "t_last_bb td0 = l" by (rule sim_sframes)
  define rt1 where "rt1 = put_td rt t (td0\<lparr>t_cost := t_cost td0 + 1\<rparr>)"
  define w1 where "w1 = spec_step F sh Tick w"
  have S1: "sim F t sh rt1 w1" and P1: "at_place t rt1 fs l ex B"
    unfolding rt1_def w1_def by (rule tick_place [OF S P td0(1)])+
  have h1: "Suc (height w1) < MAX_STACK_SIZE" using h by (simp add: w1_def height_def)
  from S1 P1 obtain td where td: "threads rt1 t = Some td" "sframes td = fs"
    "length fs = height w1" "unat (stack_depth td) = length fs"
    "get_activation_noresize (stack_depth td) = int (length fs) - 1" "t_last_bb td = l"
    "\<forall>i < length fs. get_act td (int i) = Inr (stack td i)" by (rule sim_sframes)
  from S1 td(1) have le: "length fs \<le> 16384" using stack_ok_height td(3) by (auto simp: sim_def)
  define lastb where "lastb = map_option ((!) B) l"
  have lk: "known F lb" if "lastb = Some lb" for lb using that l by (cases l) (auto simp: lastb_def)
  have lb: "(case l of None \<Rightarrow> Inr None | Some l \<Rightarrow> bindR (get_bb rt1 l) (\<lambda>lb. Inr (Some lb))) = Inr lastb"
    using l P1 by (auto simp: lastb_def get_bb_def at_place_def split: option.splits)
  define cur where "cur = (if stack_depth td > 0 then Some (get_activation_noresize (stack_depth td)) else None)"
  have cur: "cur = Some (int (length fs) - 1)" if "fs \<noteq> []"
    using that td(4,5) by (auto simp: cur_def word_gt_0 unat_eq_0)
  have ple: "(if l \<noteq> None then last_exit rt1 else NONE) = pl_exit pl"
    using P1 by (auto simp: pl lastb_def place_def at_place_def split: option.splits)
  define finish where "finish = (\<lambda>rt4. bindR (get_td rt4 t) (\<lambda>td4.
      Inr ((put_td rt4 t (td4\<lparr>t_last_bb := Some b\<rparr>))\<lparr>last_exit := BBOTHER\<rparr>)))"
  have bbs1: "get_bb rt1 b = Inr (B ! b)" "bb_key (B ! b) \<noteq> 0" using P1 b by (simp_all add: at_place_def get_bb_def known_def)
  have start: "BB_start di csp rt target b =
      bindR (real_return td (pl_exit pl) target csp cur) (\<lambda>(n_pop, rac, ex').
      bindR (emulate_call rt1 t (B ! b) lastb rac \<lparr>j_exit = ex', j_csp = csp, j_current = cur, j_emulated = False\<rparr>) (\<lambda>(rt3, j).
      bindR (adjust_stack rt3 t (B ! b) lastb n_pop j) finish))"
    unfolding BB_start_def simD(1) [OF S] derefR_simps bindR_simps get_td_def td0 Let_def rt1_def [symmetric] bbs1(1) lb td(1)
      finish_def ple cur_def using bbs1(2) by (simp add: bbs1(1) lb td(1))
  have fin: "\<exists>rt'. finish rt4 = Inr rt' \<and> sim F t sh rt' w' \<and> at_place t rt' fs' (Some b) BBOTHER B"
    if s: "sim F t sh rt4 w'" and p: "at_place t rt4 fs' l ex B" for rt4 w' fs'
  proof -
    from s p obtain td4 where td4: "threads rt4 t = Some td4" "sframes td4 = fs'" by (rule sim_sframes)
    from s td4(1) have ts: "thread_sim F td4 w'" "res_shift (shadow_memory td4) = sh" by (auto simp: sim_def)
    let ?td = "td4\<lparr>t_last_bb := Some b\<rparr>"
    have ok: "stack_ok ?td" using stack_ok_height [OF ts(1)] by (simp add: stack_ok_def)
    have "thread_sim F ?td w'" by (rule thread_sim_cong [OF ts(1) ok]) simp_all
    then have "sim F t sh (put_td rt4 t ?td) w'" by (rule sim_put [OF s]) (simp add: ts(2))
    then have "sim F t sh ((put_td rt4 t ?td)\<lparr>last_exit := BBOTHER\<rparr>) w'" by (simp add: sim_def)
    moreover have "at_place t ((put_td rt4 t ?td)\<lparr>last_exit := BBOTHER\<rparr>) fs' (Some b) BBOTHER B"
      using p td4 by (simp add: at_place_def put_td_def sframes_def)
    ultimately show ?thesis using td4(1) by (simp add: finish_def get_td_def)
  qed
  have other: "\<exists>rt'. BB_start di csp rt target b = Inr rt' \<and> sim F t sh rt' (spec_run F sh (Tick # evs) w) \<and>
      at_place t rt' fs' (Some b) BBOTHER B"
    if rr: "real_return td (pl_exit pl) target csp cur = Inr (n_pop, rac, ex')"
      and r: "rac \<Longrightarrow> lastb \<noteq> None \<and> ex' = BBOTHER \<and> pl_exit pl = BBRET" and x: "ex' \<noteq> BBRET" "\<not> rac \<Longrightarrow> ex' = pl_exit pl"
      and js: "jump_step pl rac csp f fs = (evs, fs')" for n_pop rac ex' evs fs'
  proof -
    note J = jump_step_place [OF S1 P1 b(2,3) lk h1, of lastb rac ex' ex cur csp evs fs' n_pop]
    obtain rt3 j rt4 where e: "emulate_call rt1 t (B ! b) lastb rac \<lparr>j_exit = ex', j_csp = csp, j_current = cur, j_emulated = False\<rparr> = Inr (rt3, j)"
      "adjust_stack rt3 t (B ! b) lastb n_pop j = Inr rt4" "sim F t sh rt4 (spec_run F sh evs w1)" "at_place t rt4 fs' l ex B"
      using J r x js cur unfolding pl lastb_def by blast
    with fin [OF e(3,4)] show ?thesis unfolding start rr by (simp add: w1_def)
  qed
  show ?thesis
  proof (cases "pl_exit pl = BBRET")
    case False
    then have "real_return td (pl_exit pl) target csp cur = Inr (1, False, pl_exit pl)" by (simp add: real_return_def)
    with other [OF this] False show ?thesis
      by (cases "jump_step pl False csp f fs") (simp add: block_step_def)
  next
    case True
    then have ln: "lastb \<noteq> None" by (auto simp: pl place_def lastb_def split: option.splits)
    note R = real_return_place [OF td(2,4,5) le td(7), of target csp, folded cur_def]
    show ?thesis
    proof (cases "returns target csp fs")
      case None
      then show ?thesis using R True start by (simp add: block_step_def)
    next
      case (Some n)
      show ?thesis
      proof (cases n)
        case 0
        with Some R True have "real_return td (pl_exit pl) target csp cur = Inr (0, True, BBOTHER)" by simp
        with other [OF this] True Some 0 ln show ?thesis
          by (cases "jump_step pl True csp f fs") (simp add: block_step_def)
      next
        case (Suc n')
        let ?m = "pop_count csp n fs"
        have ne: "fs \<noteq> []" using Some by (auto simp: returns_def)
        have "n \<le> 1 + length fs"
          using Some ret_count_le [of target csp fs 1 n] by (auto simp: returns_def split: list.splits if_splits)
        then have un: "unat (of_nat n :: u32) = n" using le by (intro unat_of_nat32) simp
        have rr: "real_return td (pl_exit pl) target csp cur = Inr (of_nat n, False, BBRET)" using Some R True Suc by simp
        have em: "emulate_call rt1 t (B ! b) lastb False \<lparr>j_exit = BBRET, j_csp = csp, j_current = cur, j_emulated = False\<rparr> =
            Inr (rt1, \<lparr>j_exit = BBRET, j_csp = csp, j_current = cur, j_emulated = False\<rparr>)"
          by (simp add: emulate_call_def split: option.splits)
        from pop_stack_place [OF S1 P1, of ?m csp "of_nat n"] un obtain rt4 where
          p: "pop_stack rt1 t csp (of_nat n) (int (length fs) - 1) = Inr (rt4, of_nat ?m)"
          "sim F t sh rt4 (spec_run F sh (replicate ?m Exit) w1)" "at_place t rt4 (drop ?m fs) l ex B" by auto
        have "BB_start di csp rt target b = finish rt4"
          unfolding start rr bindR_simps prod.case em adjust_stack_def using cur [OF ne] p(1) by simp
        with fin [OF p(2,3)] Some True Suc show ?thesis by (simp add: block_step_def w1_def)
      qed
    qed
  qed
qed

end
