(* ===== verification/Runs.thy ===== *)
theory Runs
  imports Blocks
begin

text \<open>
  Runs of instrumented code: the profile of a thread from its basic blocks, stack pointers and
  accesses.
\<close>

section \<open>Runs of code\<close>

text \<open>What the instrumented code of a thread calls: \<open>BB_start\<close> at the start of a block, with its
  address and the stack pointer, the accesses, and the store of how the block ends.\<close>

datatype input = Block nat u64 u64 | Data access_t u64 nat | Last jump_t

fun handle :: "DebugInfo \<Rightarrow> input \<Rightarrow> Runtime \<Rightarrow> Runtime res" where
  "handle di (Block b target csp) rt = BB_start di csp rt target b"
| "handle di (Data type addr n) rt = trace_access_rms rt type addr (of_nat n)"
| "handle di (Last ex) rt = Inr (rt\<lparr>last_exit := ex\<rparr>)"

fun handle_all :: "DebugInfo \<Rightarrow> input list \<Rightarrow> Runtime \<Rightarrow> Runtime res" where
  "handle_all di [] rt = Inr rt"
| "handle_all di (i # is) rt = bindR (handle di i rt) (handle_all di is)"

text \<open>What it amounts to: the events and where the thread is then.\<close>

type_synonym bplace = "sframe list \<times> nat option \<times> jump_t"

fun follow :: "(u64 \<Rightarrow> Function option) \<Rightarrow> BB list \<Rightarrow> input \<Rightarrow> bplace \<Rightarrow> (event list \<times> bplace) res" where
  "follow F B (Block b target csp) (fs, l, ex) =
     bindR (block_step (place F (B ! b) (map_option ((!) B) l) ex) target csp (the (bb_fn (B ! b))) fs) (\<lambda>(evs, fs').
       Inr (Tick # evs, fs', Some b, BBOTHER))"
| "follow F B (Data type addr n) p = Inr ([Access type addr n], p)"
| "follow F B (Last ex) (fs, l, _) = Inr ([], fs, l, ex)"

fun follow_all :: "(u64 \<Rightarrow> Function option) \<Rightarrow> BB list \<Rightarrow> input list \<Rightarrow> bplace \<Rightarrow> (event list \<times> bplace) res" where
  "follow_all F B [] p = Inr ([], p)"
| "follow_all F B (i # is) p = bindR (follow F B i p) (\<lambda>(evs, p').
     bindR (follow_all F B is p') (\<lambda>(evs', p''). Inr (evs @ evs', p'')))"

fun input_ok :: "(u64 \<Rightarrow> Function option) \<Rightarrow> BB list \<Rightarrow> input \<Rightarrow> bplace \<Rightarrow> bool" where
  "input_ok F B (Block b target csp) (fs, l, ex) = (b < length B \<and> known F (B ! b) \<and> Suc (length fs) < MAX_STACK_SIZE)"
| "input_ok F B (Data type addr n) p = (0 < n \<and> n < 2 ^ 31 - 16 \<and> unat addr + n \<le> 2 ^ 46)"
| "input_ok F B (Last ex) p = True"

fun inputs_ok :: "(u64 \<Rightarrow> Function option) \<Rightarrow> BB list \<Rightarrow> input list \<Rightarrow> bplace \<Rightarrow> bool" where
  "inputs_ok F B [] p = True"
| "inputs_ok F B (i # is) p = (input_ok F B i p \<and>
     (case follow F B i p of Inl _ \<Rightarrow> True | Inr (_, p') \<Rightarrow> inputs_ok F B is p'))"

definition last_ok :: "(u64 \<Rightarrow> Function option) \<Rightarrow> BB list \<Rightarrow> nat option \<Rightarrow> bool" where
  "last_ok F B l \<longleftrightarrow> (case l of None \<Rightarrow> True | Some i \<Rightarrow> i < length B \<and> known F (B ! i))"

lemma rms_cell_same: "rms_cell type addr td = Inr td' \<Longrightarrow> same_td td td'"
proof -
  assume "rms_cell type addr td = Inr td'"
  then obtain p act sm v where a: "get_act td p = Inr act"
    and r: "(let td1 = td\<lparr>shadow_memory := sm\<rparr> in
      if type \<noteq> STORE \<and> v < activation_id act
      then let td2 = set_act td1 p (act\<lparr>a_input_size := a_input_size act + 1\<rparr>) in
           bindR (get_act td2 (get_activation_noresize 1)) (\<lambda>a0.
           if v \<ge> activation_id a0
           then bindR (get_activation_by_aid td2 v) (\<lambda>q. bindR (get_act td2 q) (\<lambda>a.
                  Inr (set_act td2 q (a\<lparr>a_input_size := a_input_size a - 1\<rparr>))))
           else Inr td2)
      else Inr td1) = Inr td'"
    unfolding rms_cell_def Let_def bindR_eq_Inr by (fastforce simp: bindR_eq_Inr)
  let ?td2 = "set_act (td\<lparr>shadow_memory := sm\<rparr>) p (act\<lparr>a_input_size := a_input_size act + 1\<rparr>)"
  have 1: "same_td td (td\<lparr>shadow_memory := sm\<rparr>)" by (simp add: same_td_def)
  have "get_act (td\<lparr>shadow_memory := sm\<rparr>) p = Inr act" using a by (simp add: get_act_def split: if_splits)
  then have 2: "same_td td ?td2"
    by (rule same_td_trans [OF 1 same_td_set_act]) simp_all
  from r consider "td' = td\<lparr>shadow_memory := sm\<rparr>" | "td' = ?td2"
    | q a where "get_act ?td2 q = Inr a" "td' = set_act ?td2 q (a\<lparr>a_input_size := a_input_size a - 1\<rparr>)"
  proof (cases "type \<noteq> STORE \<and> v < activation_id act")
    case False
    with r that(1) show thesis by (simp add: Let_def)
  next
    case True
    from r [unfolded Let_def if_P [OF True]] obtain a0 :: Activation where
      e: "(if v \<ge> activation_id a0 then bindR (get_activation_by_aid ?td2 v) (\<lambda>q. bindR (get_act ?td2 q) (\<lambda>a.
          Inr (set_act ?td2 q (a\<lparr>a_input_size := a_input_size a - 1\<rparr>)))) else Inr ?td2) = Inr td'"
      unfolding bindR_eq_Inr by (elim exE conjE)
    show thesis
    proof (cases "v \<ge> activation_id a0")
      case False
      from e [unfolded if_not_P [OF False] sum.inject] show thesis by (intro that(2)) (rule sym)
    next
      case True
      from e [unfolded if_P [OF True] bindR_eq_Inr sum.inject] obtain q a where
        "get_act ?td2 q = Inr a" "set_act ?td2 q (a\<lparr>a_input_size := a_input_size a - 1\<rparr>) = td'" by (elim exE conjE)
      then show thesis by (intro that(3)) (assumption, rule sym)
    qed
  qed
  then show ?thesis
  proof cases
    case 3
    show ?thesis unfolding 3(2) by (rule same_td_trans [OF 2 same_td_set_act [OF 3(1)]]) simp_all
  qed (use 1 2 in simp_all)
qed

lemma rms_loop_same: "rms_loop r type addr n td = Inr td' \<Longrightarrow> same_td td td'"
proof (induction r type addr n td rule: rms_loop.induct)
  case (1 r type addr n td)
  show ?case
  proof (cases "n > 0 \<and> r \<noteq> 0")
    case True
    with 1(2) obtain td1 where c: "rms_cell type addr td = Inr td1"
      and l: "rms_loop r type (addr + ucast r) (n - uint r) td1 = Inr td'"
      by (subst (asm) rms_loop.simps) (auto simp: bindR_eq_Inr)
    from 1(1) [OF _ _ c l] True rms_cell_same [OF c] show ?thesis by (blast intro: same_td_trans)
  next
    case False
    with 1(2) show ?thesis by (subst (asm) rms_loop.simps) (auto split: if_splits)
  qed
qed

lemma trace_access_rms_same:
  "trace_access_rms rt type addr n = Inr rt' \<Longrightarrow> current_tdata rt = Some t \<Longrightarrow> same_calls t rt rt'"
  by (auto simp: trace_access_rms_def bindR_eq_Inr get_td_def split: if_splits prod.splits
      intro: same_calls_refl same_calls_put rms_loop_same)

lemma handle_follows:
  assumes S: "sim F t sh rt w" and P: "at_place t rt fs l ex B" and l: "last_ok F B l" and ok: "input_ok F B i (fs, l, ex)"
  shows "case follow F B i (fs, l, ex) of
      Inl e \<Rightarrow> handle di i rt = Inl e
    | Inr (evs, fs', l', ex') \<Rightarrow> \<exists>rt'. handle di i rt = Inr rt' \<and> sim F t sh rt' (spec_run F sh evs w) \<and>
        at_place t rt' fs' l' ex' B \<and> last_ok F B l'"
proof (cases i)
  case (Last x)
  have "sim F t sh (rt\<lparr>last_exit := x\<rparr>) w" "at_place t (rt\<lparr>last_exit := x\<rparr>) fs l x B"
    using S P by (simp_all add: sim_def at_place_def)
  with l show ?thesis by (simp add: Last)
next
  case (Data type addr n)
  with ok have "event_ok F (Access type addr n) w" by simp
  from step_ok [OF S this] obtain rt' where r: "trace_access_rms rt type addr (of_nat n) = Inr rt'"
    "sim F t sh rt' (spec_step F sh (Access type addr n) w)" by auto
  from P have "at_place t rt' fs l ex B"
    using trace_access_rms_same [OF r(1) simD(1) [OF S]] by (rule at_place_same_calls)
  with r l show ?thesis by (simp add: Data)
next
  case (Block b target csp)
  from S P have h: "length fs = height w" by (rule sim_sframes)
  from ok Block have b: "b < length B" "known F (B ! b)" and m: "Suc (height w) < MAX_STACK_SIZE" by (simp_all add: h)
  have l': "i < length B \<and> known F (B ! i)" if "l = Some i" for i using l that by (simp add: last_ok_def)
  from b(2) have f: "bb_fn (B ! b) = Some (the (bb_fn (B ! b)))" by (auto simp: known_def split: option.splits)
  from BB_start_place [OF S P b f l' m refl, where target = target and csp = csp and di = di] b show ?thesis
    unfolding Block
    by (cases "block_step (place F (B ! b) (map_option ((!) B) l) ex) target csp (the (bb_fn (B ! b))) fs")
      (auto simp: last_ok_def)
qed

lemma handle_all_follows:
  assumes "sim F t sh rt w" "at_place t rt fs l ex B" "last_ok F B l" "inputs_ok F B is (fs, l, ex)"
  shows "case follow_all F B is (fs, l, ex) of
      Inl e \<Rightarrow> handle_all di is rt = Inl e
    | Inr (evs, fs', l', ex') \<Rightarrow> \<exists>rt'. handle_all di is rt = Inr rt' \<and> sim F t sh rt' (spec_run F sh evs w) \<and>
        at_place t rt' fs' l' ex' B"
  using assms
proof (induction "is" arbitrary: rt w fs l ex)
  case Nil
  then show ?case by simp
next
  case (Cons i "is")
  from Cons.prems(4) have ok: "input_ok F B i (fs, l, ex)" by simp
  note H = handle_follows [OF Cons.prems(1-3) ok, of di]
  show ?case
  proof (cases "follow F B i (fs, l, ex)")
    case (Inl e)
    with H show ?thesis by simp
  next
    case (Inr r)
    obtain evs fs1 l1 ex1 where r: "r = (evs, fs1, l1, ex1)" by (cases r) auto
    from H Inr r obtain rt1 where h: "handle di i rt = Inr rt1" "sim F t sh rt1 (spec_run F sh evs w)"
      "at_place t rt1 fs1 l1 ex1 B" "last_ok F B l1" by auto
    have "inputs_ok F B is (fs1, l1, ex1)" using Cons.prems(4) Inr r by simp
    note I = Cons.IH [OF h(2-4) this]
    show ?thesis
      using I h(1) Inr r by (cases "follow_all F B is (fs1, l1, ex1)") (auto simp: spec_run_append)
  qed
qed

lemma thread_start_place:
  assumes "thread_start rt tid = Inr rt1"
  shows "bbs rt1 = bbs rt" "\<exists>td. threads rt1 (tid_slot tid) = Some td \<and> sframes td = [] \<and> t_last_bb td = None \<and> t_last_exit td = NONE"
  using assms by (auto simp: thread_start_def bindR_eq_Inr Let_def put_td_def sframes_def)

lemma thread_switch_place:
  assumes s: "thread_switch rt tid = Inr rt1" and tid: "tid \<noteq> 0" "tid \<noteq> current_TID rt" "threads rt (tid_slot tid) = None"
    and cur: "\<forall>t. current_tdata rt = Some t \<longrightarrow> threads rt t \<noteq> None" and m: "input_metric (cfg rt) = RMS"
  shows "at_place (tid_slot tid) rt1 [] None NONE (bbs rt)"
proof -
  have ne: "current_tdata rt = Some t \<Longrightarrow> tid_slot tid \<noteq> t" for t using cur tid(3) by blast
  obtain rt2 where 2: "(case current_tdata rt of None \<Rightarrow> Inr rt
      | Some t \<Rightarrow> bindR (get_td rt t) (\<lambda>td. Inr (put_td rt t (td\<lparr>t_last_exit := last_exit rt\<rparr>)))) = Inr rt2"
    "cfg rt2 = cfg rt" "bbs rt2 = bbs rt" "threads rt2 (tid_slot tid) = None"
    using cur tid(3) ne by (cases "current_tdata rt") (auto simp: get_td_def put_td_def)
  from s tid 2 m obtain rt4 td where 4: "thread_start (rt2\<lparr>current_TID := tid\<rparr>) tid = Inr rt4"
    "threads rt4 (tid_slot tid) = Some td" "rt1 = (rt4\<lparr>current_tdata := Some (tid_slot tid)\<rparr>)\<lparr>last_exit := t_last_exit td\<rparr>"
    unfolding thread_switch_def 2(1) by (auto simp: Let_def VG_INVALID_THREADID_def bindR_eq_Inr get_td_def)
  from thread_start_place [OF 4(1)] 4(2,3) 2(3) show ?thesis by (auto simp: at_place_def)
qed

text \<open>A run to try it on: \<open>main\<close> calls \<open>f\<close>, which reads eight bytes and returns.\<close>

definition sample_code_block :: "u64 \<Rightarrow> jump_t \<Rightarrow> bool \<Rightarrow> u64 \<Rightarrow> BB" where
  "sample_code_block a ex entry f = \<lparr>bb_key = a, instr_offset = 0, exit = ex, obj_section = Vg_SectText,
     is_dl_runtime_resolve = False, is_entry = entry, bb_fn = Some f\<rparr>"

definition sample_blocks :: "BB list" where
  "sample_blocks = [sample_code_block 4096 BBCALL True 1, sample_code_block 8192 BBRET True 2, sample_code_block 4103 BBOTHER False 1]"

definition sample_inputs :: "input list" where
  "sample_inputs = [Block 0 4096 1000, Last BBCALL, Block 1 8192 992, Data LOAD 64 8, Last BBRET, Block 2 4103 1000]"

definition sample_loaded :: Runtime where
  "sample_loaded = sample_runtime\<lparr>bbs := sample_blocks\<rparr>"

lemma sample_follows: "follow_all sample_fns sample_blocks sample_inputs ([], None, NONE) =
    Inr ([Tick, Tick, Enter 2 992, Access LOAD 64 8, Tick, Exit], [], Some 2, BBOTHER)"
  "inputs_ok sample_fns sample_blocks sample_inputs ([], None, NONE)"
  by (simp_all add: sample_inputs_def sample_blocks_def sample_code_block_def place_def block_step_def returns_def
      jump_step_def bb_obj_def sample_fns_def sample_fn_def known_def MAX_STACK_SIZE_def Let_def)

lemma sample_code_log:
  "entries (log (spec_run sample_fns 2 [Tick, Tick, Enter 2 992, Access LOAD 64 8, Tick, Exit] world0)) 2 2 = [plain_sample 1]"
  by (simp add: sample_eval)

text \<open>C3. The profile of a run of code.  A new thread executes known basic blocks.  From the stack
  pointers, the way the blocks end and where they are, \<open>BB_start\<close> makes exactly the calls and returns
  of the specification \<open>follow_all\<close> (a real return leaves the frames the stack pointer or the return
  address tells, a jump elsewhere is a call, the resolver of the runtime linker is left before what it
  resolved is entered, frames below the stack pointer are left), and the tuples kept at the end summarise
  the calls they complete; and where the specification reads below the shadow stack or
  through a null pointer, so does the tool.\<close>

theorem profile_of_the_code:
  assumes "plain_rms sh rt" "tid \<noteq> 0" "tid \<noteq> current_TID rt" "tid_slot tid < VG_N_THREADS"
    and "threads rt (tid_slot tid) = None" "\<forall>t. current_tdata rt = Some t \<longrightarrow> threads rt t \<noteq> None"
    and "inputs_ok (fns rt) (bbs rt) is ([], None, NONE)"
  shows "case follow_all (fns rt) (bbs rt) is ([], None, NONE) of
      Inl e \<Rightarrow> bindR (thread_switch rt tid) (handle_all di is) = Inl e
    | Inr (evs, p) \<Rightarrow> \<exists>rt'. bindR (thread_switch rt tid) (handle_all di is) = Inr rt' \<and>
        (\<forall>f fn sz. fns rt f = Some fn \<longrightarrow> \<not> discard fn \<longrightarrow>
          profile rt' (tid_slot tid) f sz =
            (let ss = entries (log (spec_run (fns rt) sh evs world0)) f sz
             in if ss = [] then None else Some (tuple_of (ucast sz) 0 ss)))"
proof -
  from thread_switch_new [OF assms(1-6)] obtain rt1 where
    r1: "thread_switch rt tid = Inr rt1" "sim (fns rt) (tid_slot tid) sh rt1 world0" by blast
  have "input_metric (cfg rt) = RMS" using assms(1) by (simp add: plain_rms_def)
  from thread_switch_place [OF r1(1) assms(2,3,5,6) this] have p: "at_place (tid_slot tid) rt1 [] None NONE (bbs rt)" .
  have "last_ok (fns rt) (bbs rt) None" by (simp add: last_ok_def)
  note H = handle_all_follows [OF r1(2) p this assms(7), of di]
  show ?thesis
  proof (cases "follow_all (fns rt) (bbs rt) is ([], None, NONE)")
    case (Inl e)
    then show ?thesis using H r1(1) by simp
  next
    case (Inr r)
    then obtain evs fs' l' ex' where r: "r = (evs, fs', l', ex')" by (cases r) auto
    from H Inr r obtain rt' where 2: "handle_all di is rt1 = Inr rt'" "sim (fns rt) (tid_slot tid) sh rt' (spec_run (fns rt) sh evs world0)"
      by auto
    show ?thesis using r1(1) 2(1) Inr r sim_profile [OF 2(2)] by (auto simp: Let_def)
  qed
qed

theorem profile_of_the_code_witness:
  "\<forall>di. \<exists>rt'. bindR (thread_switch sample_loaded 1) (handle_all di sample_inputs) = Inr rt' \<and>
     profile rt' 0 2 2 = Some (tuple_of 2 0 [plain_sample 1])"
proof
  fix di :: DebugInfo
  have slot: "tid_slot 1 = 0" by (simp add: tid_slot_def)
  have l: "plain_rms 2 sample_loaded" "current_TID sample_loaded = 0" "threads sample_loaded s = None" "current_tdata sample_loaded = None"
    "fns sample_loaded = sample_fns" "bbs sample_loaded = sample_blocks" for s
    using sample_start sample_fns by (simp_all add: sample_loaded_def plain_rms_def)
  from profile_of_the_code [of 2 sample_loaded 1 sample_inputs di] obtain rt' where
    "bindR (thread_switch sample_loaded 1) (handle_all di sample_inputs) = Inr rt'"
    and "\<forall>f fn sz. sample_fns f = Some fn \<longrightarrow> \<not> discard fn \<longrightarrow> profile rt' 0 f sz =
      (let ss = entries (log (spec_run sample_fns 2 [Tick, Tick, Enter 2 992, Access LOAD 64 8, Tick, Exit] world0)) f sz
       in if ss = [] then None else Some (tuple_of (ucast sz) 0 ss))"
    by (auto simp: l sample_follows slot VG_N_THREADS_def)
  moreover have "sample_fns 2 = Some (sample_fn ''f'' 1)" "\<not> discard (sample_fn ''f'' 1)"
    by (simp_all add: sample_fns_def sample_fn_def)
  ultimately have "profile rt' 0 2 2 = Some (tuple_of 2 0 [plain_sample 1])"
    using sample_code_log by simp
  with \<open>bindR _ _ = _\<close> show "\<exists>rt'. bindR (thread_switch sample_loaded 1) (handle_all di sample_inputs) = Inr rt' \<and>
     profile rt' 0 2 2 = Some (tuple_of 2 0 [plain_sample 1])" by blast
qed

end
