(* ===== verification/Instrument.thy ===== *)
theory Instrument
  imports BBStart Threads
begin

text \<open>
  \<open>events.c\<close>, and \<open>instrument\<close> and \<open>cmd_line\<close> of \<open>main.c\<close>: how the tool's calls get into the code
  of a basic block.  The statements are those of Valgrind's intermediate representation with the
  fields that the tool reads; the type \<open>ty\<close> of an expression (\<open>typeOfIRExpr\<close>) is a parameter.
\<close>

section \<open>Statements\<close>

datatype IRType = Ity_INVALID | Ity_I1 | Ity_I8 | Ity_I16 | Ity_I32 | Ity_I64 | Ity_I128 | Ity_F16 | Ity_F32
  | Ity_F64 | Ity_D32 | Ity_D64 | Ity_D128 | Ity_F128 | Ity_V128 | Ity_V256

fun sizeofIRType :: "IRType \<Rightarrow> int res" where
  "sizeofIRType Ity_I8 = Inr 1"
| "sizeofIRType Ity_I16 = Inr 2"
| "sizeofIRType Ity_I32 = Inr 4"
| "sizeofIRType Ity_I64 = Inr 8"
| "sizeofIRType Ity_I128 = Inr 16"
| "sizeofIRType Ity_F16 = Inr 2"
| "sizeofIRType Ity_F32 = Inr 4"
| "sizeofIRType Ity_F64 = Inr 8"
| "sizeofIRType Ity_F128 = Inr 16"
| "sizeofIRType Ity_D32 = Inr 4"
| "sizeofIRType Ity_D64 = Inr 8"
| "sizeofIRType Ity_D128 = Inr 16"
| "sizeofIRType Ity_V128 = Inr 16"
| "sizeofIRType Ity_V256 = Inr 32"
| "sizeofIRType _ = Inl (Assertion ''sizeofIRType'')"

text \<open>Of the expressions, only atoms and loads are told apart (\<open>Iex_Other\<close> is any other one).\<close>

datatype IRExpr = Iex_RdTmp u32 | Iex_Const "IRType \<times> u64" | Iex_Load IRExpr IRType | Iex_Other nat

fun eqIRAtom :: "IRExpr \<Rightarrow> IRExpr \<Rightarrow> bool" where
  "eqIRAtom (Iex_RdTmp t1) (Iex_RdTmp t2) = (t1 = t2)"
| "eqIRAtom (Iex_Const c1) (Iex_Const c2) = (c1 = c2)"
| "eqIRAtom _ _ = False"

datatype IREffect = Ifx_None | Ifx_Read | Ifx_Write | Ifx_Modify

datatype IRJumpKind = Ijk_Call | Ijk_Ret | Ijk_Other nat

text \<open>Fields: \<open>Ist_IMark\<close> address, delta and length; \<open>Ist_WrTmp\<close> the data; \<open>Ist_Store\<close> address and
  data; \<open>Ist_Dirty\<close> effect, address and size; \<open>Ist_CAS\<close> address, low and high data; \<open>Ist_LLSC\<close>
  address, the data stored (null for a load) and the type of the result.\<close>

datatype IRStmt =
    Ist_NoOp | Ist_IMark u64 u64 u32 | Ist_AbiHint | Ist_Put | Ist_PutI | Ist_MBE
  | Ist_WrTmp IRExpr
  | Ist_Store IRExpr IRExpr
  | Ist_Dirty IREffect IRExpr int
  | Ist_CAS IRExpr IRExpr "IRExpr option"
  | Ist_LLSC IRExpr "IRExpr option" IRType
  | Ist_LoadG | Ist_StoreG
  | Ist_Exit

text \<open>The statements of the instrumented block: the original ones and the tool's calls.  The last
  argument of \<open>Call_trace\<close> tells whether it is \<open>trace_access_drms\<close> (with \<open>kernel = False\<close>) or
  \<open>trace_access_rms\<close>.\<close>

datatype OutStmt =
    Orig IRStmt
  | Call_BB_start u64 nat
  | Call_increase_cost
  | Call_trace access_t IRExpr int bool
  | Store_last_exit jump_t

section \<open>Events\<close>

definition N_EVENTS :: nat where "N_EVENTS = 4"

datatype EventKind = Event_Ir | Event_Dr | Event_Dw | Event_Dm

record Event =
  ekind :: EventKind
  ev_addr :: IRExpr
  ev_size :: int

text \<open>The queue of the runtime and the block under construction.\<close>

record Block =
  events :: "Event list"
  sbOut :: "OutStmt list"

definition addStmtToIRSB :: "OutStmt \<Rightarrow> Block \<Rightarrow> Block" where
  "addStmtToIRSB s b = b\<lparr>sbOut := sbOut b @ [s]\<rparr>"

fun helper_calls :: "bool \<Rightarrow> Event \<Rightarrow> OutStmt list" where
  "helper_calls drms ev = (case ekind ev of
     Event_Ir \<Rightarrow> []
   | Event_Dr \<Rightarrow> [Call_trace LOAD (ev_addr ev) (ev_size ev) drms]
   | Event_Dw \<Rightarrow> [Call_trace STORE (ev_addr ev) (ev_size ev) drms]
   | Event_Dm \<Rightarrow> [Call_trace MODIFY (ev_addr ev) (ev_size ev) drms])"

definition flush_events_rms :: "Block \<Rightarrow> Block" where
  "flush_events_rms b = \<lparr>events = [], sbOut = sbOut b @ concat (map (helper_calls False) (events b))\<rparr>"

definition flush_events_drms :: "Block \<Rightarrow> Block" where
  "flush_events_drms b = \<lparr>events = [], sbOut = sbOut b @ concat (map (helper_calls True) (events b))\<rparr>"

text \<open>\<open>runtime.flush_events\<close>, which \<open>init\<close> sets.\<close>

definition flush_events :: "input_metric_t \<Rightarrow> Block \<Rightarrow> Block" where
  "flush_events metric = (if metric = DRMS then flush_events_drms else flush_events_rms)"

definition add_event :: "input_metric_t \<Rightarrow> EventKind \<Rightarrow> IRExpr \<Rightarrow> int \<Rightarrow> Block \<Rightarrow> Block" where
  "add_event metric k addr sz b =
     (let b1 = (if length (events b) = N_EVENTS then flush_events metric b else b)
      in b1\<lparr>events := events b1 @ [\<lparr>ekind = k, ev_addr = addr, ev_size = sz\<rparr>]\<rparr>)"

definition addEvent_Ir :: "input_metric_t \<Rightarrow> IRExpr \<Rightarrow> int \<Rightarrow> Block \<Rightarrow> Block" where
  "addEvent_Ir metric iaddr isize = add_event metric Event_Ir iaddr isize"

definition addEvent_Dr :: "input_metric_t \<Rightarrow> IRExpr \<Rightarrow> int \<Rightarrow> Block \<Rightarrow> Block" where
  "addEvent_Dr metric daddr dsize = add_event metric Event_Dr daddr dsize"

text \<open>A store right after a load of the same size from the same address makes a modify of it.\<close>

definition merges :: "Event list \<Rightarrow> IRExpr \<Rightarrow> int \<Rightarrow> bool" where
  "merges evs daddr dsize \<longleftrightarrow> evs \<noteq> [] \<and> ekind (last evs) = Event_Dr \<and> ev_size (last evs) = dsize \<and>
     eqIRAtom (ev_addr (last evs)) daddr"

definition addEvent_Dw :: "input_metric_t \<Rightarrow> IRExpr \<Rightarrow> int \<Rightarrow> Block \<Rightarrow> Block" where
  "addEvent_Dw metric daddr dsize b =
     (if merges (events b) daddr dsize
      then b\<lparr>events := butlast (events b) @ [(last (events b))\<lparr>ekind := Event_Dm\<rparr>]\<rparr>
      else add_event metric Event_Dw daddr dsize b)"

section \<open>Instrumentation\<close>

text \<open>One statement of the block; the second component adds up the length of its instructions.\<close>

definition instrument_stmt :: "(IRExpr \<Rightarrow> IRType) \<Rightarrow> input_metric_t \<Rightarrow> IRStmt \<Rightarrow> Block \<times> u32 \<Rightarrow> (Block \<times> u32) res" where
  "instrument_stmt ty metric st = (\<lambda>(b, offset). case st of
     Ist_NoOp \<Rightarrow> Inr (b, offset)
   | Ist_AbiHint \<Rightarrow> Inr (addStmtToIRSB (Orig st) b, offset)
   | Ist_Put \<Rightarrow> Inr (addStmtToIRSB (Orig st) b, offset)
   | Ist_PutI \<Rightarrow> Inr (addStmtToIRSB (Orig st) b, offset)
   | Ist_MBE \<Rightarrow> Inr (addStmtToIRSB (Orig st) b, offset)
   | Ist_IMark addr delta len \<Rightarrow>
       Inr (addStmtToIRSB (Orig st) (addEvent_Ir metric (Iex_Const (Ity_I64, addr + delta)) (uint len) b),
            offset + (if len = 0 then 1 else len))
   | Ist_WrTmp d \<Rightarrow>
       (case d of
          Iex_Load addr t \<Rightarrow> bindR (sizeofIRType t) (\<lambda>n.
            Inr (addStmtToIRSB (Orig st) (addEvent_Dr metric addr n b), offset))
        | _ \<Rightarrow> Inr (addStmtToIRSB (Orig st) b, offset))
   | Ist_Store addr d \<Rightarrow> bindR (sizeofIRType (ty d)) (\<lambda>n.
       Inr (addStmtToIRSB (Orig st) (addEvent_Dw metric addr n b), offset))
   | Ist_Dirty fx addr dsize \<Rightarrow>
       bindR (assertR (fx \<noteq> Ifx_None \<longrightarrow> dsize \<noteq> 0) ''mSize'') (\<lambda>_.
       let b1 = (if fx = Ifx_Read \<or> fx = Ifx_Modify then addEvent_Dr metric addr dsize b else b);
           b2 = (if fx = Ifx_Write \<or> fx = Ifx_Modify then addEvent_Dw metric addr dsize b1 else b1)
       in Inr (addStmtToIRSB (Orig st) b2, offset))
   | Ist_CAS addr lo hi \<Rightarrow> bindR (sizeofIRType (ty lo)) (\<lambda>n.
       let n' = (if hi \<noteq> None then n * 2 else n)
       in Inr (addStmtToIRSB (Orig st) (addEvent_Dw metric addr n' (addEvent_Dr metric addr n' b)), offset))
   | Ist_LLSC addr storedata rty \<Rightarrow>
       (case storedata of
          None \<Rightarrow> bindR (sizeofIRType rty) (\<lambda>n.
            Inr (addStmtToIRSB (Orig st) (addEvent_Dr metric addr n b), offset))
        | Some d \<Rightarrow> bindR (sizeofIRType (ty d)) (\<lambda>n.
            Inr (addStmtToIRSB (Orig st) (addEvent_Dw metric addr n b), offset)))
   | Ist_Exit \<Rightarrow> Inr (addStmtToIRSB (Orig st) (flush_events metric b), offset)
   | Ist_LoadG \<Rightarrow> Inl (Assertion ''unknown statement'')
   | Ist_StoreG \<Rightarrow> Inl (Assertion ''unknown statement''))"

fun is_IMark :: "IRStmt \<Rightarrow> bool" where
  "is_IMark (Ist_IMark addr delta len) = True"
| "is_IMark _ = False"

definition block_exit :: "IRJumpKind \<Rightarrow> jump_t" where
  "block_exit jk = (if jk = Ijk_Call then BBCALL else if jk = Ijk_Ret then BBRET else BBOTHER)"

text \<open>The call at the start of the block.\<close>

definition block_start :: "Runtime \<Rightarrow> IRStmt list \<Rightarrow> Block \<Rightarrow> (Runtime \<times> nat option \<times> Block) res" where
  "block_start rt sts b =
     (if function_tracing (cfg rt)
      then (case sts of
          Ist_IMark addr delta len # _ \<Rightarrow>
            bindR (get_BB rt (addr + delta)) (\<lambda>(rt', bb). Inr (rt', Some bb, addStmtToIRSB (Call_BB_start (addr + delta) bb) b))
        | _ \<Rightarrow> Inl OutOfBounds)
      else Inr (rt, None, addStmtToIRSB Call_increase_cost b))"

definition instrument :: "(IRExpr \<Rightarrow> IRType) \<Rightarrow> IRStmt list \<Rightarrow> IRJumpKind \<Rightarrow> IRType \<Rightarrow> IRType \<Rightarrow> Runtime \<Rightarrow> (Runtime \<times> OutStmt list) res" where
  "instrument ty sts jk gWordTy hWordTy rt =
     bindR (assertR (gWordTy = hWordTy) ''host/guest word size mismatch'') (\<lambda>_.
     let metric = input_metric (cfg rt);
         preamble = takeWhile (\<lambda>st. \<not> is_IMark st) sts;
         body = dropWhile (\<lambda>st. \<not> is_IMark st) sts
     in bindR (block_start rt body \<lparr>events = [], sbOut = map Orig preamble\<rparr>) (\<lambda>(rt1, bb, b1).
        bindR (foldR (instrument_stmt ty metric) body (b1, 0)) (\<lambda>(b2, instr_off).
        case bb of
          None \<Rightarrow> Inr (rt1, sbOut (flush_events metric b2))
        | Some i \<Rightarrow>
            bindR (get_bb rt1 i) (\<lambda>bbd.
            let bbd' = bbd\<lparr>exit := block_exit jk, instr_offset := instr_off\<rparr>
            in Inr (put_bb rt1 i bbd', sbOut (flush_events metric (addStmtToIRSB (Store_last_exit (block_exit jk)) b2)))))))"

section \<open>Command line\<close>

definition starts_with :: "string \<Rightarrow> string \<Rightarrow> string option" where
  "starts_with argv opt = (if take (length opt + 1) argv = opt @ ''='' then Some (drop (length opt + 1) argv) else None)"

definition bool_value :: "string \<Rightarrow> bool res" where
  "bool_value v = (if v = ''yes'' then Inr True else if v = ''no'' then Inr False else Inl (Assertion ''Invalid boolean value''))"

text \<open>\<open>strtoll10\<close>, and the check of an \<open>Int\<close> option: the whole text is a number that fits.\<close>

definition strtoll10 :: "string \<Rightarrow> u64 \<times> string" where
  "strtoll10 str0 =
     (let s = dropWhile isspace str0;
          neg = (case s of c # _ \<Rightarrow> c = CHR ''-'' | [] \<Rightarrow> False);
          s1 = (case s of c # s' \<Rightarrow> if c = CHR ''-'' \<or> c = CHR ''+'' then s' else s | [] \<Rightarrow> []);
          (n, r) = digits_loop 0 s1
      in (if neg then - n else n, if r = s1 then str0 else r))"

definition int_value :: "string \<Rightarrow> int res" where
  "int_value v = (let (n, r) = strtoll10 v; m = sint (ucast n :: u32)
     in if r \<noteq> [] \<or> m \<noteq> sint n then Inl (Assertion ''Invalid integer value'') else Inr m)"

text \<open>One option; \<open>cmd_line\<close> is \<open>process_option\<close>, whose result says whether the option is accepted:
  one that the tool does not know is.\<close>

definition read_option :: "string \<Rightarrow> Config \<Rightarrow> Config res" where
  "read_option argv c =
     (case starts_with argv ''--memory-resolution'' of
        Some v \<Rightarrow> bindR (int_value v) (\<lambda>n.
          bindR (assertR (n \<in> {1, 2, 4, 8, 16}) ''Invalid memory resolution'') (\<lambda>_. Inr (c\<lparr>memory_resolution := of_int n\<rparr>)))
      | None \<Rightarrow>
     (case starts_with argv ''--log-dir'' of
        Some v \<Rightarrow> Inr (c\<lparr>log_dir := Some v\<rparr>)
      | None \<Rightarrow>
     (case starts_with argv ''--dope-fn'' of
        Some v \<Rightarrow> Inr (c\<lparr>dope_fn := Some v\<rparr>)
      | None \<Rightarrow>
     (case starts_with argv ''--collect-cct'' of
        Some v \<Rightarrow> bindR (bool_value v) (\<lambda>x. Inr (c\<lparr>collect_CCT := x\<rparr>))
      | None \<Rightarrow>
     (case starts_with argv ''--single-log'' of
        Some v \<Rightarrow> bindR (bool_value v) (\<lambda>x. Inr (c\<lparr>single_report := x\<rparr>))
      | None \<Rightarrow>
     (case starts_with argv ''--incremental-log'' of
        Some v \<Rightarrow> bindR (bool_value v) (\<lambda>x. Inr (c\<lparr>incremental_report := x, single_report := True\<rparr>))
      | None \<Rightarrow>
     (case starts_with argv ''--drms'' of
        Some v \<Rightarrow> bindR (bool_value v) (\<lambda>x. Inr (if x then c\<lparr>input_metric := DRMS\<rparr> else c))
      | None \<Rightarrow> Inr c)))))))"

definition process_option :: "string \<Rightarrow> Config \<Rightarrow> (Config \<times> bool) res" where
  "process_option argv c =
     bindR (read_option argv c) (\<lambda>c'. Inr (c', \<not> (incremental_report c' \<and> collect_CCT c')))"

section \<open>What is reported\<close>

text \<open>The accesses a statement makes, in order, and those that the tool is told of; a modify is a load
  and a store.\<close>

type_synonym access = "access_t \<times> IRExpr \<times> int"

definition sized :: "int res \<Rightarrow> (int \<Rightarrow> access list) \<Rightarrow> access list" where
  "sized r f = (case r of Inl _ \<Rightarrow> [] | Inr n \<Rightarrow> f n)"

definition stmt_accesses :: "(IRExpr \<Rightarrow> IRType) \<Rightarrow> IRStmt \<Rightarrow> access list" where
  "stmt_accesses ty st = (case st of
     Ist_WrTmp (Iex_Load addr t) \<Rightarrow> sized (sizeofIRType t) (\<lambda>n. [(LOAD, addr, n)])
   | Ist_Store addr d \<Rightarrow> sized (sizeofIRType (ty d)) (\<lambda>n. [(STORE, addr, n)])
   | Ist_Dirty fx addr n \<Rightarrow> (case fx of Ifx_None \<Rightarrow> [] | Ifx_Read \<Rightarrow> [(LOAD, addr, n)] | Ifx_Write \<Rightarrow> [(STORE, addr, n)]
        | Ifx_Modify \<Rightarrow> [(LOAD, addr, n), (STORE, addr, n)])
   | Ist_CAS addr lo hi \<Rightarrow> sized (sizeofIRType (ty lo)) (\<lambda>n. let n' = (if hi = None then n else n * 2)
        in [(LOAD, addr, n'), (STORE, addr, n')])
   | Ist_LLSC addr None rty \<Rightarrow> sized (sizeofIRType rty) (\<lambda>n. [(LOAD, addr, n)])
   | Ist_LLSC addr (Some d) rty \<Rightarrow> sized (sizeofIRType (ty d)) (\<lambda>n. [(STORE, addr, n)])
   | _ \<Rightarrow> [])"

fun expand :: "access_t \<Rightarrow> IRExpr \<Rightarrow> int \<Rightarrow> access list" where
  "expand MODIFY e n = [(LOAD, e, n), (STORE, e, n)]"
| "expand t e n = [(t, e, n)]"

fun reported :: "OutStmt list \<Rightarrow> access list" where
  "reported [] = []"
| "reported (Call_trace t e n drms # os) = expand t e n @ reported os"
| "reported (_ # os) = reported os"

fun originals :: "OutStmt list \<Rightarrow> IRStmt list" where
  "originals [] = []"
| "originals (Orig st # os) = st # originals os"
| "originals (_ # os) = originals os"

definition performed :: "(IRExpr \<Rightarrow> IRType) \<Rightarrow> OutStmt list \<Rightarrow> access list" where
  "performed ty os = concat (map (stmt_accesses ty) (originals os))"

definition exits_ok :: "(IRExpr \<Rightarrow> IRType) \<Rightarrow> OutStmt list \<Rightarrow> bool" where
  "exits_ok ty os \<longleftrightarrow> (\<forall>p q. os = p @ Orig Ist_Exit # q \<longrightarrow> reported p = performed ty p)"

fun pending_of :: "Event \<Rightarrow> access list" where
  "pending_of ev = (case ekind ev of Event_Ir \<Rightarrow> [] | Event_Dr \<Rightarrow> expand LOAD (ev_addr ev) (ev_size ev)
     | Event_Dw \<Rightarrow> expand STORE (ev_addr ev) (ev_size ev) | Event_Dm \<Rightarrow> expand MODIFY (ev_addr ev) (ev_size ev))"

definition in_sync :: "(IRExpr \<Rightarrow> IRType) \<Rightarrow> access list \<Rightarrow> Block \<Rightarrow> bool" where
  "in_sync ty a b \<longleftrightarrow> reported (sbOut b) @ concat (map pending_of (events b)) = performed ty (sbOut b) @ a \<and> exits_ok ty (sbOut b)"

lemma reported_append: "reported (p @ q) = reported p @ reported q"
  by (induction p rule: reported.induct) simp_all

lemma originals_append: "originals (p @ q) = originals p @ originals q"
  by (induction p rule: originals.induct) simp_all

lemma performed_append: "performed ty (p @ q) = performed ty p @ performed ty q"
  by (simp add: performed_def originals_append)

lemma reported_helper: "reported (helper_calls drms ev) = pending_of ev" "originals (helper_calls drms ev) = []"
  by (cases "ekind ev"; simp)+

lemma reported_helpers: "reported (concat (map (helper_calls drms) evs)) = concat (map pending_of evs)"
  "originals (concat (map (helper_calls drms) evs)) = []"
  by (induction evs) (simp_all add: reported_append originals_append reported_helper del: helper_calls.simps pending_of.simps)

lemma exits_ok_snoc:
  assumes "exits_ok ty p" "x = Orig Ist_Exit \<Longrightarrow> reported p = performed ty p"
  shows "exits_ok ty (p @ [x])"
  unfolding exits_ok_def
proof (intro allI impI)
  fix q r assume e: "p @ [x] = q @ Orig Ist_Exit # r"
  show "reported q = performed ty q"
  proof (cases r rule: rev_cases)
    case Nil
    with e assms(2) show ?thesis by simp
  next
    case (snoc r' y)
    with e have "p = q @ Orig Ist_Exit # r'" by simp
    with assms(1) show ?thesis by (simp add: exits_ok_def)
  qed
qed

lemma exits_ok_append:
  "exits_ok ty p \<Longrightarrow> Orig Ist_Exit \<notin> set q \<Longrightarrow> exits_ok ty (p @ q)"
proof (induction q rule: rev_induct)
  case (snoc x q)
  then show ?case using exits_ok_snoc [of ty "p @ q" x] by auto
qed simp

lemma no_exit_helpers: "Orig st \<notin> set (concat (map (helper_calls drms) evs))"
  by (induction evs) (auto split: EventKind.splits)

lemma in_sync_flush:
  assumes "in_sync ty a b"
  shows "in_sync ty a (flush_events metric b)" "events (flush_events metric b) = []"
    "originals (sbOut (flush_events metric b)) = originals (sbOut b)"
  using assms exits_ok_append [OF _ no_exit_helpers, of ty "sbOut b"]
  by (simp_all add: in_sync_def flush_events_def flush_events_rms_def flush_events_drms_def reported_append
      performed_append reported_helpers originals_append performed_def [of ty "concat _"]
      del: helper_calls.simps pending_of.simps)

lemma in_sync_add_event:
  assumes "in_sync ty a b"
  shows "in_sync ty (a @ pending_of \<lparr>ekind = k, ev_addr = e, ev_size = n\<rparr>) (add_event metric k e n b)"
    "originals (sbOut (add_event metric k e n b)) = originals (sbOut b)"
  using assms in_sync_flush [OF assms, of metric]
  by (simp_all add: add_event_def in_sync_def Let_def del: pending_of.simps)

lemma eqIRAtom_eq: "eqIRAtom e e' \<Longrightarrow> e = e'"
  by (induction e e' rule: eqIRAtom.induct) simp_all

lemma in_sync_Dr:
  "in_sync ty a b \<Longrightarrow> in_sync ty (a @ [(LOAD, e, n)]) (addEvent_Dr metric e n b)"
  "in_sync ty a b \<Longrightarrow> originals (sbOut (addEvent_Dr metric e n b)) = originals (sbOut b)"
  using in_sync_add_event [where k = Event_Dr and e = e and n = n and metric = metric] by (simp_all add: addEvent_Dr_def)

lemma in_sync_Ir:
  "in_sync ty a b \<Longrightarrow> in_sync ty a (addEvent_Ir metric e n b)"
  "in_sync ty a b \<Longrightarrow> originals (sbOut (addEvent_Ir metric e n b)) = originals (sbOut b)"
  using in_sync_add_event [where k = Event_Ir and e = e and n = n and metric = metric] by (simp_all add: addEvent_Ir_def)

lemma in_sync_Dw:
  assumes "in_sync ty a b"
  shows "in_sync ty (a @ [(STORE, e, n)]) (addEvent_Dw metric e n b)"
    "originals (sbOut (addEvent_Dw metric e n b)) = originals (sbOut b)"
proof -
  have "in_sync ty (a @ [(STORE, e, n)]) (addEvent_Dw metric e n b) \<and>
    originals (sbOut (addEvent_Dw metric e n b)) = originals (sbOut b)"
  proof (cases "merges (events b) e n")
    case True
    then obtain evs l where l: "events b = evs @ [l]" by (cases "events b" rule: rev_cases) (auto simp: merges_def)
    with True have "ekind l = Event_Dr" "ev_size l = n" "ev_addr l = e" using eqIRAtom_eq by (auto simp: merges_def)
    with True l assms show ?thesis by (simp add: addEvent_Dw_def in_sync_def flip: append_assoc)
  next
    case False
    with in_sync_add_event [OF assms, where k = Event_Dw and e = e and n = n and metric = metric] show ?thesis by (simp add: addEvent_Dw_def)
  qed
  then show "in_sync ty (a @ [(STORE, e, n)]) (addEvent_Dw metric e n b)"
    "originals (sbOut (addEvent_Dw metric e n b)) = originals (sbOut b)" by blast+
qed

lemmas in_sync_adds = in_sync_Dr in_sync_Dw in_sync_Ir

lemma originals_addStmt [simp]:
  "originals (sbOut (addStmtToIRSB (Orig st) b)) = originals (sbOut b) @ [st]"
  by (simp add: addStmtToIRSB_def originals_append)

lemma in_sync_Orig:
  assumes "in_sync ty (stmt_accesses ty st) b" "st = Ist_Exit \<Longrightarrow> events b = []"
  shows "in_sync ty [] (addStmtToIRSB (Orig st) b)"
  using assms
  by (auto simp: in_sync_def addStmtToIRSB_def reported_append performed_append performed_def originals_append
      stmt_accesses_def intro!: exits_ok_snoc)

text \<open>A statement keeps the queue in step with the block.\<close>

definition kept :: "IRStmt \<Rightarrow> IRStmt list" where
  "kept st = (if st = Ist_NoOp then [] else [st])"

lemma instrument_stmt_ok:
  assumes i: "instrument_stmt ty metric st (b, off) = Inr (b', off')" and s: "in_sync ty [] b"
  shows "in_sync ty [] b' \<and> originals (sbOut b') = originals (sbOut b) @ kept st"
proof -
  note A = in_sync_adds
  have D: "in_sync ty [(LOAD, e, n), (STORE, e, n)] (addEvent_Dw metric e n (addEvent_Dr metric e n b))"
    "originals (sbOut (addEvent_Dw metric e n (addEvent_Dr metric e n b))) = originals (sbOut b)" for e n
    using A(3,4) [OF A(1) [OF s, where e = e and n = n and metric = metric], where e = e and n = n and metric = metric]
      A(2) [OF s] by simp_all
  note S = A [OF s, simplified] D
  note R = instrument_stmt_def bindR_eq_Inr kept_def stmt_accesses_def sized_def Let_def
  show ?thesis
  proof (cases st)
    case (Ist_WrTmp d)
    with i show ?thesis by (cases d) (auto simp: R S intro!: in_sync_Orig s)
  next
    case (Ist_Dirty fx e n)
    with i show ?thesis by (cases fx) (auto simp: R S intro!: in_sync_Orig s)
  next
    case (Ist_LLSC e d t)
    with i show ?thesis by (cases d) (auto simp: R S intro!: in_sync_Orig s)
  next
    case (Ist_CAS e lo hi)
    with i show ?thesis by (cases hi) (auto simp: R S intro!: in_sync_Orig s)
  next
    case Ist_Exit
    with i in_sync_flush [OF s, of metric] show ?thesis by (auto simp: R intro!: in_sync_Orig)
  qed (use i s in \<open>auto simp: R S intro!: in_sync_Orig split: if_splits\<close>)
qed

lemma instrument_stmts_ok:
  assumes "foldR (instrument_stmt ty metric) sts (b, off) = Inr (b', off')" "in_sync ty [] b"
  shows "in_sync ty [] b' \<and> originals (sbOut b') = originals (sbOut b) @ filter (\<lambda>st. st \<noteq> Ist_NoOp) sts"
  using assms
proof (induction sts arbitrary: b off)
  case (Cons st sts)
  from Cons.prems(1) obtain b1 off1 where i: "instrument_stmt ty metric st (b, off) = Inr (b1, off1)"
    "foldR (instrument_stmt ty metric) sts (b1, off1) = Inr (b', off')" by (auto simp: bindR_eq_Inr)
  from instrument_stmt_ok [OF i(1) Cons.prems(2)] have s: "in_sync ty [] b1"
    "originals (sbOut b1) = originals (sbOut b) @ kept st" by blast+
  from Cons.IH [OF i(2) s(1)] s(2) show ?case by (simp add: kept_def)
qed simp

lemma in_sync_quiet:
  assumes "in_sync ty a b" "reported [x] = []" "originals [x] = []"
  shows "in_sync ty a (addStmtToIRSB x b)" "originals (sbOut (addStmtToIRSB x b)) = originals (sbOut b)"
proof -
  have x: "x \<noteq> Orig Ist_Exit" using assms(3) by auto
  show "originals (sbOut (addStmtToIRSB x b)) = originals (sbOut b)"
    using assms(3) by (simp add: addStmtToIRSB_def originals_append)
  show "in_sync ty a (addStmtToIRSB x b)"
    using assms x by (auto simp: in_sync_def addStmtToIRSB_def reported_append performed_append
        performed_def [of ty "[x]"] intro!: exits_ok_snoc)
qed

lemma block_start_ok:
  assumes "block_start rt sts b = Inr (rt', bb, b')" "in_sync ty [] b"
  shows "in_sync ty [] b' \<and> originals (sbOut b') = originals (sbOut b)"
  using assms in_sync_quiet [OF assms(2)]
  by (auto simp: block_start_def bindR_eq_Inr split: if_splits list.splits IRStmt.splits)

lemma performed_preamble:
  assumes "\<forall>st \<in> set sts. stmt_accesses ty st = []"
  shows "in_sync ty [] \<lparr>events = [], sbOut = map Orig sts\<rparr>" "originals (map Orig sts) = sts"
proof -
  have o: "originals (map Orig xs) = xs" "reported (map Orig xs) = []" for xs by (induction xs) simp_all
  have p: "performed ty (map Orig xs) = []" if "set xs \<subseteq> set sts" for xs
    using that assms by (induction xs) (simp_all add: performed_def)
  have "exits_ok ty (map Orig sts)"
    unfolding exits_ok_def
  proof (intro allI impI)
    fix p' q' assume e: "map Orig sts = p' @ Orig Ist_Exit # q'"
    then have "p' = map Orig (take (length p') sts)" by (metis append_eq_conv_conj take_map)
    then show "reported p' = performed ty p'" using o p [of "take (length p') sts"] by (metis set_take_subset)
  qed
  with p o show "in_sync ty [] \<lparr>events = [], sbOut = map Orig sts\<rparr>" "originals (map Orig sts) = sts"
    by (simp_all add: in_sync_def)
qed

lemma instrument_ok:
  assumes i: "instrument ty sts jk gw hw rt = Inr (rt', out)"
    and pre: "\<forall>st \<in> set (takeWhile (\<lambda>st. \<not> is_IMark st) sts). stmt_accesses ty st = []"
  shows "originals out = takeWhile (\<lambda>st. \<not> is_IMark st) sts @
           filter (\<lambda>st. st \<noteq> Ist_NoOp) (dropWhile (\<lambda>st. \<not> is_IMark st) sts) \<and>
         reported out = performed ty out \<and> exits_ok ty out"
proof -
  let ?pre = "takeWhile (\<lambda>st. \<not> is_IMark st) sts" and ?body = "dropWhile (\<lambda>st. \<not> is_IMark st) sts"
  from i obtain rt1 bb b1 b2 off where
    b1: "block_start rt ?body \<lparr>events = [], sbOut = map Orig ?pre\<rparr> = Inr (rt1, bb, b1)" and
    b2: "foldR (instrument_stmt ty (input_metric (cfg rt))) ?body (b1, 0) = Inr (b2, off)" and
    e: "(case bb of
          None \<Rightarrow> Inr (rt1, sbOut (flush_events (input_metric (cfg rt)) b2))
        | Some i \<Rightarrow>
            bindR (get_bb rt1 i) (\<lambda>bbd.
            let bbd' = bbd\<lparr>exit := block_exit jk, instr_offset := off\<rparr>
            in Inr (put_bb rt1 i bbd', sbOut (flush_events (input_metric (cfg rt))
                 (addStmtToIRSB (Store_last_exit (block_exit jk)) b2))))) = Inr (rt', out)"
    by (auto simp: instrument_def bindR_eq_Inr Let_def)
  from e have out: "out = sbOut (flush_events (input_metric (cfg rt))
      (if bb = None then b2 else addStmtToIRSB (Store_last_exit (block_exit jk)) b2))"
    by (cases bb) (auto simp: bindR_eq_Inr Let_def)
  note P = performed_preamble [OF pre]
  from block_start_ok [OF b1 P(1)] P(2) have s1: "in_sync ty [] b1" "originals (sbOut b1) = ?pre" by simp_all
  from instrument_stmts_ok [OF b2 s1(1)] s1(2) have s2: "in_sync ty [] b2"
    "originals (sbOut b2) = ?pre @ filter (\<lambda>st. st \<noteq> Ist_NoOp) ?body" by simp_all
  let ?b3 = "if bb = None then b2 else addStmtToIRSB (Store_last_exit (block_exit jk)) b2"
  have s3: "in_sync ty [] ?b3" "originals (sbOut ?b3) = originals (sbOut b2)"
    using in_sync_quiet [OF s2(1), of "Store_last_exit (block_exit jk)"] s2(1) by simp_all
  from in_sync_flush [OF s3(1), of "input_metric (cfg rt)"] s2(2) s3(2) show ?thesis
    unfolding out by (simp add: in_sync_def)
qed

text \<open>C24. Instrumenting a basic block loses nothing: the new block contains the statements of the old one
  in their order, and the accesses reported to the tool (a modify counting as a load followed by a
  store) are, in order, exactly those of the statements; at every exit from inside the block all
  accesses made up to there have been reported, so that none is lost when the exit is taken.\<close>

theorem instrument_reports_every_access:
  assumes "instrument ty sts jk gw hw rt = Inr (rt', out)"
    and "\<forall>st \<in> set (takeWhile (\<lambda>st. \<not> is_IMark st) sts). stmt_accesses ty st = []"
  shows "originals out = takeWhile (\<lambda>st. \<not> is_IMark st) sts @
           filter (\<lambda>st. st \<noteq> Ist_NoOp) (dropWhile (\<lambda>st. \<not> is_IMark st) sts) \<and>
         reported out = concat (map (stmt_accesses ty) (originals out)) \<and>
         (\<forall>p q. out = p @ Orig Ist_Exit # q \<longrightarrow> reported p = concat (map (stmt_accesses ty) (originals p)))"
  using instrument_ok [OF assms] by (simp add: performed_def exits_ok_def)

definition sample_code :: "IRStmt list" where
  "sample_code = [Ist_AbiHint, Ist_IMark 4096 0 4, Ist_WrTmp (Iex_Load (Iex_RdTmp 1) Ity_I64), Ist_NoOp,
     Ist_Store (Iex_RdTmp 1) (Iex_RdTmp 2), Ist_Exit, Ist_IMark 4100 0 3, Ist_Store (Iex_RdTmp 3) (Iex_RdTmp 2)]"

definition empty_runtime :: "Config \<Rightarrow> Runtime" where
  "empty_runtime c = \<lparr>cfg = c, current_TID = VG_INVALID_THREADID, current_tdata = None, running_threads = 0,
     threads = (\<lambda>_. None), bb_ht = Some (HT_construct True), bbs = [],
     last_exit = NONE, last_bb = None, obj_ht = HT_construct True, objs = [],
     fn_ht = HT_construct True, fns = (\<lambda>_. None), binary_mtime = 0, application = [], cmd_line = [],
     extra_cost = 0, r_root = None, ccts = [], global_shadow_memory = None, global_counter = 1,
     dl_runtime_resolve_addr = 0, dl_runtime_resolve_length = 0, loaded_report = False, next_function_id = 0\<rparr>"

theorem instrument_reports_every_access_witness:
  "\<exists>rt' out. instrument (\<lambda>_. Ity_I64) sample_code Ijk_Ret Ity_I64 Ity_I64 (empty_runtime default_params) = Inr (rt', out) \<and>
     out = [Orig Ist_AbiHint, Call_BB_start 4096 0, Orig (Ist_IMark 4096 0 4), Orig (Ist_WrTmp (Iex_Load (Iex_RdTmp 1) Ity_I64)),
       Orig (Ist_Store (Iex_RdTmp 1) (Iex_RdTmp 2)), Call_trace MODIFY (Iex_RdTmp 1) 8 False, Orig Ist_Exit,
       Orig (Ist_IMark 4100 0 3), Orig (Ist_Store (Iex_RdTmp 3) (Iex_RdTmp 2)), Store_last_exit BBRET,
       Call_trace STORE (Iex_RdTmp 3) 8 False] \<and>
     reported out = concat (map (stmt_accesses (\<lambda>_. Ity_I64)) (originals out))"
proof -
  let ?out = "[Orig Ist_AbiHint, Call_BB_start 4096 0, Orig (Ist_IMark 4096 0 4), Orig (Ist_WrTmp (Iex_Load (Iex_RdTmp 1) Ity_I64)),
       Orig (Ist_Store (Iex_RdTmp 1) (Iex_RdTmp 2)), Call_trace MODIFY (Iex_RdTmp 1) 8 False, Orig Ist_Exit,
       Orig (Ist_IMark 4100 0 3), Orig (Ist_Store (Iex_RdTmp 3) (Iex_RdTmp 2)), Store_last_exit BBRET,
       Call_trace STORE (Iex_RdTmp 3) 8 False]"
  have "HT_lookup (HT_construct True :: nat HashTable) 4096 = None" by (simp add: HT_lookup_ht_get HT_construct_ok)
  then have "\<exists>rt'. instrument (\<lambda>_. Ity_I64) sample_code Ijk_Ret Ity_I64 Ity_I64 (empty_runtime default_params) = Inr (rt', ?out)"
    by (simp add: instrument_def sample_code_def block_start_def empty_runtime_def default_params_def get_BB_def
      instrument_stmt_def addEvent_Ir_def addEvent_Dr_def addEvent_Dw_def add_event_def addStmtToIRSB_def merges_def
      N_EVENTS_def flush_events_def flush_events_rms_def block_exit_def get_bb_def put_bb_def)
  moreover have "\<forall>st \<in> set (takeWhile (\<lambda>st. \<not> is_IMark st) sample_code). stmt_accesses (\<lambda>_. Ity_I64) st = []"
    by (simp add: sample_code_def stmt_accesses_def)
  ultimately show ?thesis using instrument_reports_every_access by blast
qed

section \<open>Options\<close>

definition config_ok :: "Config \<Rightarrow> bool" where
  "config_ok c \<longleftrightarrow> memory_resolution c \<in> {1, 2, 4, 8, 16} \<and> (input_metric c = RMS \<or> input_metric c = DRMS)"

lemma read_option_ok: "config_ok c \<Longrightarrow> read_option argv c = Inr c' \<Longrightarrow> config_ok c'"
  by (auto simp: read_option_def bindR_eq_Inr config_ok_def split: option.splits if_splits)

lemma LK_create_config: "config_ok c \<Longrightarrow> \<exists>lk. LK_create (memory_resolution c) = Inr lk"
  by (auto simp: config_ok_def LK_create_def)

text \<open>C25. Whatever options are read, a configuration that is accepted can be run: the memory
  resolution is one the shadow memory supports and the metric is known, so \<open>init\<close> does not fail
  (for a command line that fits its buffer) and a thread can be started in every slot.\<close>

theorem accepted_options_can_run:
  assumes "foldR read_option opts default_params = Inr c" "build_cmd_line exename args = Inr cmd"
  shows "\<exists>rt. init c exename args mtime = Inr rt \<and> cfg rt = c \<and>
    (\<forall>tid. tid_slot tid < VG_N_THREADS \<longrightarrow> (\<exists>rt'. thread_start rt tid = Inr rt' \<and> threads rt' (tid_slot tid) \<noteq> None))"
proof -
  have "config_ok c'" if "foldR read_option os c0 = Inr c'" "config_ok c0" for os c0 c'
    using that by (induction os arbitrary: c0) (auto simp: bindR_eq_Inr intro: read_option_ok)
  from this [OF assms(1)] have ok: "config_ok c" by (simp add: default_params_def config_ok_def)
  then have m: "input_metric c = RMS \<or> input_metric c = DRMS" by (simp add: config_ok_def)
  from LK_create_config [OF ok] obtain lk where lk: "LK_create (memory_resolution c) = Inr lk" by blast
  obtain rt where rt: "init c exename args mtime = Inr rt" "cfg rt = c"
    using assms(2) m lk by (cases "input_metric c = DRMS") (auto simp: init_def)
  have "\<exists>rt'. thread_start rt tid = Inr rt' \<and> threads rt' (tid_slot tid) \<noteq> None" if "tid_slot tid < VG_N_THREADS" for tid
    using that rt(2) lk by (simp add: thread_start_def Let_def slot_ok_def put_td_def)
  with rt show ?thesis by blast
qed

theorem accepted_options_can_run_witness:
  "\<exists>rt. init (default_params\<lparr>memory_resolution := 8, input_metric := DRMS\<rparr>) ''p'' [''-x''] 0 = Inr rt \<and>
     memory_resolution (cfg rt) = 8 \<and> (\<exists>rt'. thread_start rt 1 = Inr rt')"
proof -
  have o: "foldR read_option [''--memory-resolution=8'', ''--drms=yes''] default_params =
      Inr (default_params\<lparr>memory_resolution := 8, input_metric := DRMS\<rparr>)"
    by (simp add: read_option_def starts_with_def int_value_def strtoll10_def isspace_def is_dec_digit_def bool_value_def
        default_params_def Let_def)
  have b: "build_cmd_line ''p'' [''-x''] = Inr ''p -x''" by simp
  have s: "tid_slot 1 < VG_N_THREADS" by (simp add: tid_slot_def VG_N_THREADS_def)
  from accepted_options_can_run [OF o b, of 0] obtain rt where
    rt: "init (default_params\<lparr>memory_resolution := 8, input_metric := DRMS\<rparr>) ''p'' [''-x''] 0 = Inr rt"
    "cfg rt = default_params\<lparr>memory_resolution := 8, input_metric := DRMS\<rparr>"
    "\<forall>tid. tid_slot tid < VG_N_THREADS \<longrightarrow> (\<exists>rt'. thread_start rt tid = Inr rt' \<and> threads rt' (tid_slot tid) \<noteq> None)"
    by blast
  from rt(3) s have "\<exists>rt'. thread_start rt 1 = Inr rt'" by blast
  with rt(1,2) show ?thesis by simp
qed


end
