(* ===== verification/Syscall.thy ===== *)
theory Syscall
  imports Threads Memory
begin

text \<open>
  \<open>syscall.c\<close> (amd64-linux): after a system call, what the kernel wrote into the client's buffers is
  a store of the kernel, and what it read from them is a load.  \<open>iovecs base n\<close>, a parameter, is
  the array of \<open>n\<close> buffers (address and length) in the client's memory at \<open>base\<close>.
\<close>

section \<open>Buffers\<close>

text \<open>The loop over a buffer, one cell at a time.  \<open>sz\<close> is positive and the resolution at most 16,
  so the subtraction of the loop does not wrap; a resolution of 0 would never leave it.\<close>

function buffer_loop :: "u32 \<Rightarrow> access_t \<Rightarrow> u64 \<Rightarrow> int \<Rightarrow> Runtime \<Rightarrow> Runtime res" where
  "buffer_loop resolution type addr sz rt =
     (if sz > 0
      then if resolution = 0 then Inl Diverges
           else bindR (trace_access_drms rt type addr (ucast resolution) True)
                  (buffer_loop resolution type (addr + ucast resolution) (sz - uint resolution))
      else Inr rt)"
  by pat_completeness auto
termination
  by (relation "measure (\<lambda>(resolution, type, addr, sz, rt). nat sz)")
    (auto simp: word_neq_0_conv uint_0_iff word_less_def)

declare buffer_loop.simps [simp del]

definition buffer_access :: "access_t \<Rightarrow> u64 \<Rightarrow> int \<Rightarrow> Runtime \<Rightarrow> Runtime res" where
  "buffer_access type addr sz rt =
     (let (addr', sz') = fix_access_size (memory_resolution (cfg rt)) addr sz
      in buffer_loop (memory_resolution (cfg rt)) type addr' sz' rt)"

text \<open>Several buffers.  The length of a buffer is compared as an unsigned number of 64 bits.\<close>

fun iov_loop :: "access_t \<Rightarrow> int \<Rightarrow> (u64 \<times> u64) list \<Rightarrow> Runtime \<Rightarrow> Runtime res" where
  "iov_loop type sz [] rt = Inr rt"
| "iov_loop type sz ((iov_base, len) # iovs) rt =
     (if sz = 0 then Inr rt
      else let iov_len = (if len \<le> of_int sz then sint (ucast len :: u32) else sz)
           in bindR (buffer_access type iov_base iov_len rt)
                (iov_loop type (sint (of_int (sz - iov_len) :: u32)) iovs))"

section \<open>After a system call\<close>

record SysRes =
  isError :: bool
  sr_Res :: u64

definition NR_read :: u32 where "NR_read = 0"
definition NR_write :: u32 where "NR_write = 1"
definition NR_mmap :: u32 where "NR_mmap = 9"
definition NR_pread64 :: u32 where "NR_pread64 = 17"
definition NR_pwrite64 :: u32 where "NR_pwrite64 = 18"
definition NR_readv :: u32 where "NR_readv = 19"
definition NR_writev :: u32 where "NR_writev = 20"
definition NR_sendto :: u32 where "NR_sendto = 44"
definition NR_recvfrom :: u32 where "NR_recvfrom = 45"
definition NR_msgsnd :: u32 where "NR_msgsnd = 69"
definition NR_msgrcv :: u32 where "NR_msgrcv = 70"
definition NR_preadv :: u32 where "NR_preadv = 295"
definition NR_pwritev :: u32 where "NR_pwritev = 296"

definition to_Int :: "u64 \<Rightarrow> int" where "to_Int w = sint (ucast w :: u32)"

text \<open>A kernel store comes with a new value of the global counter, unless the switch of thread has
  just made one.\<close>

definition kernel_store :: "bool \<Rightarrow> (Runtime \<Rightarrow> Runtime res) \<Rightarrow> Runtime \<Rightarrow> Runtime res" where
  "kernel_store forced_switch f rt = bindR (if forced_switch then Inr rt else increase_global_counter rt) f"

definition syscall_access :: "(u64 \<Rightarrow> u64 \<Rightarrow> (u64 \<times> u64) list) \<Rightarrow> bool \<Rightarrow> u32 \<Rightarrow> (nat \<Rightarrow> u64) \<Rightarrow> u64 \<Rightarrow> Runtime \<Rightarrow> Runtime res" where
  "syscall_access iovecs forced no args r rt =
     (if no = NR_read \<or> no = NR_recvfrom \<or> no = NR_pread64
        then kernel_store forced (buffer_access STORE (args 1) (to_Int r)) rt
      else if no = NR_readv \<or> no = NR_preadv
        then kernel_store forced (iov_loop STORE (to_Int r) (iovecs (args 1) (args 2))) rt
      else if no = NR_write \<or> no = NR_sendto \<or> no = NR_pwrite64
        then buffer_access LOAD (args 1) (to_Int r) rt
      else if no = NR_writev \<or> no = NR_pwritev
        then iov_loop LOAD (to_Int r) (iovecs (args 1) (args 2)) rt
      else if no = NR_msgrcv
        then kernel_store forced (buffer_access STORE (args 1) (sint (of_int (to_Int r + 8) :: u32))) rt
      else if no = NR_msgsnd
        then buffer_access LOAD (args 1) (to_Int (args 2 + 8)) rt
      else if no = NR_mmap
        then kernel_store forced (buffer_access STORE r (to_Int (args 1))) rt
      else Inr rt)"

definition post_syscall :: "(u64 \<Rightarrow> u64 \<Rightarrow> (u64 \<times> u64) list) \<Rightarrow> u32 \<Rightarrow> u32 \<Rightarrow> (nat \<Rightarrow> u64) \<Rightarrow> SysRes \<Rightarrow> Runtime \<Rightarrow> Runtime res" where
  "post_syscall iovecs tid no args r rt =
     (if isError r then Inr rt
      else let forced = (tid \<noteq> current_TID rt)
           in bindR (if forced then thread_switch rt tid else Inr rt) (syscall_access iovecs forced no args (sr_Res r)))"

end
