(* ===== verification/DRMS.thy ===== *)
theory DRMS
  imports Profile Syscall
begin

text \<open>
  What the DRMS analysis computes.  The specification keeps, for every pending activation of every
  thread, the cells it has accessed and how many of its reads were input: reads of cells it had not
  accessed since it was entered, and reads of cells that another thread or the kernel wrote after the
  thread's last access (the stale cells of the thread).  The theory shows that the timestamps of
  the threads' and of the global shadow memory represent these sets, and that \<open>a_input_size\<close> and the
  four statistics of an activation are partial sums of the counts.
\<close>

section \<open>Specification\<close>

record dframe =
  d_accessed :: "u64 set"
  d_reads :: nat
  d_kernel :: nat
  d_other :: nat
  d_self_kernel :: nat
  d_self_other :: nat

record shared =
  frames_of :: "nat \<Rightarrow> dframe list"
  stale :: "nat \<Rightarrow> u64 set"
  by_kernel :: "u64 set"

text \<open>A read in a frame: \<open>st\<close> if the cell is stale, \<open>k\<close> if the kernel wrote it last, \<open>own\<close> for the
  activation that reads.\<close>

definition frame_read :: "bool \<Rightarrow> bool \<Rightarrow> bool \<Rightarrow> u64 \<Rightarrow> dframe \<Rightarrow> dframe" where
  "frame_read st k own c f = \<lparr>d_accessed = insert c (d_accessed f),
     d_reads = d_reads f + (if st \<or> c \<notin> d_accessed f then 1 else 0),
     d_kernel = d_kernel f + (if st \<and> k then 1 else 0),
     d_other = d_other f + (if st \<and> \<not> k then 1 else 0),
     d_self_kernel = d_self_kernel f + (if own \<and> st \<and> k then 1 else 0),
     d_self_other = d_self_other f + (if own \<and> st \<and> \<not> k then 1 else 0)\<rparr>"

definition frames_read :: "bool \<Rightarrow> bool \<Rightarrow> u64 \<Rightarrow> dframe list \<Rightarrow> dframe list" where
  "frames_read st k c fs = map (\<lambda>i. frame_read st k (Suc i = length fs) c (fs ! i)) [0..<length fs]"

definition frames_touch :: "u64 \<Rightarrow> dframe list \<Rightarrow> dframe list" where
  "frames_touch c fs = map (\<lambda>f. f\<lparr>d_accessed := insert c (d_accessed f)\<rparr>) fs"

definition spec_read :: "nat \<Rightarrow> u64 \<Rightarrow> shared \<Rightarrow> shared" where
  "spec_read t c S = S\<lparr>frames_of := (frames_of S)(t := frames_read (c \<in> stale S t) (c \<in> by_kernel S) c (frames_of S t)),
     stale := (stale S)(t := stale S t - {c})\<rparr>"

definition spec_write :: "nat \<Rightarrow> u64 \<Rightarrow> shared \<Rightarrow> shared" where
  "spec_write t c S = S\<lparr>frames_of := (frames_of S)(t := frames_touch c (frames_of S t)),
     stale := (\<lambda>s. if s = t then stale S t - {c} else insert c (stale S s)), by_kernel := by_kernel S - {c}\<rparr>"

definition spec_kernel_write :: "u64 \<Rightarrow> shared \<Rightarrow> shared" where
  "spec_kernel_write c S = S\<lparr>stale := (\<lambda>s. insert c (stale S s)), by_kernel := insert c (by_kernel S)\<rparr>"

fun spec_drms :: "access_t \<Rightarrow> nat \<Rightarrow> u64 \<Rightarrow> shared \<Rightarrow> shared" where
  "spec_drms LOAD t c S = spec_read t c S"
| "spec_drms STORE t c S = spec_write t c S"
| "spec_drms MODIFY t c S = spec_write t c (spec_read t c S)"

section \<open>Representation\<close>

text \<open>One thread: \<open>n\<close> is the global counter, \<open>G\<close> the global timestamps.\<close>

definition dthread :: "ThreadData \<Rightarrow> u32 \<Rightarrow> (u64 \<Rightarrow> u32) \<Rightarrow> dframe list \<Rightarrow> u64 set \<Rightarrow> bool" where
  "dthread td n G fs st \<longleftrightarrow> stack_ok td \<and> lk_inv (shadow_memory td) \<and> length fs \<le> unat (stack_depth td) \<and>
     ids_ok (length fs) td \<and> (\<forall>i < length fs. activation_id (stack td i) \<le> n) \<and>
     (\<forall>c. LK_sm (shadow_memory td) c \<le> n) \<and>
     (\<forall>i < length fs.
        d_accessed (fs ! i) = {c. activation_id (stack td i) \<le> LK_sm (shadow_memory td) c} \<and>
        of_nat (d_reads (fs ! i)) = (\<Sum>j = i..<length fs. a_input_size (stack td j)) \<and>
        of_nat (d_kernel (fs ! i)) = (\<Sum>j = i..<length fs. cumul_syscall (stack td j)) \<and>
        of_nat (d_other (fs ! i)) = (\<Sum>j = i..<length fs. cumul_thread (stack td j)) \<and>
        self_syscall (stack td i) = of_nat (d_self_kernel (fs ! i)) \<and>
        self_thread (stack td i) = of_nat (d_self_other (fs ! i))) \<and>
     st = {c. LK_sm (shadow_memory td) c < TS (G c)}"

lemma dthreadD:
  assumes "dthread td n G fs st"
  shows "stack_ok td" "lk_inv (shadow_memory td)" "length fs \<le> unat (stack_depth td)" "ids_ok (length fs) td"
    "\<And>i. i < length fs \<Longrightarrow> activation_id (stack td i) \<le> n" "\<And>c. LK_sm (shadow_memory td) c \<le> n"
    "\<And>i. i < length fs \<Longrightarrow> d_accessed (fs ! i) = {c. activation_id (stack td i) \<le> LK_sm (shadow_memory td) c}"
    "\<And>i. i < length fs \<Longrightarrow> of_nat (d_reads (fs ! i)) = (\<Sum>j = i..<length fs. a_input_size (stack td j))"
    "\<And>i. i < length fs \<Longrightarrow> of_nat (d_kernel (fs ! i)) = (\<Sum>j = i..<length fs. cumul_syscall (stack td j))"
    "\<And>i. i < length fs \<Longrightarrow> of_nat (d_other (fs ! i)) = (\<Sum>j = i..<length fs. cumul_thread (stack td j))"
    "\<And>i. i < length fs \<Longrightarrow> self_syscall (stack td i) = of_nat (d_self_kernel (fs ! i))"
    "\<And>i. i < length fs \<Longrightarrow> self_thread (stack td i) = of_nat (d_self_other (fs ! i))"
    "st = {c. LK_sm (shadow_memory td) c < TS (G c)}"
  using assms unfolding dthread_def by blast+

lemma dthreadI:
  assumes "stack_ok td" "lk_inv (shadow_memory td)" "length fs \<le> unat (stack_depth td)" "ids_ok (length fs) td"
    "\<And>i. i < length fs \<Longrightarrow> activation_id (stack td i) \<le> n" "\<And>c. LK_sm (shadow_memory td) c \<le> n"
    "\<And>i. i < length fs \<Longrightarrow> d_accessed (fs ! i) = {c. activation_id (stack td i) \<le> LK_sm (shadow_memory td) c}"
    "\<And>i. i < length fs \<Longrightarrow> of_nat (d_reads (fs ! i)) = (\<Sum>j = i..<length fs. a_input_size (stack td j))"
    "\<And>i. i < length fs \<Longrightarrow> of_nat (d_kernel (fs ! i)) = (\<Sum>j = i..<length fs. cumul_syscall (stack td j))"
    "\<And>i. i < length fs \<Longrightarrow> of_nat (d_other (fs ! i)) = (\<Sum>j = i..<length fs. cumul_thread (stack td j))"
    "\<And>i. i < length fs \<Longrightarrow> self_syscall (stack td i) = of_nat (d_self_kernel (fs ! i))"
    "\<And>i. i < length fs \<Longrightarrow> self_thread (stack td i) = of_nat (d_self_other (fs ! i))"
    "st = {c. LK_sm (shadow_memory td) c < TS (G c)}"
  shows "dthread td n G fs st"
  unfolding dthread_def using assms by blast

text \<open>Sums over the activations above one, when only the top changes.\<close>

lemma sum_top:
  fixes f :: "nat \<Rightarrow> 'a :: comm_ring_1"
  assumes "i < d" "\<And>j. j < d - 1 \<Longrightarrow> g j = f j" "g (d - 1) = f (d - 1) + v"
  shows "(\<Sum>j = i..<d. g j) = (\<Sum>j = i..<d. f j) + v"
proof -
  obtain n where d: "d = Suc n" using assms(1) by (cases d) auto
  have "(\<Sum>j = i..<n. g j) = (\<Sum>j = i..<n. f j)" using assms(2) d by (intro sum.cong) auto
  then show ?thesis using assms(1,3) d by (simp add: add.assoc)
qed

text \<open>The effect of an access of the thread on its own timestamp and its frames.\<close>

lemma dthread_access:
  assumes D: "dthread td n G fs st" and e: "stack_depth td' = stack_depth td" "max_stack_size td' = max_stack_size td"
    and inv: "lk_inv (shadow_memory td')" and sm: "LK_sm (shadow_memory td') = (LK_sm (shadow_memory td))(c := n)"
    and ts: "TS (G c) \<le> n" and ids: "\<And>i. activation_id (stack td' i) = activation_id (stack td i)"
    and len: "length fs' = length fs"
    and acc: "\<And>i. i < length fs \<Longrightarrow> d_accessed (fs' ! i) = insert c (d_accessed (fs ! i))"
    and sums: "\<And>i. i < length fs \<Longrightarrow> of_nat (d_reads (fs' ! i)) = (\<Sum>j = i..<length fs. a_input_size (stack td' j))"
      "\<And>i. i < length fs \<Longrightarrow> of_nat (d_kernel (fs' ! i)) = (\<Sum>j = i..<length fs. cumul_syscall (stack td' j))"
      "\<And>i. i < length fs \<Longrightarrow> of_nat (d_other (fs' ! i)) = (\<Sum>j = i..<length fs. cumul_thread (stack td' j))"
      "\<And>i. i < length fs \<Longrightarrow> self_syscall (stack td' i) = of_nat (d_self_kernel (fs' ! i))"
      "\<And>i. i < length fs \<Longrightarrow> self_thread (stack td' i) = of_nat (d_self_other (fs' ! i))"
  shows "dthread td' n G fs' (st - {c})"
proof (rule dthreadI, unfold len)
  note T = dthreadD [OF D]
  show "stack_ok td'" using T(1) by (simp add: stack_ok_def e)
  show "lk_inv (shadow_memory td')" by (rule inv)
  show "length fs \<le> unat (stack_depth td')" using T(3) by (simp add: e)
  show "ids_ok (length fs) td'" using T(4) by (simp add: ids_ok_def ids)
  show "LK_sm (shadow_memory td') x \<le> n" for x using T(6) by (simp add: sm)
  show "st - {c} = {c. LK_sm (shadow_memory td') c < TS (G c)}"
    unfolding T(13) using ts by (auto simp: sm leD)
  fix i assume i: "i < length fs"
  show "activation_id (stack td' i) \<le> n" using T(5) [OF i] by (simp add: ids)
  show "d_accessed (fs' ! i) = {c. activation_id (stack td' i) \<le> LK_sm (shadow_memory td') c}"
    unfolding acc [OF i] T(7) [OF i] using T(5) [OF i] by (auto simp: sm ids)
qed (use sums in simp_all)

lemma dthread_touch:
  assumes D: "dthread td n G fs st" and inv: "lk_inv m" and sm: "LK_sm m = (LK_sm (shadow_memory td))(c := n)" and ts: "TS (G c) \<le> n"
  shows "dthread (td\<lparr>shadow_memory := m\<rparr>) n G (frames_touch c fs) (st - {c})"
  by (rule dthread_access [OF D]) (use dthreadD [OF D] inv sm ts in \<open>simp_all add: frames_touch_def\<close>)

text \<open>The write of a cell that the thread has just accessed, and of one that it has not.\<close>

lemma dthread_own_write:
  assumes "dthread td n G fs st" "LK_sm (shadow_memory td) c = n" "TS v = n"
  shows "dthread td n (G(c := v)) fs (st - {c})"
  by (rule dthreadI) (use dthreadD [OF assms(1)] assms(2,3) in auto)

lemma dthread_other_write:
  assumes "dthread td n G fs st" "LK_sm (shadow_memory td) c < n" "TS v = n"
  shows "dthread td n (G(c := v)) fs (insert c st)"
  by (rule dthreadI) (use dthreadD [OF assms(1)] assms(2,3) in auto)

lemma dthread_later:
  assumes "dthread td n G fs st" "n \<le> n'"
  shows "dthread td n' G fs st"
  by (rule dthreadI) (use dthreadD [OF assms(1)] assms(2) in \<open>auto intro: order_trans\<close>)

text \<open>What an access leaves alone.\<close>

definition same_but_counts :: "ThreadData \<Rightarrow> ThreadData \<Rightarrow> bool" where
  "same_but_counts td td' \<longleftrightarrow> td' = td\<lparr>shadow_memory := shadow_memory td', stack := stack td'\<rparr> \<and>
     res_shift (shadow_memory td') = res_shift (shadow_memory td) \<and>
     (\<forall>i. stack td' i = (stack td i)\<lparr>a_input_size := a_input_size (stack td' i), cumul_syscall := cumul_syscall (stack td' i),
        cumul_thread := cumul_thread (stack td' i), self_syscall := self_syscall (stack td' i),
        self_thread := self_thread (stack td' i)\<rparr>)"

lemma same_but_countsD:
  assumes "same_but_counts td td'"
  shows "stack_depth td' = stack_depth td" "max_stack_size td' = max_stack_size td" "rtn_ht td' = rtn_ht td"
    "t_skip td' = t_skip td" "res_shift (shadow_memory td') = res_shift (shadow_memory td)"
    "activation_id (stack td' i) = activation_id (stack td i)" "routine_info (stack td' i) = routine_info (stack td i)"
proof -
  from assms have td: "td' = td\<lparr>shadow_memory := shadow_memory td', stack := stack td'\<rparr>"
    and r: "res_shift (shadow_memory td') = res_shift (shadow_memory td)"
    and st: "stack td' i = (stack td i)\<lparr>a_input_size := a_input_size (stack td' i), cumul_syscall := cumul_syscall (stack td' i),
        cumul_thread := cumul_thread (stack td' i), self_syscall := self_syscall (stack td' i),
        self_thread := self_thread (stack td' i)\<rparr>"
    unfolding same_but_counts_def by blast+
  show "stack_depth td' = stack_depth td" using arg_cong [OF td, of stack_depth] by simp
  show "max_stack_size td' = max_stack_size td" using arg_cong [OF td, of max_stack_size] by simp
  show "rtn_ht td' = rtn_ht td" using arg_cong [OF td, of rtn_ht] by simp
  show "t_skip td' = t_skip td" using arg_cong [OF td, of t_skip] by simp
  show "res_shift (shadow_memory td') = res_shift (shadow_memory td)" by (rule r)
  show "activation_id (stack td' i) = activation_id (stack td i)" using arg_cong [OF st, of activation_id] by simp
  show "routine_info (stack td' i) = routine_info (stack td i)" using arg_cong [OF st, of routine_info] by simp
qed

lemma frames_read_nth:
  "i < length fs \<Longrightarrow> frames_read st k c fs ! i = frame_read st k (Suc i = length fs) c (fs ! i)"
  by (simp add: frames_read_def)

lemma length_frames_read [simp]: "length (frames_read st k c fs) = length fs"
  by (simp add: frames_read_def)

lemma length_frames_touch [simp]: "length (frames_touch c fs) = length fs"
  by (simp add: frames_touch_def)

text \<open>A read, by the three cases of the code.\<close>

lemma drms_read_ok:
  assumes D: "dthread td n G fs st" and d: "length fs = unat (stack_depth td)" "fs \<noteq> []"
    and inv: "lk_inv m" and sm: "LK_sm m = (LK_sm (shadow_memory td))(c := n)" and ts: "TS (G c) \<le> n"
    and sh: "res_shift m = res_shift (shadow_memory td)"
  shows "\<exists>td'. drms_read (td\<lparr>shadow_memory := m\<rparr>) (LK_sm (shadow_memory td) c) (G c) = Inr td' \<and>
    shadow_memory td' = m \<and> same_but_counts td td' \<and>
    dthread td' n G (frames_read (c \<in> st) (SYSCALL (G c)) c fs) (st - {c})"
proof -
  note T = dthreadD [OF D]
  obtain h where h: "length fs = Suc h" using d(2) by (cases fs) auto
  let ?td1 = "td\<lparr>shadow_memory := m\<rparr>" and ?old = "LK_sm (shadow_memory td) c" and ?act = "stack td h"
  let ?fs = "frames_read (c \<in> st) (SYSCALL (G c)) c fs"
  have hd: "h = unat (stack_depth td) - 1" using d(1) h by simp
  have p: "get_activation_noresize (stack_depth td) = int h"
    unfolding get_activation_noresize_def hd by (rule uint_of_depth) (use d(1) h in simp)
  have p1: "get_activation_noresize 1 = int 0" by (simp add: get_activation_noresize_def)
  have ok1: "stack_ok ?td1" using T(1) by (simp add: stack_ok_def)
  have act: "get_act ?td1 (int h) = Inr ?act" using get_act_in_stack [OF ok1, of h] d(1) h by simp
  have st: "c \<in> st \<longleftrightarrow> ?old < TS (G c)" by (simp add: T(13))
  have ids: "activation_id (stack td i) \<le> activation_id ?act" if "i < length fs" for i
    by (rule ids_ok_le [OF T(4)]) (use that h in simp_all)
  have acc: "d_accessed (?fs ! i) = insert c (d_accessed (fs ! i))" if "i < length fs" for i
    using that by (simp add: frames_read_nth frame_read_def)
  have reads: "d_reads (?fs ! i) = d_reads (fs ! i) + (if c \<in> st \<or> ?old < activation_id (stack td i) then 1 else 0)"
    if "i < length fs" for i
    using that by (simp add: frames_read_nth frame_read_def T(7) not_le)
  have kernel: "d_kernel (?fs ! i) = d_kernel (fs ! i) + (if c \<in> st \<and> SYSCALL (G c) then 1 else 0)"
    "d_other (?fs ! i) = d_other (fs ! i) + (if c \<in> st \<and> \<not> SYSCALL (G c) then 1 else 0)"
    "d_self_kernel (?fs ! i) = d_self_kernel (fs ! i) + (if i = h \<and> c \<in> st \<and> SYSCALL (G c) then 1 else 0)"
    "d_self_other (?fs ! i) = d_self_other (fs ! i) + (if i = h \<and> c \<in> st \<and> \<not> SYSCALL (G c) then 1 else 0)"
    if "i < length fs" for i
    using that h by (simp_all add: frames_read_nth frame_read_def)
  note R = dthread_access [OF D, of "td\<lparr>shadow_memory := m, stack := x\<rparr>" c ?fs for x, OF _ _ _ _ ts _ _ acc]
  consider "c \<in> st" | "c \<notin> st" "\<not> ?old < activation_id ?act" | "c \<notin> st" "?old < activation_id ?act" "?old < activation_id (stack td 0)"
    | "c \<notin> st" "?old < activation_id ?act" "activation_id (stack td 0) \<le> ?old" by (meson not_le)
  then show ?thesis
  proof cases
    case 1
    let ?a = "if SYSCALL (G c)
              then ?act\<lparr>a_input_size := a_input_size ?act + 1, self_syscall := self_syscall ?act + 1,
                       cumul_syscall := cumul_syscall ?act + 1\<rparr>
              else ?act\<lparr>a_input_size := a_input_size ?act + 1, self_thread := self_thread ?act + 1,
                       cumul_thread := cumul_thread ?act + 1\<rparr>"
    let ?td = "td\<lparr>shadow_memory := m, stack := (stack td)(h := ?a)\<rparr>"
    have e: "drms_read ?td1 ?old (G c) = Inr ?td"
      using 1 st by (simp add: drms_read_def p act set_act_def)
    have same: "same_but_counts td ?td" using sh by (simp add: same_but_counts_def)
    have "dthread ?td n G ?fs (st - {c})"
    proof (rule R)
      fix i assume i: "i < length fs"
      have s: "(\<Sum>j = i..<length fs. a_input_size (stack ?td j)) = (\<Sum>j = i..<length fs. a_input_size (stack td j)) + 1"
        "(\<Sum>j = i..<length fs. cumul_syscall (stack ?td j)) =
           (\<Sum>j = i..<length fs. cumul_syscall (stack td j)) + (if SYSCALL (G c) then 1 else 0)"
        "(\<Sum>j = i..<length fs. cumul_thread (stack ?td j)) =
           (\<Sum>j = i..<length fs. cumul_thread (stack td j)) + (if SYSCALL (G c) then 0 else 1)"
        by (rule sum_top [OF i]; simp add: h)+
      show "of_nat (d_reads (?fs ! i)) = (\<Sum>j = i..<length fs. a_input_size (stack ?td j))"
        "of_nat (d_kernel (?fs ! i)) = (\<Sum>j = i..<length fs. cumul_syscall (stack ?td j))"
        "of_nat (d_other (?fs ! i)) = (\<Sum>j = i..<length fs. cumul_thread (stack ?td j))"
        unfolding s reads [OF i] kernel [OF i] using 1 T(8,9,10) [OF i] by (simp_all add: add.commute)
      show "self_syscall (stack ?td i) = of_nat (d_self_kernel (?fs ! i))"
        "self_thread (stack ?td i) = of_nat (d_self_other (?fs ! i))"
        unfolding kernel [OF i] using 1 T(11,12) [OF i] by (auto simp: add.commute)
    qed (use inv sm in simp_all)
    with e same show ?thesis by fastforce
  next
    case 2
    have e: "drms_read ?td1 ?old (G c) = Inr ?td1"
      using 2 st by (simp add: drms_read_def p act)
    have same: "same_but_counts td ?td1" using sh by (simp add: same_but_counts_def)
    have n: "\<not> ?old < activation_id (stack td i)" if "i < length fs" for i
      using ids [OF that] 2(2) by (auto dest: order_less_le_trans)
    have "dthread (td\<lparr>shadow_memory := m, stack := stack td\<rparr>) n G ?fs (st - {c})"
    proof (rule R)
      fix i assume i: "i < length fs"
      show "of_nat (d_reads (?fs ! i)) = (\<Sum>j = i..<length fs. a_input_size (stack (td\<lparr>shadow_memory := m, stack := stack td\<rparr>) j))"
        unfolding reads [OF i] using 2(1) n [OF i] T(8) [OF i] by simp
      show "of_nat (d_kernel (?fs ! i)) = (\<Sum>j = i..<length fs. cumul_syscall (stack (td\<lparr>shadow_memory := m, stack := stack td\<rparr>) j))"
        "of_nat (d_other (?fs ! i)) = (\<Sum>j = i..<length fs. cumul_thread (stack (td\<lparr>shadow_memory := m, stack := stack td\<rparr>) j))"
        "self_syscall (stack (td\<lparr>shadow_memory := m, stack := stack td\<rparr>) i) = of_nat (d_self_kernel (?fs ! i))"
        "self_thread (stack (td\<lparr>shadow_memory := m, stack := stack td\<rparr>) i) = of_nat (d_self_other (?fs ! i))"
        unfolding kernel [OF i] using 2(1) T(9-12) [OF i] by auto
    qed (use inv sm in simp_all)
    with e same show ?thesis by fastforce
  next
    case 3
    let ?td = "td\<lparr>shadow_memory := m, stack := (stack td)(h := ?act\<lparr>a_input_size := a_input_size ?act + 1\<rparr>)\<rparr>"
    have ok': "stack_ok ?td" using T(1) by (simp add: stack_ok_def)
    have a0: "get_act ?td (int 0) = Inr (stack ?td 0)" by (rule get_act_in_stack [OF ok']) (use d h in simp)
    have e: "drms_read ?td1 ?old (G c) = Inr ?td"
      using 3 st a0 by (auto simp: drms_read_def p p1 act set_act_def Let_def leD)
    have same: "same_but_counts td ?td" using sh by (simp add: same_but_counts_def)
    have n: "?old < activation_id (stack td i)" if "i < length fs" for i
      using ids_ok_le [OF T(4) _ that, of 0] 3(3) by (auto dest: order_less_le_trans)
    have "dthread ?td n G ?fs (st - {c})"
    proof (rule R)
      fix i assume i: "i < length fs"
      have s: "(\<Sum>j = i..<length fs. a_input_size (stack ?td j)) = (\<Sum>j = i..<length fs. a_input_size (stack td j)) + 1"
        by (rule sum_top [OF i]; simp add: h)
      show "of_nat (d_reads (?fs ! i)) = (\<Sum>j = i..<length fs. a_input_size (stack ?td j))"
        unfolding s reads [OF i] using n [OF i] T(8) [OF i] by (simp add: add.commute)
      have s: "(\<Sum>j = i..<length fs. cumul_syscall (stack ?td j)) = (\<Sum>j = i..<length fs. cumul_syscall (stack td j))"
        "(\<Sum>j = i..<length fs. cumul_thread (stack ?td j)) = (\<Sum>j = i..<length fs. cumul_thread (stack td j))"
        by (auto intro: sum.cong)
      show "of_nat (d_kernel (?fs ! i)) = (\<Sum>j = i..<length fs. cumul_syscall (stack ?td j))"
        "of_nat (d_other (?fs ! i)) = (\<Sum>j = i..<length fs. cumul_thread (stack ?td j))"
        "self_syscall (stack ?td i) = of_nat (d_self_kernel (?fs ! i))"
        "self_thread (stack ?td i) = of_nat (d_self_other (?fs ! i))"
        unfolding s kernel [OF i] using 3(1) T(9-12) [OF i] by auto
    qed (use inv sm in simp_all)
    with e same show ?thesis by fastforce
  next
    case 4
    let ?st = "(stack td)(h := ?act\<lparr>a_input_size := a_input_size ?act + 1\<rparr>)"
    let ?td2 = "td\<lparr>shadow_memory := m, stack := ?st\<rparr>"
    have ok': "stack_ok ?td2" using T(1) by (simp add: stack_ok_def)
    have aid: "activation_id (stack ?td2 i) = activation_id (stack td i)" for i by simp
    have ids': "ids_ok (length fs) ?td2" using T(4) unfolding ids_ok_def aid .
    have a0: "get_act ?td2 (int 0) = Inr (stack ?td2 0)" by (rule get_act_in_stack [OF ok']) (use d h in simp)
    have "length fs = unat (stack_depth ?td2)" using d by simp
    from get_activation_by_aid_ok [OF ok' ids' this, unfolded aid, OF _ 4(3)] 4(2) h obtain k where
      k: "get_activation_by_aid ?td2 ?old = Inr (int k)" "k < h"
        "\<forall>i < length fs. activation_id (stack td i) \<le> ?old \<longleftrightarrow> i \<le> k" by auto
    have ak: "get_act ?td2 (int k) = Inr (stack td k)"
      using get_act_in_stack [OF ok', of k] k(2) d h by simp
    have "0 < activation_id (stack td 0)" using T(4) h by (simp add: ids_ok_def)
    then have pos: "0 < ?old" using 4(3) by (rule order_less_le_trans)
    let ?td = "td\<lparr>shadow_memory := m, stack := ?st(k := (stack td k)\<lparr>a_input_size := a_input_size (stack td k) - 1\<rparr>)\<rparr>"
    have e: "drms_read ?td1 ?old (G c) = Inr ?td"
      using 4 st a0 k(1) ak pos by (auto simp: drms_read_def p p1 act set_act_def Let_def)
    have same: "same_but_counts td ?td" using sh by (simp add: same_but_counts_def)
    have "dthread ?td n G ?fs (st - {c})"
    proof (rule R)
      fix i assume i: "i < length fs"
      let ?inp = "\<lambda>j. a_input_size (stack td j)" and ?g = "\<lambda>j. a_input_size (?st j)"
      have "(\<Sum>j = i..<length fs. a_input_size (stack ?td j)) = (\<Sum>j = i..<length fs. if j = k then ?g j - 1 else ?g j)"
        using k(2) by (intro sum.cong) auto
      also have "\<dots> = (\<Sum>j = i..<length fs. ?g j) - (if i \<le> k then 1 else 0)"
        by (rule sum_suffix_dec) (use k(2) h in simp)
      also have "(\<Sum>j = i..<length fs. ?g j) = (\<Sum>j = i..<length fs. ?inp j) + 1"
        by (rule sum_top [OF i]; simp add: h)
      also have "(\<Sum>j = i..<length fs. ?inp j) + 1 - (if i \<le> k then 1 else 0) =
        (\<Sum>j = i..<length fs. ?inp j) + (if ?old < activation_id (stack td i) then 1 else 0)"
        using k(3) i by (auto simp: not_less [symmetric])
      finally have s: "(\<Sum>j = i..<length fs. a_input_size (stack ?td j)) =
        (\<Sum>j = i..<length fs. ?inp j) + (if ?old < activation_id (stack td i) then 1 else 0)" .
      show "of_nat (d_reads (?fs ! i)) = (\<Sum>j = i..<length fs. a_input_size (stack ?td j))"
        unfolding s reads [OF i] using 4(1) T(8) [OF i] by (simp add: add.commute)
      have s: "(\<Sum>j = i..<length fs. cumul_syscall (stack ?td j)) = (\<Sum>j = i..<length fs. cumul_syscall (stack td j))"
        "(\<Sum>j = i..<length fs. cumul_thread (stack ?td j)) = (\<Sum>j = i..<length fs. cumul_thread (stack td j))"
        by (auto intro: sum.cong)
      show "of_nat (d_kernel (?fs ! i)) = (\<Sum>j = i..<length fs. cumul_syscall (stack ?td j))"
        "of_nat (d_other (?fs ! i)) = (\<Sum>j = i..<length fs. cumul_thread (stack ?td j))"
        "self_syscall (stack ?td i) = of_nat (d_self_kernel (?fs ! i))"
        "self_thread (stack ?td i) = of_nat (d_self_other (?fs ! i))"
        unfolding s kernel [OF i] using 4(1) T(9-12) [OF i] by auto
    qed (use inv sm in simp_all)
    with e same show ?thesis by fastforce
  qed
qed

section \<open>All threads\<close>

text \<open>\<open>cur\<close> runs; \<open>fresh\<close> after the counter has just been increased, when no thread has accessed
  anything at its new value.\<close>

definition drms_rel :: "nat \<Rightarrow> bool \<Rightarrow> u32 \<Rightarrow> Runtime \<Rightarrow> shared \<Rightarrow> bool" where
  "drms_rel cur fresh sh rt S \<longleftrightarrow> 0 < global_counter rt \<and> global_counter rt < MAX_COUNT_VAL \<and>
     memory_resolution (cfg rt) = 2 ^ unat sh \<and> input_metric (cfg rt) = DRMS \<and>
     (\<exists>g. global_shadow_memory rt = Some g \<and> lk_inv g \<and> res_shift g = sh \<and>
       (\<forall>c. TS (LK_sm g c) \<le> global_counter rt) \<and> (\<forall>c. SYSCALL (LK_sm g c) = (c \<in> by_kernel S)) \<and>
       (\<forall>t. threads rt t = None \<longrightarrow> frames_of S t = [] \<and> stale S t = {c. 0 < TS (LK_sm g c)}) \<and>
       (\<forall>t td. threads rt t = Some td \<longrightarrow> res_shift (shadow_memory td) = sh \<and>
          dthread td (global_counter rt) (LK_sm g) (frames_of S t) (stale S t) \<and>
          (t \<noteq> cur \<or> fresh \<longrightarrow> (\<forall>c. LK_sm (shadow_memory td) c < global_counter rt))))"

lemma drms_relD:
  assumes "drms_rel cur fresh sh rt S"
  obtains g where "0 < global_counter rt" "global_counter rt < MAX_COUNT_VAL"
    "memory_resolution (cfg rt) = 2 ^ unat sh" "input_metric (cfg rt) = DRMS"
    "global_shadow_memory rt = Some g" "lk_inv g" "res_shift g = sh"
    "\<forall>c. TS (LK_sm g c) \<le> global_counter rt" "\<forall>c. SYSCALL (LK_sm g c) = (c \<in> by_kernel S)"
    "\<forall>t. threads rt t = None \<longrightarrow> frames_of S t = [] \<and> stale S t = {c. 0 < TS (LK_sm g c)}"
    "\<forall>t td. threads rt t = Some td \<longrightarrow> res_shift (shadow_memory td) = sh \<and>
       dthread td (global_counter rt) (LK_sm g) (frames_of S t) (stale S t) \<and>
       (t \<noteq> cur \<or> fresh \<longrightarrow> (\<forall>c. LK_sm (shadow_memory td) c < global_counter rt))"
  using assms unfolding drms_rel_def by blast

lemma drms_relI:
  assumes "0 < global_counter rt" "global_counter rt < MAX_COUNT_VAL"
    "memory_resolution (cfg rt) = 2 ^ unat sh" "input_metric (cfg rt) = DRMS"
    "global_shadow_memory rt = Some g" "lk_inv g" "res_shift g = sh"
    "\<And>c. TS (LK_sm g c) \<le> global_counter rt" "\<And>c. SYSCALL (LK_sm g c) = (c \<in> by_kernel S)"
    "\<And>t. threads rt t = None \<Longrightarrow> frames_of S t = [] \<and> stale S t = {c. 0 < TS (LK_sm g c)}"
    "\<And>t td. threads rt t = Some td \<Longrightarrow> res_shift (shadow_memory td) = sh \<and>
       dthread td (global_counter rt) (LK_sm g) (frames_of S t) (stale S t) \<and>
       (t \<noteq> cur \<or> fresh \<longrightarrow> (\<forall>c. LK_sm (shadow_memory td) c < global_counter rt))"
  shows "drms_rel cur fresh sh rt S"
  unfolding drms_rel_def using assms by blast

lemma counter_not_syscall: "n < MAX_COUNT_VAL \<Longrightarrow> TS n = n \<and> \<not> SYSCALL n"
proof -
  assume "n < MAX_COUNT_VAL"
  then have "unat n < 2 ^ 31" by (simp add: MAX_COUNT_VAL_def word_less_nat_alt)
  then have "unat (take_bit 31 n) = unat n" by (simp add: unsigned_take_bit_eq take_bit_nat_eq_self)
  then have t: "take_bit 31 n = n" by (rule unsigned_word_eqI)
  then have "\<not> bit n 31" using bit_take_bit_iff [of 31 n 31] by simp
  with t show ?thesis by (simp add: TS_take_bit SYSCALL_bit)
qed

text \<open>The cases of the code, for one cell.\<close>

lemma drms_cell_load:
  assumes rel: "drms_rel t fresh sh rt S" and td: "threads rt t = Some td"
    and d: "length (frames_of S t) = unat (stack_depth td)" "frames_of S t \<noteq> []" and v: "LK_valid addr"
  shows "\<exists>td'. drms_cell LOAD kacc t addr rt = Inr (put_td rt t td') \<and> same_but_counts td td' \<and>
    drms_rel t False sh (put_td rt t td') (spec_read t (LK_addr_cell sh addr) S)"
proof -
  let ?n = "global_counter rt" and ?c = "LK_addr_cell sh addr"
  from rel obtain g where R: "0 < ?n" "?n < MAX_COUNT_VAL"
    "memory_resolution (cfg rt) = 2 ^ unat sh" "input_metric (cfg rt) = DRMS"
    "global_shadow_memory rt = Some g" "lk_inv g" "res_shift g = sh"
    "\<forall>c. TS (LK_sm g c) \<le> ?n" "\<forall>c. SYSCALL (LK_sm g c) = (c \<in> by_kernel S)"
    "\<forall>t. threads rt t = None \<longrightarrow> frames_of S t = [] \<and> stale S t = {c. 0 < TS (LK_sm g c)}"
    "\<forall>s td. threads rt s = Some td \<longrightarrow> res_shift (shadow_memory td) = sh \<and>
       dthread td ?n (LK_sm g) (frames_of S s) (stale S s) \<and>
       (s \<noteq> t \<or> fresh \<longrightarrow> (\<forall>c. LK_sm (shadow_memory td) c < ?n))" by (rule drms_relD)
  from R(11) td have D: "res_shift (shadow_memory td) = sh" "dthread td ?n (LK_sm g) (frames_of S t) (stale S t)" by blast+
  from LK_insert_ok [OF dthreadD(2) [OF D(2)] v, of ?n] D(1) obtain m where
    m: "LK_insert (shadow_memory td) addr ?n = Inr (m, LK_sm (shadow_memory td) ?c)" "lk_inv m"
      "LK_sm m = (LK_sm (shadow_memory td))(?c := ?n)" "res_shift m = sh" by auto
  from drms_read_ok [OF D(2) d m(2,3)] R(8) m(4) D(1) obtain td' where
    td': "drms_read (td\<lparr>shadow_memory := m\<rparr>) (LK_sm (shadow_memory td) ?c) (LK_sm g ?c) = Inr td'"
      "shadow_memory td' = m" "same_but_counts td td'"
      "dthread td' ?n (LK_sm g) (frames_read (?c \<in> stale S t) (SYSCALL (LK_sm g ?c)) ?c (frames_of S t)) (stale S t - {?c})"
    by auto
  have gs: "rt\<lparr>global_shadow_memory := Some g\<rparr> = rt" using R(5) by simp
  have "drms_cell LOAD kacc t addr rt = Inr (put_td rt t td')"
    using LK_lookup_sm [OF R(6) v] R(5,7) td m(1) td'(1)
    by (simp add: drms_cell_def drms_global_access_def get_td_def Let_def gs)
  moreover have "drms_rel t False sh (put_td rt t td') (spec_read t ?c S)"
  proof (rule drms_relI [where g = g])
    fix s assume "threads (put_td rt t td') s = None"
    then show "frames_of (spec_read t ?c S) s = [] \<and> stale (spec_read t ?c S) s = {c. 0 < TS (LK_sm g c)}"
      using R(10) by (auto simp: put_td_def spec_read_def split: if_splits)
  next
    fix s tds assume s: "threads (put_td rt t td') s = Some tds"
    show "res_shift (shadow_memory tds) = sh \<and>
       dthread tds (global_counter (put_td rt t td')) (LK_sm g) (frames_of (spec_read t ?c S) s) (stale (spec_read t ?c S) s) \<and>
       (s \<noteq> t \<or> False \<longrightarrow> (\<forall>c. LK_sm (shadow_memory tds) c < global_counter (put_td rt t td')))"
    proof (cases "s = t")
      case True
      with s have "tds = td'" by (simp add: put_td_def)
      with True td' m(4) R(9) show ?thesis by (simp add: spec_read_def)
    next
      case False
      with s R(11) show ?thesis by (auto simp: put_td_def spec_read_def)
    qed
  qed (use R in \<open>simp_all add: spec_read_def put_td_def\<close>)
  ultimately show ?thesis using td'(3) by blast
qed

lemma put_td_global: "put_td (rt\<lparr>global_shadow_memory := g\<rparr>) t td = (put_td rt t td)\<lparr>global_shadow_memory := g\<rparr>"
  by (simp add: put_td_def)

lemma drms_read_memory: "drms_read td old wts = Inr td' \<Longrightarrow> shadow_memory td' = shadow_memory td"
  unfolding drms_read_def Let_def bindR_eq_Inr by (auto simp: bindR_eq_Inr split: if_splits)

text \<open>A write of a cell the thread has just accessed at the current counter.\<close>

lemma drms_rel_write:
  assumes rel: "drms_rel t False sh rt S" and td: "threads rt t = Some td" and c: "LK_sm (shadow_memory td) c = global_counter rt"
    and g: "global_shadow_memory rt = Some g" and g': "lk_inv g'" "LK_sm g' = (LK_sm g)(c := global_counter rt)" "res_shift g' = sh"
  shows "drms_rel t False sh (rt\<lparr>global_shadow_memory := Some g'\<rparr>)
    (S\<lparr>stale := (\<lambda>s. if s = t then stale S t - {c} else insert c (stale S s)), by_kernel := by_kernel S - {c}\<rparr>)" (is "drms_rel t False sh ?rt ?S")
proof -
  let ?n = "global_counter rt"
  from rel obtain g0 where R: "0 < ?n" "?n < MAX_COUNT_VAL"
    "memory_resolution (cfg rt) = 2 ^ unat sh" "input_metric (cfg rt) = DRMS"
    "global_shadow_memory rt = Some g0" "lk_inv g0" "res_shift g0 = sh"
    "\<forall>c. TS (LK_sm g0 c) \<le> ?n" "\<forall>c. SYSCALL (LK_sm g0 c) = (c \<in> by_kernel S)"
    "\<forall>t. threads rt t = None \<longrightarrow> frames_of S t = [] \<and> stale S t = {c. 0 < TS (LK_sm g0 c)}"
    "\<forall>s td. threads rt s = Some td \<longrightarrow> res_shift (shadow_memory td) = sh \<and>
       dthread td ?n (LK_sm g0) (frames_of S s) (stale S s) \<and>
       (s \<noteq> t \<or> False \<longrightarrow> (\<forall>c. LK_sm (shadow_memory td) c < ?n))" by (rule drms_relD)
  note cn = counter_not_syscall [OF R(2)]
  have [simp]: "g0 = g" using R(5) g by simp
  show ?thesis
  proof (rule drms_relI [where g = g'])
    fix s assume "threads ?rt s = None"
    then have "s \<noteq> t" "frames_of S s = []" "stale S s = {c. 0 < TS (LK_sm g c)}" using R(10) td by auto
    then show "frames_of ?S s = [] \<and> stale ?S s = {c. 0 < TS (LK_sm g' c)}" using R(1) cn by (auto simp: g'(2))
  next
    fix s tds assume s: "threads ?rt s = Some tds"
    with R(11) have D: "res_shift (shadow_memory tds) = sh" "dthread tds ?n (LK_sm g) (frames_of S s) (stale S s)"
      "s \<noteq> t \<longrightarrow> (\<forall>c. LK_sm (shadow_memory tds) c < ?n)" by auto
    have "dthread tds ?n (LK_sm g') (frames_of ?S s) (stale ?S s)"
    proof (cases "s = t")
      case True
      with s td have "tds = td" by simp
      with dthread_own_write [OF D(2), of c ?n] c cn True show ?thesis by (simp add: g'(2))
    next
      case False
      with dthread_other_write [OF D(2), of c ?n] D(3) cn show ?thesis by (simp add: g'(2))
    qed
    with D show "res_shift (shadow_memory tds) = sh \<and> dthread tds (global_counter ?rt) (LK_sm g') (frames_of ?S s) (stale ?S s) \<and>
       (s \<noteq> t \<or> False \<longrightarrow> (\<forall>c. LK_sm (shadow_memory tds) c < global_counter ?rt))" by simp
  qed (use R cn g' in simp_all)
qed

lemma drms_cell_store:
  assumes rel: "drms_rel t fresh sh rt S" and td: "threads rt t = Some td" and v: "LK_valid addr"
  shows "\<exists>td' g'. drms_cell STORE False t addr rt = Inr (put_td (rt\<lparr>global_shadow_memory := Some g'\<rparr>) t td') \<and>
    same_but_counts td td' \<and> drms_rel t False sh (put_td (rt\<lparr>global_shadow_memory := Some g'\<rparr>) t td') (spec_write t (LK_addr_cell sh addr) S)"
proof -
  let ?n = "global_counter rt" and ?c = "LK_addr_cell sh addr"
  from rel obtain g where R: "0 < ?n" "?n < MAX_COUNT_VAL"
    "memory_resolution (cfg rt) = 2 ^ unat sh" "input_metric (cfg rt) = DRMS"
    "global_shadow_memory rt = Some g" "lk_inv g" "res_shift g = sh"
    "\<forall>c. TS (LK_sm g c) \<le> ?n" "\<forall>c. SYSCALL (LK_sm g c) = (c \<in> by_kernel S)"
    "\<forall>t. threads rt t = None \<longrightarrow> frames_of S t = [] \<and> stale S t = {c. 0 < TS (LK_sm g c)}"
    "\<forall>s td. threads rt s = Some td \<longrightarrow> res_shift (shadow_memory td) = sh \<and>
       dthread td ?n (LK_sm g) (frames_of S s) (stale S s) \<and>
       (s \<noteq> t \<or> fresh \<longrightarrow> (\<forall>c. LK_sm (shadow_memory td) c < ?n))" by (rule drms_relD)
  from R(11) td have D: "res_shift (shadow_memory td) = sh" "dthread td ?n (LK_sm g) (frames_of S t) (stale S t)" by blast+
  from LK_insert_ok [OF dthreadD(2) [OF D(2)] v, of ?n] D(1) obtain m where
    m: "LK_insert (shadow_memory td) addr ?n = Inr (m, LK_sm (shadow_memory td) ?c)" "lk_inv m"
      "LK_sm m = (LK_sm (shadow_memory td))(?c := ?n)" "res_shift m = sh" by auto
  from LK_insert_ok [OF R(6) v, of ?n] R(7) obtain g' where
    g': "LK_insert g addr ?n = Inr (g', LK_sm g ?c)" "lk_inv g'" "LK_sm g' = (LK_sm g)(?c := ?n)" "res_shift g' = sh" by auto
  let ?td = "td\<lparr>shadow_memory := m\<rparr>"
  let ?S1 = "S\<lparr>frames_of := (frames_of S)(t := frames_touch ?c (frames_of S t)), stale := (stale S)(t := stale S t - {?c})\<rparr>"
  have "drms_cell STORE False t addr rt = Inr (put_td (rt\<lparr>global_shadow_memory := Some g'\<rparr>) t ?td)"
    using R(5) td m(1) g'(1) by (simp add: drms_cell_def drms_global_access_def get_td_def Let_def)
  moreover have "same_but_counts td ?td" using m(4) D(1) by (simp add: same_but_counts_def)
  moreover have "drms_rel t False sh (put_td rt t ?td) ?S1"
  proof (rule drms_relI [where g = g])
    fix s assume "threads (put_td rt t ?td) s = None"
    then show "frames_of ?S1 s = [] \<and> stale ?S1 s = {c. 0 < TS (LK_sm g c)}"
      using R(10) by (auto simp: put_td_def split: if_splits)
  next
    fix s tds assume s: "threads (put_td rt t ?td) s = Some tds"
    show "res_shift (shadow_memory tds) = sh \<and>
       dthread tds (global_counter (put_td rt t ?td)) (LK_sm g) (frames_of ?S1 s) (stale ?S1 s) \<and>
       (s \<noteq> t \<or> False \<longrightarrow> (\<forall>c. LK_sm (shadow_memory tds) c < global_counter (put_td rt t ?td)))"
    proof (cases "s = t")
      case True
      with s have "tds = ?td" by (simp add: put_td_def)
      with True dthread_touch [OF D(2) m(2,3)] R(8) m(4) show ?thesis by simp
    next
      case False
      with s R(11) show ?thesis by (auto simp: put_td_def)
    qed
  qed (use R in \<open>simp_all add: put_td_def\<close>)
  from drms_rel_write [OF this, of ?td ?c g g'] R(5) m(3) g'(2-4)
  have "drms_rel t False sh ((put_td rt t ?td)\<lparr>global_shadow_memory := Some g'\<rparr>)
      (?S1\<lparr>stale := (\<lambda>s. if s = t then stale ?S1 t - {?c} else insert ?c (stale ?S1 s)), by_kernel := by_kernel ?S1 - {?c}\<rparr>)" by (simp add: put_td_def)
  moreover have "?S1\<lparr>stale := (\<lambda>s. if s = t then stale ?S1 t - {?c} else insert ?c (stale ?S1 s)), by_kernel := by_kernel ?S1 - {?c}\<rparr> = spec_write t ?c S"
    by (auto simp: spec_write_def fun_eq_iff)
  ultimately show ?thesis unfolding put_td_global by (metis (no_types))
qed

text \<open>A modify is a load, with the timestamp before the write, and a store.\<close>

lemma drms_cell_modify:
  assumes rel: "drms_rel t fresh sh rt S" and td: "threads rt t = Some td"
    and d: "length (frames_of S t) = unat (stack_depth td)" "frames_of S t \<noteq> []" and v: "LK_valid addr"
  shows "\<exists>td' g'. drms_cell MODIFY False t addr rt = Inr (put_td (rt\<lparr>global_shadow_memory := Some g'\<rparr>) t td') \<and>
    same_but_counts td td' \<and>
    drms_rel t False sh (put_td (rt\<lparr>global_shadow_memory := Some g'\<rparr>) t td') (spec_write t (LK_addr_cell sh addr) (spec_read t (LK_addr_cell sh addr) S))"
proof -
  let ?n = "global_counter rt" and ?c = "LK_addr_cell sh addr"
  from rel obtain g where R: "global_shadow_memory rt = Some g" "lk_inv g" "res_shift g = sh"
     "\<forall>s td. threads rt s = Some td \<longrightarrow> res_shift (shadow_memory td) = sh \<and>
       dthread td ?n (LK_sm g) (frames_of S s) (stale S s) \<and>
       (s \<noteq> t \<or> fresh \<longrightarrow> (\<forall>c. LK_sm (shadow_memory td) c < ?n))" by (rule drms_relD)
  from R(4) td have D: "res_shift (shadow_memory td) = sh" "dthread td ?n (LK_sm g) (frames_of S t) (stale S t)" by blast+
  from LK_insert_ok [OF dthreadD(2) [OF D(2)] v, of ?n] D(1) obtain m where
    m: "LK_insert (shadow_memory td) addr ?n = Inr (m, LK_sm (shadow_memory td) ?c)" "LK_sm m = (LK_sm (shadow_memory td))(?c := ?n)" by auto
  from LK_insert_ok [OF R(2) v, of ?n] R(3) obtain g' where
    g': "LK_insert g addr ?n = Inr (g', LK_sm g ?c)" "lk_inv g'" "LK_sm g' = (LK_sm g)(?c := ?n)" "res_shift g' = sh" by auto
  from drms_cell_load [OF rel td d v, of False] obtain td' where
    l: "drms_cell LOAD False t addr rt = Inr (put_td rt t td')" "same_but_counts td td'"
      "drms_rel t False sh (put_td rt t td') (spec_read t ?c S)" by blast
  have gs: "rt\<lparr>global_shadow_memory := Some g\<rparr> = rt" using R(1) by simp
  obtain td2 where r: "drms_read (td\<lparr>shadow_memory := m\<rparr>) (LK_sm (shadow_memory td) ?c) (LK_sm g ?c) = Inr td2" "put_td rt t td2 = put_td rt t td'"
    using l(1) LK_lookup_sm [OF R(2) v] R(1,3) td m(1)
    by (auto simp: drms_cell_def drms_global_access_def get_td_def Let_def gs bindR_eq_Inr)
  have [simp]: "td2 = td'" using arg_cong [OF r(2), of "\<lambda>r. threads r t"] by simp
  have sm: "shadow_memory td' = m" using drms_read_memory [OF r(1)] by simp
  have "drms_cell MODIFY False t addr rt = Inr (put_td (rt\<lparr>global_shadow_memory := Some g'\<rparr>) t td')"
    using R(1) td m(1) g'(1) r(1) by (simp add: drms_cell_def drms_global_access_def get_td_def Let_def)
  moreover from drms_rel_write [OF l(3), of td' ?c g g'] R(1) sm m(2) g'(2-4)
  have "drms_rel t False sh ((put_td rt t td')\<lparr>global_shadow_memory := Some g'\<rparr>)
    ((spec_read t ?c S)\<lparr>stale := (\<lambda>s. if s = t then stale (spec_read t ?c S) t - {?c} else insert ?c (stale (spec_read t ?c S) s)),
       by_kernel := by_kernel (spec_read t ?c S) - {?c}\<rparr>)" by (simp add: put_td_def)
  moreover have "(spec_read t ?c S)\<lparr>stale := (\<lambda>s. if s = t then stale (spec_read t ?c S) t - {?c} else insert ?c (stale (spec_read t ?c S) s)),
       by_kernel := by_kernel (spec_read t ?c S) - {?c}\<rparr> = spec_write t ?c (spec_read t ?c S)"
    by (auto simp: spec_write_def spec_read_def fun_eq_iff frames_touch_def frames_read_def frame_read_def intro!: nth_equalityI)
  ultimately show ?thesis using l(2) unfolding put_td_global by (metis (no_types))
qed
end
