(* ===== verification/DRMSEvents.thy ===== *)
theory DRMSEvents
  imports DRMS
begin

text \<open>
  The handlers of the DRMS analysis on the representation of theory DRMS: accesses of a thread, buffers the kernel
  reads and writes, the global counter, the start and switch of threads, and what entry and exit do to the frames.
\<close>

section \<open>Accesses\<close>

lemma drms_rel_weaken: "drms_rel t fresh sh rt S \<Longrightarrow> drms_rel t False sh rt S"
  unfolding drms_rel_def by blast

lemma length_spec_drms [simp]: "length (frames_of (spec_drms type t c S) s) = length (frames_of S s)"
  by (cases type) (auto simp: spec_read_def spec_write_def)

lemma drms_cell_ok:
  assumes rel: "drms_rel t fresh sh rt S" and td: "threads rt t = Some td"
    and d: "length (frames_of S t) = unat (stack_depth td)" "frames_of S t \<noteq> []" and v: "LK_valid addr"
  shows "\<exists>td' g'. drms_cell type False t addr rt = Inr (put_td (rt\<lparr>global_shadow_memory := g'\<rparr>) t td') \<and>
    same_but_counts td td' \<and>
    drms_rel t False sh (put_td (rt\<lparr>global_shadow_memory := g'\<rparr>) t td') (spec_drms type t (LK_addr_cell sh addr) S)"
proof (cases type)
  case LOAD
  have "rt = rt\<lparr>global_shadow_memory := global_shadow_memory rt\<rparr>" by simp
  with drms_cell_load [OF assms, of False] LOAD show ?thesis by (metis (no_types) spec_drms.simps(1))
next
  case STORE
  with drms_cell_store [OF rel td v] show ?thesis by (metis (no_types) spec_drms.simps(2))
next
  case MODIFY
  with drms_cell_modify [OF assms] show ?thesis by (metis (no_types) spec_drms.simps(3))
qed

lemma same_but_counts_refl [simp]: "same_but_counts td td"
  by (simp add: same_but_counts_def)

lemma same_but_counts_trans:
  assumes "same_but_counts td td1" "same_but_counts td1 td2"
  shows "same_but_counts td td2"
proof -
  from assms(1) have a: "td1 = td\<lparr>shadow_memory := shadow_memory td1, stack := stack td1\<rparr>"
    "res_shift (shadow_memory td1) = res_shift (shadow_memory td)"
    "\<And>i. stack td1 i = (stack td i)\<lparr>a_input_size := a_input_size (stack td1 i), cumul_syscall := cumul_syscall (stack td1 i),
        cumul_thread := cumul_thread (stack td1 i), self_syscall := self_syscall (stack td1 i),
        self_thread := self_thread (stack td1 i)\<rparr>"
    unfolding same_but_counts_def by blast+
  from assms(2) have b: "td2 = td1\<lparr>shadow_memory := shadow_memory td2, stack := stack td2\<rparr>"
    "res_shift (shadow_memory td2) = res_shift (shadow_memory td1)"
    "\<And>i. stack td2 i = (stack td1 i)\<lparr>a_input_size := a_input_size (stack td2 i), cumul_syscall := cumul_syscall (stack td2 i),
        cumul_thread := cumul_thread (stack td2 i), self_syscall := self_syscall (stack td2 i),
        self_thread := self_thread (stack td2 i)\<rparr>"
    unfolding same_but_counts_def by blast+
  have "td2 = td\<lparr>shadow_memory := shadow_memory td2, stack := stack td2\<rparr>"
    by (subst b(1), subst a(1)) simp
  moreover have "stack td2 i = (stack td i)\<lparr>a_input_size := a_input_size (stack td2 i), cumul_syscall := cumul_syscall (stack td2 i),
        cumul_thread := cumul_thread (stack td2 i), self_syscall := self_syscall (stack td2 i),
        self_thread := self_thread (stack td2 i)\<rparr>" for i
    by (subst b(3), subst a(3)) simp
  ultimately show ?thesis using a(2) b(2) unfolding same_but_counts_def by simp
qed

lemma resolution_pos: "unat sh \<le> 4 \<Longrightarrow> (0 :: u32) < 2 ^ unat sh"
  by (simp add: word_gt_0 flip: push_bit_eq_mult [of _ 1, simplified])

lemma size_arg: "n < 2 ^ 31 - 16 \<Longrightarrow> sint (ucast (of_nat n :: u64) :: u32) = int n"
proof -
  assume n: "n < 2 ^ 31 - 16"
  have "(ucast (of_nat n :: u64) :: u32) = of_nat n"
    using n by (intro word_of_unat) (simp add: unsigned_ucast_eq unat_of_nat64 take_bit_nat_eq_self)
  then show ?thesis using n unat_of_nat32 [of n] sint_small [of "of_nat n"] by simp
qed

text \<open>A world after accesses of thread \<open>t\<close>.\<close>

definition accessed_world :: "nat \<Rightarrow> ThreadData \<Rightarrow> Runtime \<Rightarrow> Runtime \<Rightarrow> bool" where
  "accessed_world t td rt rt' \<longleftrightarrow> (\<exists>td' g'. rt' = put_td (rt\<lparr>global_shadow_memory := g'\<rparr>) t td' \<and> same_but_counts td td')"

lemma accessed_world_refl: "threads rt t = Some td \<Longrightarrow> accessed_world t td rt rt"
  unfolding accessed_world_def put_td_def
  by (intro exI [of _ td] exI [of _ "global_shadow_memory rt"]) (simp add: fun_upd_idem)

lemma trace_access_drms_ok:
  assumes rel: "drms_rel t fresh sh rt S" and cur: "current_tdata rt = Some t" and td: "threads rt t = Some td" "t_skip td = 0"
    and d: "length (frames_of S t) = unat (stack_depth td)" "frames_of S t \<noteq> []"
    and n: "0 < n" "n < 2 ^ 31 - 16" "unat addr + n \<le> 2 ^ 46"
  shows "\<exists>rt'. trace_access_drms rt type addr (of_nat n) False = Inr rt' \<and> accessed_world t td rt rt' \<and>
    drms_rel t False sh rt' (fold (spec_drms type t) (cells_of sh addr n) S)"
proof -
  from rel obtain g where R: "memory_resolution (cfg rt) = 2 ^ unat sh" "lk_inv g" "res_shift g = sh" by (rule drms_relD)
  have sh: "unat sh \<le> 4" using R(2,3) by (auto simp: lk_inv_def)
  obtain a sf where fx: "fix_access_size (2 ^ unat sh) addr (int n) = (a, sf)" by fastforce
  note cells = access_cells [OF sh n fx]
  let ?R = "\<lambda>s S'. accessed_world t td rt s \<and> drms_rel t False sh s S' \<and> length (frames_of S' t) = length (frames_of S t)"
  have step: "\<exists>s'. drms_cell type False t b s = Inr s' \<and> ?R s' (spec_drms type t (LK_addr_cell sh b) S')"
    if b: "b \<in> set (access_addrs (2 ^ unat sh) a sf)" and r: "?R s S'" for b s S'
  proof -
    from r obtain tds gs where s: "s = put_td (rt\<lparr>global_shadow_memory := gs\<rparr>) t tds" "same_but_counts td tds"
      unfolding accessed_world_def by blast
    have ts: "threads s t = Some tds" by (simp add: s(1) put_td_def)
    have ne: "frames_of S' t \<noteq> []" using r d(2) by auto
    have d': "length (frames_of S' t) = unat (stack_depth tds)" using r d(1) same_but_countsD(1) [OF s(2)] by simp
    from r have "drms_rel t False sh s S'" by blast
    from drms_cell_ok [OF this ts d' ne] cells(2) b obtain td' g' where c:
      "drms_cell type False t b s = Inr (put_td (s\<lparr>global_shadow_memory := g'\<rparr>) t td')" "same_but_counts tds td'"
      "drms_rel t False sh (put_td (s\<lparr>global_shadow_memory := g'\<rparr>) t td') (spec_drms type t (LK_addr_cell sh b) S')" by blast
    have "put_td (s\<lparr>global_shadow_memory := g'\<rparr>) t td' = put_td (rt\<lparr>global_shadow_memory := g'\<rparr>) t td'"
      by (simp add: s(1) put_td_def)
    with c r same_but_counts_trans [OF s(2) c(2)] show ?thesis unfolding accessed_world_def by auto
  qed
  have "\<exists>s'. foldR (drms_cell type False t) (access_addrs (2 ^ unat sh) a sf) rt = Inr s' \<and>
      ?R s' (fold (\<lambda>b. spec_drms type t (LK_addr_cell sh b)) (access_addrs (2 ^ unat sh) a sf) S)"
  proof (rule foldR_simulation [where R = ?R and g = "\<lambda>b. spec_drms type t (LK_addr_cell sh b)"])
    show "?R rt S" using accessed_world_refl [OF td(1)] drms_rel_weaken [OF rel] by simp
  qed (rule step)
  then obtain rt' where rt': "foldR (drms_cell type False t) (access_addrs (2 ^ unat sh) a sf) rt = Inr rt'" "accessed_world t td rt rt'"
    "drms_rel t False sh rt' (fold (\<lambda>b. spec_drms type t (LK_addr_cell sh b)) (access_addrs (2 ^ unat sh) a sf) S)" by blast
  have "fold (\<lambda>b. spec_drms type t (LK_addr_cell sh b)) (access_addrs (2 ^ unat sh) a sf) =
      fold (spec_drms type t) (cells_of sh addr n)"
    unfolding cells_of_def cells(1) [symmetric] by (rule fold_map_comp [symmetric])
  with rt'(3) have rel': "drms_rel t False sh rt' (fold (spec_drms type t) (cells_of sh addr n) S)" by simp
  have "stack_depth td \<noteq> 0" using d by auto
  then have "trace_access_drms rt type addr (of_nat n) False = Inr rt'"
    by (simp add: trace_access_drms_def cur get_td_def td R(1) size_arg [OF n(2)] fx drms_loop_foldR [OF resolution_pos [OF sh]] rt'(1))
  with rt'(2) rel' show ?thesis by blast
qed

section \<open>The kernel\<close>

lemma drms_kernel_store:
  assumes rel: "drms_rel t True sh rt S" and v: "LK_valid addr"
  shows "\<exists>g'. drms_cell STORE True s addr rt = Inr (rt\<lparr>global_shadow_memory := Some g'\<rparr>) \<and>
    drms_rel t True sh (rt\<lparr>global_shadow_memory := Some g'\<rparr>) (spec_kernel_write (LK_addr_cell sh addr) S)"
proof -
  let ?n = "global_counter rt" and ?c = "LK_addr_cell sh addr"
  from rel obtain g where R: "0 < ?n" "?n < MAX_COUNT_VAL"
    "memory_resolution (cfg rt) = 2 ^ unat sh" "input_metric (cfg rt) = DRMS"
    "global_shadow_memory rt = Some g" "lk_inv g" "res_shift g = sh"
    "\<forall>c. TS (LK_sm g c) \<le> ?n" "\<forall>c. SYSCALL (LK_sm g c) = (c \<in> by_kernel S)"
    "\<forall>t. threads rt t = None \<longrightarrow> frames_of S t = [] \<and> stale S t = {c. 0 < TS (LK_sm g c)}"
    "\<forall>s td. threads rt s = Some td \<longrightarrow> res_shift (shadow_memory td) = sh \<and>
       dthread td ?n (LK_sm g) (frames_of S s) (stale S s) \<and>
       (s \<noteq> t \<or> True \<longrightarrow> (\<forall>c. LK_sm (shadow_memory td) c < ?n))" by (rule drms_relD)
  note cn = counter_not_syscall [OF R(2)]
  from LK_insert_ok [OF R(6) v, of "SET_SYSCALL ?n"] R(7) obtain g' where
    g': "LK_insert g addr (SET_SYSCALL ?n) = Inr (g', LK_sm g ?c)" "lk_inv g'" "LK_sm g' = (LK_sm g)(?c := SET_SYSCALL ?n)"
      "res_shift g' = sh" by auto
  have "drms_cell STORE True s addr rt = Inr (rt\<lparr>global_shadow_memory := Some g'\<rparr>)"
    using R(5) g'(1) by (simp add: drms_cell_def drms_global_access_def Let_def)
  moreover have "drms_rel t True sh (rt\<lparr>global_shadow_memory := Some g'\<rparr>) (spec_kernel_write ?c S)"
  proof (rule drms_relI [where g = g'])
    fix s assume "threads (rt\<lparr>global_shadow_memory := Some g'\<rparr>) s = None"
    then have "frames_of S s = []" "stale S s = {c. 0 < TS (LK_sm g c)}" using R(10) by auto
    then show "frames_of (spec_kernel_write ?c S) s = [] \<and> stale (spec_kernel_write ?c S) s = {c. 0 < TS (LK_sm g' c)}"
      using R(1) cn by (auto simp: g'(3) spec_kernel_write_def)
  next
    fix s tds assume "threads (rt\<lparr>global_shadow_memory := Some g'\<rparr>) s = Some tds"
    with R(11) have D: "res_shift (shadow_memory tds) = sh" "dthread tds ?n (LK_sm g) (frames_of S s) (stale S s)"
      "\<forall>c. LK_sm (shadow_memory tds) c < ?n" by auto
    with dthread_other_write [OF D(2), of ?c "SET_SYSCALL ?n"] cn
    show "res_shift (shadow_memory tds) = sh \<and>
       dthread tds (global_counter (rt\<lparr>global_shadow_memory := Some g'\<rparr>)) (LK_sm g') (frames_of (spec_kernel_write ?c S) s)
         (stale (spec_kernel_write ?c S) s) \<and>
       (s \<noteq> t \<or> True \<longrightarrow> (\<forall>c. LK_sm (shadow_memory tds) c < global_counter (rt\<lparr>global_shadow_memory := Some g'\<rparr>)))"
      by (simp add: g'(3) spec_kernel_write_def)
  qed (use R cn g' in \<open>simp_all add: spec_kernel_write_def\<close>)
  ultimately show ?thesis by blast
qed

text \<open>The loop over a buffer makes one access of one cell per iteration.\<close>

lemma fix_access_aligned:
  assumes sh: "unat sh \<le> 4" and b: "unat b mod 2 ^ unat sh = 0"
  shows "fix_access_size (2 ^ unat sh) b (sint (ucast (ucast (2 ^ unat sh :: u32) :: u64) :: u32)) = (b, 2 ^ unat sh)"
proof -
  have "(2 :: nat) ^ unat sh \<le> 2 ^ 4" by (rule power_increasing) (use sh in simp_all)
  then have m: "(2 :: nat) ^ unat sh < 2 ^ 31 - 16" "(2 :: nat) ^ unat sh < 2 ^ 31" by simp_all
  have r32: "unat (2 ^ unat sh :: u32) = 2 ^ unat sh" using m unat_of_nat32 [of "2 ^ unat sh"] by simp
  have u: "(ucast (ucast (2 ^ unat sh :: u32) :: u64) :: u32) = 2 ^ unat sh"
    by (rule bit_word_eqI) (simp add: bit_unsigned_iff)
  have s: "sint (2 ^ unat sh :: u32) = int (2 ^ unat sh)"
    using sint_small [of "2 ^ unat sh"] m(2) unfolding r32 by blast
  have "unat b div 2 ^ unat sh * 2 ^ unat sh = unat b" using div_mult_mod_eq [of "unat b" "2 ^ unat sh"] b by simp
  then have e: "of_nat (unat b div 2 ^ unat sh * 2 ^ unat sh) = b" by simp
  show ?thesis unfolding u s fix_access_size_eq [OF sh m(1)] e b by simp
qed

lemma buffer_loop_foldR:
  assumes r: "0 < r"
  shows "buffer_loop r type addr sz rt =
    foldR (\<lambda>b s. trace_access_drms s type b (ucast r) True) (access_addrs r addr sz) rt"
proof (induction "nat sz" arbitrary: addr sz rt rule: less_induct)
  case less
  show ?case
  proof (cases "0 < sz")
    case True
    then have "nat (sz - uint r) < nat sz" using r by (simp add: uint_pos_iff)
    from less [OF this] have rec: "buffer_loop r type a (sz - uint r) =
        foldR (\<lambda>b s. trace_access_drms s type b (ucast r) True) (access_addrs r a (sz - uint r))" for a
      by (simp add: fun_eq_iff)
    have "buffer_loop r type addr sz rt =
        bindR (trace_access_drms rt type addr (ucast r) True) (buffer_loop r type (addr + ucast r) (sz - uint r))"
      using True r by (subst buffer_loop.simps) (auto simp: word_gt_0)
    then show ?thesis unfolding rec access_addrs_Cons [OF True r] foldR.simps .
  next
    case False
    then show ?thesis using r by (subst buffer_loop.simps) (simp add: access_addrs_le_0)
  qed
qed

lemma resolution_uint: "unat sh \<le> 4 \<Longrightarrow> uint (2 ^ unat sh :: u32) = 2 ^ unat sh"
proof -
  assume sh: "unat sh \<le> 4"
  have "(2 :: nat) ^ unat sh \<le> 2 ^ 4" by (rule power_increasing) (use sh in simp_all)
  then have "unat (2 ^ unat sh :: u32) = 2 ^ unat sh" using unat_of_nat32 [of "2 ^ unat sh"] by simp
  then have "uint (2 ^ unat sh :: u32) = int (2 ^ unat sh)" by (metis uint_nat)
  then show ?thesis by simp
qed

lemma trace_access_one_cell:
  assumes cur: "current_tdata s = Some t" and td: "threads s t = Some td" "t_skip td = 0" "stack_depth td \<noteq> 0"
    and res: "memory_resolution (cfg s) = 2 ^ unat sh" and sh: "unat sh \<le> 4" and b: "unat b mod 2 ^ unat sh = 0"
  shows "trace_access_drms s type b (ucast (2 ^ unat sh :: u32)) kacc = drms_cell type kacc t b s"
proof -
  have p: "(0 :: int) < 2 ^ unat sh" by simp
  have "drms_loop (2 ^ unat sh) type kacc t b (2 ^ unat sh) s = drms_cell type kacc t b s"
    unfolding drms_loop_foldR [OF resolution_pos [OF sh]] access_addrs_Cons [OF p resolution_pos [OF sh]]
      resolution_uint [OF sh] by (simp add: access_addrs_le_0 resolution_pos [OF sh] bindR_def split: sum.splits)
  then show ?thesis
    using cur td by (simp add: trace_access_drms_def get_td_def res fix_access_aligned [OF sh b])
qed

text \<open>What the kernel stores, after the counter was increased.\<close>

lemma buffer_store_ok:
  assumes rel: "drms_rel t True sh rt S" and cur: "current_tdata rt = Some t" and td: "threads rt t = Some td" "t_skip td = 0" "stack_depth td \<noteq> 0"
    and n: "0 < n" "n < 2 ^ 31 - 16" "unat addr + n \<le> 2 ^ 46"
  shows "\<exists>g'. buffer_access STORE addr (int n) rt = Inr (rt\<lparr>global_shadow_memory := g'\<rparr>) \<and>
    drms_rel t True sh (rt\<lparr>global_shadow_memory := g'\<rparr>) (fold spec_kernel_write (cells_of sh addr n) S)"
proof -
  from rel obtain g where R: "memory_resolution (cfg rt) = 2 ^ unat sh" "lk_inv g" "res_shift g = sh" by (rule drms_relD)
  have sh: "unat sh \<le> 4" using R(2,3) by (auto simp: lk_inv_def)
  obtain a sf where fx: "fix_access_size (2 ^ unat sh) addr (int n) = (a, sf)" by fastforce
  note cells = access_cells [OF sh n fx]
  let ?R = "\<lambda>s S'. (\<exists>g'. s = rt\<lparr>global_shadow_memory := g'\<rparr>) \<and> drms_rel t True sh s S'"
  let ?f = "\<lambda>b s. trace_access_drms s STORE b (ucast (2 ^ unat sh :: u32)) True"
  have step: "\<exists>s'. ?f b s = Inr s' \<and> ?R s' (spec_kernel_write (LK_addr_cell sh b) S')"
    if b: "b \<in> set (access_addrs (2 ^ unat sh) a sf)" and r: "?R s S'" for b s S'
  proof -
    from r obtain gs where s: "s = rt\<lparr>global_shadow_memory := gs\<rparr>" by blast
    have "?f b s = drms_cell STORE True t b s"
      by (rule trace_access_one_cell [where td = td]) (use s cur td R(1) sh cells(3) b in simp_all)
    with drms_kernel_store [of t sh s S' b t] r cells(2) b s show ?thesis by fastforce
  qed
  have "\<exists>s'. foldR ?f (access_addrs (2 ^ unat sh) a sf) rt = Inr s' \<and>
      ?R s' (fold (\<lambda>b. spec_kernel_write (LK_addr_cell sh b)) (access_addrs (2 ^ unat sh) a sf) S)"
  proof (rule foldR_simulation [where R = ?R and g = "\<lambda>b. spec_kernel_write (LK_addr_cell sh b)"])
    have "rt = rt\<lparr>global_shadow_memory := global_shadow_memory rt\<rparr>" by simp
    with rel show "?R rt S" by blast
  qed (rule step)
  moreover have "fold (\<lambda>b. spec_kernel_write (LK_addr_cell sh b)) (access_addrs (2 ^ unat sh) a sf) =
      fold spec_kernel_write (cells_of sh addr n)"
    unfolding cells_of_def cells(1) [symmetric] by (rule fold_map_comp [symmetric])
  moreover have "buffer_access STORE addr (int n) rt = foldR ?f (access_addrs (2 ^ unat sh) a sf) rt"
    by (simp add: buffer_access_def R(1) fx buffer_loop_foldR [OF resolution_pos [OF sh]])
  ultimately show ?thesis by auto
qed

section \<open>The counter\<close>

lemma increase_counter_ok:
  assumes rel: "drms_rel t fresh sh rt S" and n: "global_counter rt + 1 < MAX_COUNT_VAL"
  shows "increase_global_counter rt = Inr (rt\<lparr>global_counter := global_counter rt + 1\<rparr>)"
    "drms_rel t' True sh (rt\<lparr>global_counter := global_counter rt + 1\<rparr>) S"
proof -
  let ?n = "global_counter rt"
  from rel obtain g where R: "0 < ?n" "?n < MAX_COUNT_VAL"
    "memory_resolution (cfg rt) = 2 ^ unat sh" "input_metric (cfg rt) = DRMS"
    "global_shadow_memory rt = Some g" "lk_inv g" "res_shift g = sh"
    "\<forall>c. TS (LK_sm g c) \<le> ?n" "\<forall>c. SYSCALL (LK_sm g c) = (c \<in> by_kernel S)"
    "\<forall>t. threads rt t = None \<longrightarrow> frames_of S t = [] \<and> stale S t = {c. 0 < TS (LK_sm g c)}"
    "\<forall>s td. threads rt s = Some td \<longrightarrow> res_shift (shadow_memory td) = sh \<and>
       dthread td ?n (LK_sm g) (frames_of S s) (stale S s) \<and>
       (s \<noteq> t \<or> fresh \<longrightarrow> (\<forall>c. LK_sm (shadow_memory td) c < ?n))" by (rule drms_relD)
  have "?n + 1 \<noteq> 0"
  proof
    assume "?n + 1 = 0"
    then have "?n = - 1" by (simp add: eq_neg_iff_add_eq_0)
    also have "\<dots> = 0xFFFFFFFF" by simp
    finally show False using R(2) by (simp add: MAX_COUNT_VAL_def)
  qed
  then have lt: "x < ?n + 1 \<longleftrightarrow> x \<le> ?n" for x by (rule word_less_plus_1)
  show "increase_global_counter rt = Inr (rt\<lparr>global_counter := ?n + 1\<rparr>)"
    using n by (auto simp: increase_global_counter_def Let_def)
  show "drms_rel t' True sh (rt\<lparr>global_counter := ?n + 1\<rparr>) S"
  proof (rule drms_relI [where g = g])
    show "0 < global_counter (rt\<lparr>global_counter := ?n + 1\<rparr>)" using \<open>?n + 1 \<noteq> 0\<close> by (simp add: word_gt_0)
    show "TS (LK_sm g c) \<le> global_counter (rt\<lparr>global_counter := ?n + 1\<rparr>)" for c
      using R(8) lt by (simp add: less_imp_le)
    fix s tds assume "threads (rt\<lparr>global_counter := ?n + 1\<rparr>) s = Some tds"
    with R(11) have D: "res_shift (shadow_memory tds) = sh" "dthread tds ?n (LK_sm g) (frames_of S s) (stale S s)" by auto
    have "dthread tds (?n + 1) (LK_sm g) (frames_of S s) (stale S s)"
      by (rule dthread_later [OF D(2)]) (use lt in \<open>simp add: less_imp_le\<close>)
    then show "res_shift (shadow_memory tds) = sh \<and>
       dthread tds (global_counter (rt\<lparr>global_counter := ?n + 1\<rparr>)) (LK_sm g) (frames_of S s) (stale S s) \<and>
       (s \<noteq> t' \<or> True \<longrightarrow> (\<forall>c. LK_sm (shadow_memory tds) c < global_counter (rt\<lparr>global_counter := ?n + 1\<rparr>)))"
      using D dthreadD(6) [OF D(2)] lt by simp
  qed (use R n in simp_all)
qed

lemma dthread_cong:
  assumes "shadow_memory td' = shadow_memory td" "stack_depth td' = stack_depth td" "max_stack_size td' = max_stack_size td"
    and "stack td' = stack td"
  shows "dthread td' = dthread td"
  by (intro ext) (simp add: dthread_def stack_ok_def ids_ok_def assms)

lemma drms_rel_cong:
  assumes "drms_rel t fresh sh rt S" "threads rt' = threads rt" "global_counter rt' = global_counter rt"
    "global_shadow_memory rt' = global_shadow_memory rt" "cfg rt' = cfg rt"
  shows "drms_rel t fresh sh rt' S"
  using assms by (simp add: drms_rel_def)

lemma drms_rel_put:
  assumes rel: "drms_rel t fresh sh rt S" and td: "threads rt s = Some td"
    and e: "shadow_memory td' = shadow_memory td" "stack_depth td' = stack_depth td" "max_stack_size td' = max_stack_size td"
      "stack td' = stack td"
  shows "drms_rel t fresh sh (put_td rt s td') S"
proof -
  from rel obtain g where R: "0 < global_counter rt" "global_counter rt < MAX_COUNT_VAL"
    "memory_resolution (cfg rt) = 2 ^ unat sh" "input_metric (cfg rt) = DRMS"
    "global_shadow_memory rt = Some g" "lk_inv g" "res_shift g = sh"
    "\<forall>c. TS (LK_sm g c) \<le> global_counter rt" "\<forall>c. SYSCALL (LK_sm g c) = (c \<in> by_kernel S)"
    "\<forall>t. threads rt t = None \<longrightarrow> frames_of S t = [] \<and> stale S t = {c. 0 < TS (LK_sm g c)}"
    "\<forall>s td. threads rt s = Some td \<longrightarrow> res_shift (shadow_memory td) = sh \<and>
       dthread td (global_counter rt) (LK_sm g) (frames_of S s) (stale S s) \<and>
       (s \<noteq> t \<or> fresh \<longrightarrow> (\<forall>c. LK_sm (shadow_memory td) c < global_counter rt))" by (rule drms_relD)
  show ?thesis
  proof (rule drms_relI [where g = g])
    fix x tdx assume x: "threads (put_td rt s td') x = Some tdx"
    show "res_shift (shadow_memory tdx) = sh \<and>
       dthread tdx (global_counter (put_td rt s td')) (LK_sm g) (frames_of S x) (stale S x) \<and>
       (x \<noteq> t \<or> fresh \<longrightarrow> (\<forall>c. LK_sm (shadow_memory tdx) c < global_counter (put_td rt s td')))"
    proof (cases "x = s")
      case True
      with x have "tdx = td'" by (simp add: put_td_def)
      with True R(11) td dthread_cong [OF e] show ?thesis by (auto simp: e(1))
    next
      case False
      with x R(11) show ?thesis by (auto simp: put_td_def)
    qed
  qed (use R in \<open>auto simp: put_td_def split: if_splits\<close>)
qed

lemma drms_rel_shift: "drms_rel t fresh sh rt S \<Longrightarrow> unat sh \<le> 4"
  by (auto simp: drms_rel_def lk_inv_def)

text \<open>A new thread has accessed nothing: every cell written so far is stale for it.\<close>

lemma drms_thread_start:
  assumes rel: "drms_rel t True sh rt S" and new: "threads rt (tid_slot tid) = None" and tid: "tid_slot tid < VG_N_THREADS"
  shows "\<exists>td rt'. thread_start rt tid = Inr rt' \<and> threads rt' = (threads rt)(tid_slot tid \<mapsto> td) \<and> cfg rt' = cfg rt \<and>
    fns rt' = fns rt \<and> global_counter rt' = global_counter rt \<and> drms_rel t True sh rt' S \<and>
    running_threads rt' = running_threads rt + 1 \<and> stack_depth td = 0 \<and> t_skip td = 0 \<and> routines_inv td \<and> (\<forall>f. get_ri td f = Inl NullDeref)"
proof -
  from rel obtain g where R: "0 < global_counter rt" "global_counter rt < MAX_COUNT_VAL"
    "memory_resolution (cfg rt) = 2 ^ unat sh" "input_metric (cfg rt) = DRMS"
    "global_shadow_memory rt = Some g" "lk_inv g" "res_shift g = sh"
    "\<forall>c. TS (LK_sm g c) \<le> global_counter rt" "\<forall>c. SYSCALL (LK_sm g c) = (c \<in> by_kernel S)"
    "\<forall>t. threads rt t = None \<longrightarrow> frames_of S t = [] \<and> stale S t = {c. 0 < TS (LK_sm g c)}"
    "\<forall>s td. threads rt s = Some td \<longrightarrow> res_shift (shadow_memory td) = sh \<and>
       dthread td (global_counter rt) (LK_sm g) (frames_of S s) (stale S s) \<and>
       (s \<noteq> t \<or> True \<longrightarrow> (\<forall>c. LK_sm (shadow_memory td) c < global_counter rt))" by (rule drms_relD)
  from LK_create_shift [OF drms_rel_shift [OF rel]] obtain lk where
    lk: "LK_create (2 ^ unat sh) = Inr lk" "lk_inv lk" "LK_sm lk = (\<lambda>_. 0)" "res_shift lk = sh" by blast
  define own where "own = (collect_CCT (cfg rt) \<and> \<not> single_report (cfg rt))"
  define td where "td = \<lparr>shadow_memory = lk, rtn_ht = HT_construct True, t_cost = 0, stack_depth = 0,
           stack = (\<lambda>_. zero_activation), max_stack_size = STACK_SIZE, t_last_bb = None, t_last_exit = NONE,
           next_routine_id = 0, t_skip = 0, skip_cost = 0, next_activation_id = 1,
           t_root = (if own then Some (length (ccts rt)) else if collect_CCT (cfg rt) then r_root rt else None),
           next_context_id = 1\<rparr>"
  define rt' where "rt' = (put_td rt (tid_slot tid) td)
     \<lparr>ccts := (if own then ccts rt @ [empty_node] else ccts rt), running_threads := running_threads rt + 1\<rparr>"
  have e: "thread_start rt tid = Inr rt'"
    using R(3) lk(1) tid by (simp add: thread_start_def slot_ok_def Let_def td_def rt'_def own_def)
  have "stack_size_ok 64" unfolding stack_size_ok_def by (rule exI [of _ 0]) simp
  then have ok: "stack_ok td" by (simp add: stack_ok_def td_def STACK_SIZE_def MAX_STACK_SIZE_def)
  have th: "threads rt' = (threads rt)(tid_slot tid \<mapsto> td)" by (simp add: rt'_def put_td_def)
  have fr: "frames_of S (tid_slot tid) = []" "stale S (tid_slot tid) = {c. 0 < TS (LK_sm g c)}" using R(10) new by auto
  have dt: "dthread td (global_counter rt) (LK_sm g) (frames_of S (tid_slot tid)) (stale S (tid_slot tid))"
    unfolding fr by (rule dthreadI) (use ok lk in \<open>simp_all add: td_def ids_ok_def\<close>)
  have "drms_rel t True sh rt' S"
  proof (rule drms_relI [where g = g])
    fix x assume "threads rt' x = None"
    then show "frames_of S x = [] \<and> stale S x = {c. 0 < TS (LK_sm g c)}" using R(10) by (auto simp: th split: if_splits)
  next
    fix x tdx assume x: "threads rt' x = Some tdx"
    have c: "global_counter rt' = global_counter rt" by (simp add: rt'_def)
    show "res_shift (shadow_memory tdx) = sh \<and> dthread tdx (global_counter rt') (LK_sm g) (frames_of S x) (stale S x) \<and>
       (x \<noteq> t \<or> True \<longrightarrow> (\<forall>c. LK_sm (shadow_memory tdx) c < global_counter rt'))"
    proof (cases "x = tid_slot tid")
      case True
      with x have tdx: "tdx = td" by (simp add: th)
      have "res_shift (shadow_memory td) = sh" "LK_sm (shadow_memory td) = (\<lambda>_. 0)" using lk by (simp_all add: td_def)
      then show ?thesis unfolding tdx True c using dt R(1) by simp
    next
      case False
      with x R(11) show ?thesis by (auto simp: th c)
    qed
  qed (use R in \<open>simp_all add: rt'_def put_td_def\<close>)
  moreover have "routines_inv td" by (simp add: routines_inv_def HT_construct_ok ht.uniq_def td_def)
  moreover have "get_ri td f = Inl NullDeref" for f by (simp add: get_ri_def HT_lookup_ht_get HT_construct_ok td_def)
  moreover have "cfg rt' = cfg rt" "fns rt' = fns rt" "global_counter rt' = global_counter rt" "stack_depth td = 0" "t_skip td = 0"
      "running_threads rt' = running_threads rt + 1"
    by (simp_all add: rt'_def td_def)
  ultimately show ?thesis using e th by blast
qed

text \<open>A switch changes nothing else in the threads there are.\<close>

definition left_thread :: "ThreadData \<Rightarrow> ThreadData \<Rightarrow> bool" where
  "left_thread td td' \<longleftrightarrow> td\<lparr>t_last_exit := NONE\<rparr> = td'\<lparr>t_last_exit := NONE\<rparr>"

lemma left_thread_refl [simp]: "left_thread td td"
  by (simp add: left_thread_def)

lemma left_threadD:
  assumes "left_thread td td'"
  shows "stack td' = stack td" "stack_depth td' = stack_depth td" "t_skip td' = t_skip td" "rtn_ht td' = rtn_ht td"
  using assms unfolding left_thread_def by (metis ThreadData.select_convs ThreadData.update_convs ThreadData.surjective)+

lemma drms_thread_switch:
  assumes rel: "drms_rel t fresh sh rt S" and tid: "tid \<noteq> 0" "tid \<noteq> current_TID rt" "tid_slot tid < VG_N_THREADS"
    and n: "global_counter rt + 1 < MAX_COUNT_VAL" and cur: "\<forall>s. current_tdata rt = Some s \<longrightarrow> threads rt s \<noteq> None"
  shows "\<exists>rt' td. thread_switch rt tid = Inr rt' \<and> current_tdata rt' = Some (tid_slot tid) \<and> current_TID rt' = tid \<and>
    drms_rel (tid_slot tid) True sh rt' S \<and> cfg rt' = cfg rt \<and> fns rt' = fns rt \<and>
    global_counter rt' = global_counter rt + 1 \<and> threads rt' (tid_slot tid) = Some td \<and>
    (threads rt (tid_slot tid) = None \<longrightarrow> stack_depth td = 0 \<and> t_skip td = 0 \<and> routines_inv td \<and> (\<forall>f. get_ri td f = Inl NullDeref)) \<and>
    (\<forall>s tds. threads rt s = Some tds \<longrightarrow> (\<exists>td'. threads rt' s = Some td' \<and> left_thread tds td')) \<and>
    (\<forall>s. threads rt s = None \<longrightarrow> s \<noteq> tid_slot tid \<longrightarrow> threads rt' s = None) \<and>
    running_threads rt' = running_threads rt + (if threads rt (tid_slot tid) = None then 1 else 0)"
proof -
  let ?t = "tid_slot tid"
  obtain rt1 where 1: "(case current_tdata rt of None \<Rightarrow> Inr rt
      | Some t \<Rightarrow> bindR (get_td rt t) (\<lambda>td. Inr (put_td rt t (td\<lparr>t_last_exit := last_exit rt\<rparr>)))) = Inr rt1"
    "cfg rt1 = cfg rt" "fns rt1 = fns rt" "global_counter rt1 = global_counter rt" "drms_rel t fresh sh rt1 S"
    "\<forall>s tds. threads rt s = Some tds \<longrightarrow> (\<exists>td'. threads rt1 s = Some td' \<and> left_thread tds td')"
    "\<forall>s. threads rt s = None \<longrightarrow> threads rt1 s = None" "running_threads rt1 = running_threads rt"
  proof (cases "current_tdata rt")
    case None
    with rel that [of rt] show thesis by simp
  next
    case (Some s)
    with cur obtain td where td: "threads rt s = Some td" by blast
    have "drms_rel t fresh sh (put_td rt s (td\<lparr>t_last_exit := last_exit rt\<rparr>)) S"
      by (rule drms_rel_put [OF rel td]) simp_all
    moreover have "left_thread td (td\<lparr>t_last_exit := ex\<rparr>)" for ex by (simp add: left_thread_def)
    ultimately show thesis using Some td that [of "put_td rt s (td\<lparr>t_last_exit := last_exit rt\<rparr>)"]
      by (simp add: get_td_def put_td_def)
  qed
  let ?rt2 = "rt1\<lparr>current_TID := tid\<rparr>"
  have r2: "drms_rel t fresh sh ?rt2 S" by (rule drms_rel_cong [OF 1(5)]) simp_all
  have n2: "global_counter ?rt2 + 1 < MAX_COUNT_VAL" using n 1(4) by simp
  let ?rt3 = "?rt2\<lparr>global_counter := global_counter rt + 1\<rparr>"
  have i1: "increase_global_counter ?rt2 = Inr ?rt3" using increase_counter_ok(1) [OF r2 n2] 1(4) by simp
  have r3: "drms_rel ?t True sh ?rt3 S" using increase_counter_ok(2) [OF r2 n2, of ?t] 1(4) by simp
  have m: "input_metric (cfg ?rt2) = DRMS" using r2 by (simp add: drms_rel_def)
  have th: "threads ?rt3 = threads rt1" by simp
  obtain rt4 td where 4: "(if threads ?rt3 ?t = None then thread_start ?rt3 tid else Inr ?rt3) = Inr rt4"
    "threads rt4 ?t = Some td" "cfg rt4 = cfg rt" "fns rt4 = fns rt" "global_counter rt4 = global_counter rt + 1" "drms_rel ?t True sh rt4 S"
    "threads rt1 ?t = None \<longrightarrow> stack_depth td = 0 \<and> t_skip td = 0 \<and> routines_inv td \<and> (\<forall>f. get_ri td f = Inl NullDeref)"
    "\<forall>s. s \<noteq> ?t \<or> threads rt1 ?t \<noteq> None \<longrightarrow> threads rt4 s = threads rt1 s" "current_TID rt4 = tid"
    "running_threads rt4 = running_threads rt + (if threads rt1 ?t = None then 1 else 0)"
  proof (cases "threads rt1 ?t")
    case None
    then have "threads ?rt3 ?t = None" by simp
    from drms_thread_start [OF r3 this tid(3)] obtain td rt' where s: "thread_start ?rt3 tid = Inr rt'"
      "threads rt' = (threads ?rt3)(?t \<mapsto> td)" "cfg rt' = cfg ?rt3" "fns rt' = fns ?rt3" "global_counter rt' = global_counter ?rt3"
      "drms_rel ?t True sh rt' S" "running_threads rt' = running_threads ?rt3 + 1" "stack_depth td = 0" "t_skip td = 0" "routines_inv td" "\<forall>f. get_ri td f = Inl NullDeref" by blast
    have "current_TID rt' = tid" using s(1) by (auto simp: thread_start_def bindR_eq_Inr Let_def put_td_def)
    with s None 1(2-4,8) show thesis by (intro that [of rt' td]) auto
  next
    case (Some td)
    then show thesis using r3 1(2-4,8) by (intro that [of ?rt3 td]) auto
  qed
  let ?rt5 = "rt4\<lparr>current_tdata := Some ?t\<rparr>"
  let ?rt' = "?rt5\<lparr>last_exit := t_last_exit td\<rparr>"
  have e: "thread_switch rt tid = Inr ?rt'"
    unfolding thread_switch_def 1(1) using tid m i1 4(1,2)
    by (simp add: Let_def VG_INVALID_THREADID_def slot_ok_def get_td_def)
  have r': "drms_rel ?t True sh ?rt' S" by (rule drms_rel_cong [OF 4(6)]) simp_all
  have old: "\<forall>s tds. threads rt s = Some tds \<longrightarrow> (\<exists>td'. threads ?rt' s = Some td' \<and> left_thread tds td')"
  proof (intro allI impI)
    fix s tds assume "threads rt s = Some tds"
    with 1(6) obtain td' where x: "threads rt1 s = Some td'" "left_thread tds td'" by blast
    then have "threads rt4 s = threads rt1 s" using 4(8) by (cases "s = ?t") auto
    with x show "\<exists>td'. threads ?rt' s = Some td' \<and> left_thread tds td'" by simp
  qed
  have none: "\<forall>s. threads rt s = None \<longrightarrow> s \<noteq> ?t \<longrightarrow> threads ?rt' s = None" using 4(8) 1(7) by simp
  have "threads rt1 ?t = None \<longleftrightarrow> threads rt ?t = None"
  proof (cases "threads rt ?t")
    case (Some tds)
    with 1(6) obtain td' where "threads rt1 ?t = Some td'" by blast
    with Some show ?thesis by simp
  qed (use 1(7) in simp)
  then show ?thesis
    by (intro exI [of _ ?rt'] exI [of _ td])
      (use e r' 4 old none 1(7) in simp)
qed

section \<open>Entry and exit\<close>

definition dframe0 :: dframe where
  "dframe0 = \<lparr>d_accessed = {}, d_reads = 0, d_kernel = 0, d_other = 0, d_self_kernel = 0, d_self_other = 0\<rparr>"

definition spec_enter_drms :: "nat \<Rightarrow> shared \<Rightarrow> shared" where
  "spec_enter_drms t S = S\<lparr>frames_of := (frames_of S)(t := frames_of S t @ [dframe0])\<rparr>"

definition spec_exit_drms :: "nat \<Rightarrow> shared \<Rightarrow> shared" where
  "spec_exit_drms t S = S\<lparr>frames_of := (frames_of S)(t := butlast (frames_of S t))\<rparr>"

lemma drms_rel_thread:
  assumes rel: "drms_rel t fresh sh rt S" and td: "threads rt s = Some td"
    and D: "\<And>G. dthread td (global_counter rt) G (frames_of S s) (stale S s) \<Longrightarrow>
        dthread td' (global_counter rt) G (frames_of S' s) (stale S' s)"
    and sm: "shadow_memory td' = shadow_memory td"
    and S': "\<And>x. x \<noteq> s \<Longrightarrow> frames_of S' x = frames_of S x \<and> stale S' x = stale S x" "by_kernel S' = by_kernel S"
  shows "drms_rel t fresh sh (put_td rt s td') S'"
proof -
  from rel obtain g where R: "0 < global_counter rt" "global_counter rt < MAX_COUNT_VAL"
    "memory_resolution (cfg rt) = 2 ^ unat sh" "input_metric (cfg rt) = DRMS"
    "global_shadow_memory rt = Some g" "lk_inv g" "res_shift g = sh"
    "\<forall>c. TS (LK_sm g c) \<le> global_counter rt" "\<forall>c. SYSCALL (LK_sm g c) = (c \<in> by_kernel S)"
    "\<forall>t. threads rt t = None \<longrightarrow> frames_of S t = [] \<and> stale S t = {c. 0 < TS (LK_sm g c)}"
    "\<forall>s td. threads rt s = Some td \<longrightarrow> res_shift (shadow_memory td) = sh \<and>
       dthread td (global_counter rt) (LK_sm g) (frames_of S s) (stale S s) \<and>
       (s \<noteq> t \<or> fresh \<longrightarrow> (\<forall>c. LK_sm (shadow_memory td) c < global_counter rt))" by (rule drms_relD)
  show ?thesis
  proof (rule drms_relI [where g = g])
    fix x assume "threads (put_td rt s td') x = None"
    then have "x \<noteq> s" "threads rt x = None" by (auto simp: put_td_def split: if_splits)
    then show "frames_of S' x = [] \<and> stale S' x = {c. 0 < TS (LK_sm g c)}" using R(10) S'(1) by auto
  next
    fix x tdx assume x: "threads (put_td rt s td') x = Some tdx"
    show "res_shift (shadow_memory tdx) = sh \<and>
       dthread tdx (global_counter (put_td rt s td')) (LK_sm g) (frames_of S' x) (stale S' x) \<and>
       (x \<noteq> t \<or> fresh \<longrightarrow> (\<forall>c. LK_sm (shadow_memory tdx) c < global_counter (put_td rt s td')))"
    proof (cases "x = s")
      case True
      with x have "tdx = td'" by (simp add: put_td_def)
      with True R(11) td D sm show ?thesis by auto
    next
      case False
      with x R(11) S'(1) show ?thesis by (auto simp: put_td_def)
    qed
  qed (use R S' in \<open>simp_all add: put_td_def\<close>)
qed

text \<open>Entry: the new activation is at the new value of the counter, above every access so far.\<close>

lemma dthread_enter:
  assumes D: "dthread td n G fs st" and below: "\<And>c. LK_sm (shadow_memory td) c < n"
    and ids: "\<And>i. i < length fs \<Longrightarrow> activation_id (stack td i) < n" and n: "0 < n"
    and e: "shadow_memory td' = shadow_memory td" "stack_ok td'" "unat (stack_depth td') = Suc (length fs)"
    and st: "\<And>i. i < length fs \<Longrightarrow> stack td' i = stack td i"
    and top: "activation_id (stack td' (length fs)) = n" "a_input_size (stack td' (length fs)) = 0"
      "cumul_syscall (stack td' (length fs)) = 0" "cumul_thread (stack td' (length fs)) = 0"
      "self_syscall (stack td' (length fs)) = 0" "self_thread (stack td' (length fs)) = 0"
  shows "dthread td' n G (fs @ [dframe0]) st"
proof (rule dthreadI)
  note T = dthreadD [OF D]
  let ?l = "length fs"
  have eq: "stack td' i = stack td i" if "i < ?l" for i using st [OF that] .
  show "stack_ok td'" "lk_inv (shadow_memory td')" "length (fs @ [dframe0]) \<le> unat (stack_depth td')"
    using T(2) e by simp_all
  show "ids_ok (length (fs @ [dframe0])) td'"
    using T(4) ids n eq top(1) by (auto simp: ids_ok_def less_Suc_eq)
  show "LK_sm (shadow_memory td') c \<le> n" for c using T(6) e by simp
  show "st = {c. LK_sm (shadow_memory td') c < TS (G c)}" using T(13) e by simp
  fix i assume "i < length (fs @ [dframe0])"
  then consider "i < ?l" | "i = ?l" by (auto simp: less_Suc_eq)
  note cs = this
  show "activation_id (stack td' i) \<le> n" using cs T(5) eq top(1) by cases simp_all
  show "d_accessed ((fs @ [dframe0]) ! i) = {c. activation_id (stack td' i) \<le> LK_sm (shadow_memory td') c}"
    using cs
  proof cases
    case 1
    then show ?thesis using T(7) eq e(1) by (simp add: nth_append)
  next
    case 2
    have "\<not> n \<le> LK_sm (shadow_memory td) c" for c using below by (simp add: not_le)
    with 2 show ?thesis by (simp add: dframe0_def top(1) e(1))
  qed
  have sums: "(\<Sum>j = i..<length (fs @ [dframe0]). f (stack td' j)) = (\<Sum>j = i..<?l. f (stack td j)) + f (stack td' ?l)"
    if "i < ?l" for f :: "Activation \<Rightarrow> 'b :: comm_monoid_add"
    using that eq by (auto intro!: sum.cong)
  show "of_nat (d_reads ((fs @ [dframe0]) ! i)) = (\<Sum>j = i..<length (fs @ [dframe0]). a_input_size (stack td' j))"
    using cs
  proof cases
    case 1
    then show ?thesis unfolding sums [OF 1, of a_input_size] using T(8) top by (simp add: nth_append)
  qed (simp add: dframe0_def top)
  show "of_nat (d_kernel ((fs @ [dframe0]) ! i)) = (\<Sum>j = i..<length (fs @ [dframe0]). cumul_syscall (stack td' j))"
    using cs
  proof cases
    case 1
    then show ?thesis unfolding sums [OF 1, of cumul_syscall] using T(9) top by (simp add: nth_append)
  qed (simp add: dframe0_def top)
  show "of_nat (d_other ((fs @ [dframe0]) ! i)) = (\<Sum>j = i..<length (fs @ [dframe0]). cumul_thread (stack td' j))"
    using cs
  proof cases
    case 1
    then show ?thesis unfolding sums [OF 1, of cumul_thread] using T(10) top by (simp add: nth_append)
  qed (simp add: dframe0_def top)
  show "self_syscall (stack td' i) = of_nat (d_self_kernel ((fs @ [dframe0]) ! i))"
    "self_thread (stack td' i) = of_nat (d_self_other ((fs @ [dframe0]) ! i))"
    using cs T(11,12) eq top by (cases; simp add: nth_append dframe0_def)+
qed

text \<open>Exit: the parent inherits the counts.\<close>

lemma dthread_exit:
  assumes D: "dthread td n G fs st" and l: "length fs = Suc d" and depth: "unat (stack_depth td) = Suc d"
    and ex: "exited d cost cumul td td'"
  shows "dthread (td'\<lparr>stack_depth := stack_depth td' - 1\<rparr>) n G (butlast fs) st"
    and "a_input_size (stack td d) = of_nat (d_reads (last fs))" "cumul_syscall (stack td d) = of_nat (d_kernel (last fs))"
    "cumul_thread (stack td d) = of_nat (d_other (last fs))" "self_syscall (stack td d) = of_nat (d_self_kernel (last fs))"
    "self_thread (stack td d) = of_nat (d_self_other (last fs))"
proof -
  note T = dthreadD [OF D, unfolded l] and X = exitedD [OF ex]
  have "fs \<noteq> []" using l by auto
  then have last: "last fs = fs ! d" using l by (simp add: last_conv_nth)
  show "a_input_size (stack td d) = of_nat (d_reads (last fs))" "cumul_syscall (stack td d) = of_nat (d_kernel (last fs))"
    "cumul_thread (stack td d) = of_nat (d_other (last fs))" "self_syscall (stack td d) = of_nat (d_self_kernel (last fs))"
    "self_thread (stack td d) = of_nat (d_self_other (last fs))"
    unfolding last using T(8-12) [of d] by simp_all
  let ?td = "td'\<lparr>stack_depth := stack_depth td' - 1\<rparr>"
  have aid: "activation_id (stack td' i) = activation_id (stack td i)" "self_syscall (stack td' i) = self_syscall (stack td i)"
    "self_thread (stack td' i) = self_thread (stack td i)" for i
    by (simp_all add: X(10) add_to_parent_def)
  have sums: "(\<Sum>j = i..<d. f (stack td' j)) = (\<Sum>j = i..<Suc d. f (stack td j))" if i: "i < d"
    and f: "\<And>a c p. f (add_to_parent a c p) = f p + f a" for i and f :: "Activation \<Rightarrow> 'b :: comm_monoid_add"
  proof -
    from i obtain m where d: "d = Suc m" by (cases d) auto
    have "(\<Sum>j = i..<m. f (stack td' j)) = (\<Sum>j = i..<m. f (stack td j))"
      using d by (intro sum.cong) (auto simp: X(10))
    with i show ?thesis by (simp add: d X(10) f add.assoc)
  qed
  show "dthread ?td n G (butlast fs) st"
  proof (rule dthreadI)
    show "stack_ok ?td" using T(1) depth by (auto simp: stack_ok_def X(1,2) depth_pred)
    show "lk_inv (shadow_memory ?td)" using T(2) by (simp add: X(7))
    show "length (butlast fs) \<le> unat (stack_depth ?td)" using l depth by (simp add: X(1) depth_pred)
    show "ids_ok (length (butlast fs)) ?td" using T(4) l by (simp add: ids_ok_def aid)
    show "LK_sm (shadow_memory ?td) c \<le> n" for c using T(6) by (simp add: X(7))
    show "st = {c. LK_sm (shadow_memory ?td) c < TS (G c)}" using T(13) by (simp add: X(7))
    fix i assume "i < length (butlast fs)"
    then have i: "i < d" "i < Suc d" using l by simp_all
    have nth: "butlast fs ! i = fs ! i" using i l by (simp add: nth_butlast)
    have len: "length (butlast fs) = d" using l by simp
    have stk: "stack ?td = stack td'" by simp
    show "activation_id (stack ?td i) \<le> n" using T(5) [OF i(2)] by (simp add: aid)
    show "d_accessed (butlast fs ! i) = {c. activation_id (stack ?td i) \<le> LK_sm (shadow_memory ?td) c}"
      unfolding nth using T(7) [OF i(2)] by (simp add: aid X(7))
    show "of_nat (d_reads (butlast fs ! i)) = (\<Sum>j = i..<length (butlast fs). a_input_size (stack ?td j))"
      unfolding nth len stk T(8) [OF i(2)] by (rule sums [OF i(1), of a_input_size, symmetric]) (simp add: add_to_parent_def)
    show "of_nat (d_kernel (butlast fs ! i)) = (\<Sum>j = i..<length (butlast fs). cumul_syscall (stack ?td j))"
      unfolding nth len stk T(9) [OF i(2)] by (rule sums [OF i(1), of cumul_syscall, symmetric]) (simp add: add_to_parent_def)
    show "of_nat (d_other (butlast fs ! i)) = (\<Sum>j = i..<length (butlast fs). cumul_thread (stack ?td j))"
      unfolding nth len stk T(10) [OF i(2)] by (rule sums [OF i(1), of cumul_thread, symmetric]) (simp add: add_to_parent_def)
    show "self_syscall (stack ?td i) = of_nat (d_self_kernel (butlast fs ! i))"
      "self_thread (stack ?td i) = of_nat (d_self_other (butlast fs ! i))"
      unfolding nth stk aid using T(11,12) [OF i(2)] by simp_all
  qed
qed

section \<open>System calls that write are loads\<close>

lemma foldR_cong_inv:
  assumes "\<And>x s. x \<in> set xs \<Longrightarrow> P s \<Longrightarrow> f x s = g x s" "\<And>x s s'. P s \<Longrightarrow> g x s = Inr s' \<Longrightarrow> P s'" "P s"
  shows "foldR f xs s = foldR g xs s"
  using assms(1,3)
proof (induction xs arbitrary: s)
  case (Cons x xs)
  have e: "f x s = g x s" using Cons.prems by simp
  show ?case
  proof (cases "g x s")
    case (Inr s1)
    then have "P s1" using assms(2) Cons.prems(2) by blast
    with Cons e Inr show ?thesis by simp
  qed (simp add: e)
qed simp

lemma drms_read_same: "drms_read td old wts = Inr td' \<Longrightarrow> stack_depth td' = stack_depth td \<and> t_skip td' = t_skip td"
  unfolding drms_read_def Let_def bindR_eq_Inr by (auto simp: bindR_eq_Inr split: if_splits)

definition can_trace :: "nat \<Rightarrow> Config \<Rightarrow> Runtime \<Rightarrow> bool" where
  "can_trace t c rt \<longleftrightarrow> current_tdata rt = Some t \<and> cfg rt = c \<and>
     (\<exists>td. threads rt t = Some td \<and> t_skip td = 0 \<and> stack_depth td \<noteq> 0)"

lemma can_trace_drms_cell:
  assumes p: "can_trace t c s" and e: "drms_cell LOAD k t b s = Inr s'"
  shows "can_trace t c s'"
proof -
  from p obtain td where td: "threads s t = Some td" "t_skip td = 0" "stack_depth td \<noteq> 0" by (auto simp: can_trace_def)
  from e td(1) obtain g m old td2 wts where
    r: "drms_read (td\<lparr>shadow_memory := m\<rparr>) old wts = Inr td2" "s' = put_td (s\<lparr>global_shadow_memory := Some g\<rparr>) t td2"
    by (auto simp: drms_cell_def Let_def bindR_eq_Inr get_td_def drms_global_access_def)
  from drms_read_same [OF r(1)] td p r(2) show ?thesis by (auto simp: can_trace_def put_td_def)
qed

lemma drms_cell_load_kernel: "drms_cell LOAD k t b s = drms_cell LOAD False t b s"
  by (simp add: drms_cell_def drms_global_access_def)

lemma buffer_access_eq:
  assumes res: "memory_resolution (cfg rt) = 2 ^ unat sh" "unat sh \<le> 4"
    and fx: "fix_access_size (2 ^ unat sh) addr sz = (a, sf)"
  shows "buffer_access type addr sz rt =
    foldR (\<lambda>b s. trace_access_drms s type b (ucast (2 ^ unat sh :: u32)) True) (access_addrs (2 ^ unat sh) a sf) rt"
  by (simp add: buffer_access_def res(1) fx buffer_loop_foldR [OF resolution_pos [OF res(2)]])

lemma foldR_idle: "(\<And>x. x \<in> set xs \<Longrightarrow> f x s = Inr s) \<Longrightarrow> foldR f xs s = Inr s"
  by (induction xs) auto

lemma buffer_access_idle:
  assumes "memory_resolution (cfg rt) = 2 ^ unat sh" "unat sh \<le> 4"
    and "current_tdata rt = Some t" "threads rt t = Some td" "stack_depth td = 0 \<or> t_skip td > 0"
  shows "buffer_access type addr sz rt = Inr rt"
proof -
  obtain a sf where fx: "fix_access_size (2 ^ unat sh) addr sz = (a, sf)" by fastforce
  show ?thesis unfolding buffer_access_eq [OF assms(1,2) fx]
    by (rule foldR_idle) (use assms(3-5) in \<open>auto simp: trace_access_drms_def get_td_def\<close>)
qed

lemma buffer_load_eq:
  fixes sh :: u32
  assumes res: "memory_resolution (cfg rt) = 2 ^ unat sh" "unat sh \<le> 4"
    and n: "0 < n" "n < 2 ^ 31 - 16" "unat addr + n \<le> 2 ^ 46"
    and cur: "current_tdata rt = Some t" "threads rt t = Some td"
  shows "buffer_access LOAD addr (int n) rt = trace_access_drms rt LOAD addr (of_nat n) False"
proof (cases "stack_depth td = 0 \<or> t_skip td > 0")
  case True
  then show ?thesis using buffer_access_idle [OF res cur True] cur by (auto simp: trace_access_drms_def get_td_def)
next
  case False
  obtain a sf where fx: "fix_access_size (2 ^ unat sh) addr (int n) = (a, sf)" by fastforce
  note cells = access_cells [OF res(2) n fx]
  let ?as = "access_addrs (2 ^ unat sh) a sf"
  have "buffer_access LOAD addr (int n) rt = foldR (drms_cell LOAD False t) ?as rt"
    unfolding buffer_access_eq [OF res fx]
  proof (rule foldR_cong_inv [where P = "can_trace t (cfg rt)"])
    fix b s assume b: "b \<in> set ?as" and p: "can_trace t (cfg rt) s"
    then obtain tds where "threads s t = Some tds" "t_skip tds = 0" "stack_depth tds \<noteq> 0" "current_tdata s = Some t" "cfg s = cfg rt"
      by (auto simp: can_trace_def)
    with trace_access_one_cell [of s t tds sh b LOAD True] res cells(3) b drms_cell_load_kernel [of True]
    show "trace_access_drms s LOAD b (ucast (2 ^ unat sh :: u32)) True = drms_cell LOAD False t b s" by simp
  next
    show "can_trace t (cfg rt) rt" using cur False by (simp add: can_trace_def word_gt_0)
  qed (rule can_trace_drms_cell)
  then show ?thesis
    using cur False by (simp add: trace_access_drms_def get_td_def res(1) size_arg [OF n(2)] fx
        drms_loop_foldR [OF resolution_pos [OF res(2)]])
qed

end
