(* ===== verification/Renumber.thy ===== *)
theory Renumber
  imports Threads
begin

text \<open>
  The DRMS overflow handler as a whole.  It merges the stacks of all threads from the top, gives every
  activation three times its rank as identifier and compresses the global and the local memories with the
  sorted identifiers: theory LookupTable treats the compression, here the merge is shown to produce the array it
  needs, and the new stacks, memories and counter to fit together.
\<close>

section \<open>The greatest identifier on top of the stacks\<close>

text \<open>\<open>d\<close> is the depth of each stack that is left, \<open>T\<close> the thread in each slot.\<close>

definition top_id :: "(nat \<Rightarrow> ThreadData) \<Rightarrow> (nat \<Rightarrow> u32) \<Rightarrow> nat \<Rightarrow> u32" where
  "top_id T d k = activation_id (stack (T k) (unat (d k) - 1))"

definition top_ptr :: "(nat \<Rightarrow> u32) \<Rightarrow> nat \<Rightarrow> aptr" where
  "top_ptr d k = int (unat (d k) - 1)"

definition stacks_ready :: "Runtime \<Rightarrow> nat list \<Rightarrow> (nat \<Rightarrow> ThreadData) \<Rightarrow> (nat \<Rightarrow> u32) \<Rightarrow> bool" where
  "stacks_ready rt ks T d \<longleftrightarrow>
     (\<forall>k \<in> set ks. threads rt k = Some (T k) \<and> stack_ok (T k) \<and> unat (d k) \<le> unat (stack_depth (T k)))"

text \<open>The activation found is on top of one of the stacks.\<close>

definition top_found :: "(nat \<Rightarrow> ThreadData) \<Rightarrow> (nat \<Rightarrow> u32) \<Rightarrow> nat list \<Rightarrow> nat \<Rightarrow> u32 \<Rightarrow> (nat \<times> nat \<times> aptr) option \<Rightarrow> bool" where
  "top_found T d ks j m am \<longleftrightarrow>
     (\<exists>i < length ks. 0 < d (ks ! i) \<and> m = top_id T d (ks ! i) \<and> am = Some (j + i, ks ! i, top_ptr d (ks ! i)))"

lemma top_found_Nil [simp]: "\<not> top_found T d [] j m am"
  by (simp add: top_found_def)

lemma top_found_Cons [simp]:
  "top_found T d (k # ks) j m am \<longleftrightarrow>
     (0 < d k \<and> m = top_id T d k \<and> am = Some (j, k, top_ptr d k)) \<or> top_found T d ks (j + 1) m am"
  unfolding top_found_def length_Cons Ex_less_Suc2 by simp

lemma drms_find_max_Cons:
  assumes "stacks_ready rt (k # ks) T d"
  shows "drms_find_max rt (k # ks) (map d (k # ks)) j mx am =
    (if 0 < d k \<and> mx < top_id T d k
     then drms_find_max rt ks (map d ks) (j + 1) (top_id T d k) (Some (j, k, top_ptr d k))
     else drms_find_max rt ks (map d ks) (j + 1) mx am)"
proof (cases "0 < d k")
  case True
  then have pos: "0 < unat (d k)" by (simp add: word_less_nat_alt)
  have K: "threads rt k = Some (T k)" "stack_ok (T k)" "unat (d k) \<le> unat (stack_depth (T k))"
    using assms by (simp_all add: stacks_ready_def)
  have a: "get_activation (T k) (d k) = Inr (T k, top_ptr d k)"
    using get_activation_in_stack [OF K(2) pos K(3)] by (simp add: top_ptr_def)
  have b: "get_act (T k) (top_ptr d k) = Inr (stack (T k) (unat (d k) - 1))"
    unfolding top_ptr_def by (rule get_act_in_stack [OF K(2)]) (use pos K(3) in linarith)
  have p: "put_td rt k (T k) = rt" using K(1) by (simp add: put_td_def fun_upd_idem)
  show ?thesis
    using True by (simp add: get_td_def K(1) a b p top_id_def)
qed simp

lemma drms_find_max_ok:
  assumes "stacks_ready rt ks T d"
  shows "\<exists>mx' am'. drms_find_max rt ks (map d ks) j mx am = Inr (rt, mx', am') \<and> mx \<le> mx' \<and>
    (\<forall>k \<in> set ks. 0 < d k \<longrightarrow> top_id T d k \<le> mx') \<and> ((mx', am') = (mx, am) \<or> top_found T d ks j mx' am')"
  using assms
proof (induction ks arbitrary: j mx am)
  case (Cons k ks)
  have r: "stacks_ready rt ks T d" using Cons.prems by (simp add: stacks_ready_def)
  note IH = Cons.IH [OF r] and step = drms_find_max_Cons [OF Cons.prems]
  show ?case
  proof (cases "0 < d k \<and> mx < top_id T d k")
    case True
    from IH [of "j + 1" "top_id T d k" "Some (j, k, top_ptr d k)"] obtain mx' am' where
      "drms_find_max rt ks (map d ks) (j + 1) (top_id T d k) (Some (j, k, top_ptr d k)) = Inr (rt, mx', am')"
      "top_id T d k \<le> mx'" "\<forall>k \<in> set ks. 0 < d k \<longrightarrow> top_id T d k \<le> mx'"
      "(mx', am') = (top_id T d k, Some (j, k, top_ptr d k)) \<or> top_found T d ks (j + 1) mx' am'" by blast
    with True show ?thesis unfolding step by (intro exI [of _ mx'] exI [of _ am']) auto
  next
    case False
    from IH [of "j + 1" mx am] obtain mx' am' where
      "drms_find_max rt ks (map d ks) (j + 1) mx am = Inr (rt, mx', am')"
      "mx \<le> mx'" "\<forall>k \<in> set ks. 0 < d k \<longrightarrow> top_id T d k \<le> mx'"
      "(mx', am') = (mx, am) \<or> top_found T d ks (j + 1) mx' am'" by blast
    with False show ?thesis unfolding step by (intro exI [of _ mx'] exI [of _ am']) auto
  qed
qed simp

section \<open>The merge\<close>

definition open_ids :: "nat list \<Rightarrow> (nat \<Rightarrow> ThreadData) \<Rightarrow> (nat \<Rightarrow> u32) \<Rightarrow> u32 set" where
  "open_ids ks T d = (\<Union>k \<in> set ks. (\<lambda>i. activation_id (stack (T k) i)) ` {..<unat (d k)})"

definition ids_distinct :: "nat list \<Rightarrow> (nat \<Rightarrow> ThreadData) \<Rightarrow> (nat \<Rightarrow> u32) \<Rightarrow> bool" where
  "ids_distinct ks T d \<longleftrightarrow>
     (\<forall>k \<in> set ks. \<forall>i < unat (d k). 0 < activation_id (stack (T k) i) \<and>
        (\<forall>i' < i. activation_id (stack (T k) i') < activation_id (stack (T k) i)) \<and>
        (\<forall>k' \<in> set ks. k' \<noteq> k \<longrightarrow> (\<forall>i' < unat (d k'). activation_id (stack (T k) i) \<noteq> activation_id (stack (T k') i'))))"

definition new_ts :: "u32 set \<Rightarrow> u32 \<Rightarrow> u32" where
  "new_ts A a = of_nat (card {x \<in> A. x \<le> a}) * 3"

definition renumber_drms :: "u32 set \<Rightarrow> nat \<Rightarrow> ThreadData \<Rightarrow> ThreadData" where
  "renumber_drms A n td = td\<lparr>stack := \<lambda>i. if i < n
     then (stack td i)\<lparr>activation_id := new_ts A (activation_id (stack td i))\<rparr> else stack td i\<rparr>"

lemma finite_open_ids [simp]: "finite (open_ids ks T d)"
  by (simp add: open_ids_def)

lemma drms_merge_find:
  assumes r: "stacks_ready rt ks T d" and i: "ids_distinct ks T d" and n: "(\<Sum>k \<leftarrow> ks. unat (d k)) = Suc n"
  shows "\<exists>j. j < length ks \<and> 0 < d (ks ! j) \<and>
    drms_find_max rt ks (map d ks) 0 0 None = Inr (rt, top_id T d (ks ! j), Some (j, ks ! j, top_ptr d (ks ! j))) \<and>
    top_id T d (ks ! j) \<in> open_ids ks T d \<and> (\<forall>x \<in> open_ids ks T d. x \<le> top_id T d (ks ! j))"
proof -
  from drms_find_max_ok [OF r, of 0 0 None] obtain m am where
    F: "drms_find_max rt ks (map d ks) 0 0 None = Inr (rt, m, am)"
      "\<forall>k \<in> set ks. 0 < d k \<longrightarrow> top_id T d k \<le> m" "(m, am) = (0, None) \<or> top_found T d ks 0 m am" by blast
  have "\<exists>k \<in> set ks. 0 < unat (d k)"
  proof (rule ccontr)
    assume "\<not> (\<exists>k \<in> set ks. 0 < unat (d k))"
    then have "map (\<lambda>k. unat (d k)) ks = map (\<lambda>_. 0) ks" by auto
    then have "(\<Sum>k \<leftarrow> ks. unat (d k)) = 0" by (simp only: sum_list_0)
    with n show False by simp
  qed
  then obtain k where k: "k \<in> set ks" "0 < unat (d k)" by blast
  then have kd: "0 < d k" by (simp add: word_less_nat_alt)
  have "0 < top_id T d k" using i k by (simp add: ids_distinct_def top_id_def)
  with F(2) k(1) kd have "m \<noteq> 0" by (auto simp: word_gt_0)
  with F(3) obtain j where j: "j < length ks" "0 < d (ks ! j)" "m = top_id T d (ks ! j)" "am = Some (j, ks ! j, top_ptr d (ks ! j))"
    by (auto simp: top_found_def)
  have "x \<le> m" if x: "x \<in> open_ids ks T d" for x
  proof -
    from x obtain k i' where k: "k \<in> set ks" "i' < unat (d k)" "x = activation_id (stack (T k) i')" by (auto simp: open_ids_def)
    then have "0 < d k" by (simp add: word_less_nat_alt)
    with F(2) k(1) have "top_id T d k \<le> m" by blast
    moreover have "x \<le> top_id T d k"
    proof (cases "i' = unat (d k) - 1")
      case False
      then have "i' < unat (d k) - 1" using k(2) by simp
      then show ?thesis using i k by (simp add: ids_distinct_def top_id_def order.strict_implies_order)
    qed (simp add: top_id_def k(3))
    ultimately show ?thesis by simp
  qed
  moreover have "m \<in> open_ids ks T d"
  proof -
    have "unat (d (ks ! j)) - 1 < unat (d (ks ! j))" using j(2) by (simp add: word_less_nat_alt)
    with j(1,3) show ?thesis unfolding open_ids_def top_id_def by auto
  qed
  ultimately show ?thesis using F(1) j by (intro exI [of _ j]) simp
qed

text \<open>One round: the activation found is the one with the greatest identifier that is left.\<close>

lemma open_ids_pop:
  assumes i: "ids_distinct ks T d" and k: "k \<in> set ks" "0 < d k"
    and T': "\<And>k' i. k' \<noteq> k \<or> i < unat (d k) - 1 \<Longrightarrow> activation_id (stack (T' k') i) = activation_id (stack (T k') i)"
  shows "open_ids ks T' (d(k := d k - 1)) = open_ids ks T d - {top_id T d k}"
    and "ids_distinct ks T' (d(k := d k - 1))"
proof -
  have u: "unat (d k - 1) = unat (d k) - 1" using k(2) by (simp add: unat_sub word_le_nat_alt word_less_nat_alt)
  have p: "0 < unat (d k)" using k(2) by (simp add: word_less_nat_alt)
  have keep: "activation_id (stack (T' k') i) = activation_id (stack (T k') i)" if "i < unat ((d(k := d k - 1)) k')" for k' i
    using that T' by (auto simp: u split: if_splits)
  have less: "i < unat ((d(k := d k - 1)) k') \<Longrightarrow> i < unat (d k')" for k' i by (auto simp: u split: if_splits)
  show "ids_distinct ks T' (d(k := d k - 1))"
    unfolding ids_distinct_def
  proof (intro ballI allI impI conjI)
    fix k1 i1
    assume a: "k1 \<in> set ks" "i1 < unat ((d(k := d k - 1)) k1)"
    note b = a(1) less [OF a(2)]
    show "0 < activation_id (stack (T' k1) i1)" using i b unfolding keep [OF a(2)] ids_distinct_def by blast
    show "activation_id (stack (T' k1) i2) < activation_id (stack (T' k1) i1)" if "i2 < i1" for i2
      using i b that unfolding keep [OF a(2)] keep [OF order.strict_trans [OF that a(2)]] ids_distinct_def by blast
    show "activation_id (stack (T' k1) i1) \<noteq> activation_id (stack (T' k2) i2)"
      if "k2 \<in> set ks" "k2 \<noteq> k1" "i2 < unat ((d(k := d k - 1)) k2)" for k2 i2
      using i b that(1,2) less [OF that(3)] unfolding keep [OF a(2)] keep [OF that(3)] ids_distinct_def by blast
  qed
  have "x \<in> open_ids ks T' (d(k := d k - 1)) \<longleftrightarrow> x \<in> open_ids ks T d \<and> x \<noteq> top_id T d k" for x
  proof
    assume "x \<in> open_ids ks T' (d(k := d k - 1))"
    then obtain k1 i1 where a: "k1 \<in> set ks" "i1 < unat ((d(k := d k - 1)) k1)" "x = activation_id (stack (T k1) i1)"
      by (auto simp: open_ids_def keep simp del: fun_upd_apply)
    have "x \<noteq> top_id T d k"
    proof (cases "k1 = k")
      case True
      then have "i1 < unat (d k) - 1" using a(2) u by simp
      moreover have "unat (d k) - 1 < unat (d k)" using p by simp
      ultimately have "x < top_id T d k" using i k(1) True unfolding a(3) ids_distinct_def top_id_def by blast
      then show ?thesis by simp
    next
      case False
      have "\<forall>k' \<in> set ks. k' \<noteq> k1 \<longrightarrow> (\<forall>i' < unat (d k'). activation_id (stack (T k1) i1) \<noteq> activation_id (stack (T k') i'))"
        using i a(1) less [OF a(2)] unfolding ids_distinct_def by blast
      with k(1) False p show ?thesis by (simp add: a(3) top_id_def)
    qed
    with a(1,3) less [OF a(2)] show "x \<in> open_ids ks T d \<and> x \<noteq> top_id T d k" by (auto simp: open_ids_def)
  next
    assume "x \<in> open_ids ks T d \<and> x \<noteq> top_id T d k"
    then obtain k1 i1 where a: "k1 \<in> set ks" "i1 < unat (d k1)" "x = activation_id (stack (T k1) i1)" "x \<noteq> top_id T d k"
      by (auto simp: open_ids_def)
    then have l: "i1 < unat ((d(k := d k - 1)) k1)"
      by (cases "k1 = k") (auto simp: u top_id_def less_diff_conv nat_less_le)
    have "x = activation_id (stack (T' k1) i1)" unfolding keep [OF l] by (rule a(3))
    with a(1) l show "x \<in> open_ids ks T' (d(k := d k - 1))" unfolding open_ids_def by blast
  qed
  then show "open_ids ks T' (d(k := d k - 1)) = open_ids ks T d - {top_id T d k}" by blast
qed

lemma sorted_list_of_set_Max:
  fixes A :: "'a :: linorder set"
  assumes "finite A" "m \<in> A" "\<forall>x \<in> A. x \<le> m"
  shows "sorted_list_of_set A = sorted_list_of_set (A - {m}) @ [m]"
proof -
  have "sorted (sorted_list_of_set (A - {m}) @ [m])" "distinct (sorted_list_of_set (A - {m}) @ [m])"
    using assms by (auto simp: sorted_append)
  from sorted_list_of_set.idem_if_sorted_distinct [OF this] assms(1,2) show ?thesis
    by (simp add: insert_absorb)
qed

lemma new_ts_below:
  assumes "finite A" "a \<in> A - {m}" "\<forall>x \<in> A. x \<le> m"
  shows "new_ts (A - {m}) a = new_ts A a"
proof -
  have "a < m" using assms(2,3) by (simp add: order.strict_iff_order)
  then have "{x \<in> A - {m}. x \<le> a} = {x \<in> A. x \<le> a}" by auto
  then show ?thesis by (simp add: new_ts_def)
qed

lemma sum_pop:
  assumes "distinct ks" "k \<in> set ks" "0 < d k" "(\<Sum>k \<leftarrow> ks. unat (d k)) = Suc n"
  shows "(\<Sum>k' \<leftarrow> ks. unat ((d(k := d k - 1 :: u32)) k')) = n"
proof -
  have u: "unat (d k - 1) = unat (d k) - 1" using assms(3) by (simp add: unat_sub word_le_nat_alt word_less_nat_alt)
  have p: "0 < unat (d k)" using assms(3) by (simp add: word_less_nat_alt)
  have "(\<Sum>k' \<in> set ks - {k}. unat ((d(k := d k - 1)) k')) = (\<Sum>k' \<in> set ks - {k}. unat (d k'))"
    by (rule sum.cong) auto
  with assms(1,2,4) p u show ?thesis
    by (simp add: sum_list_distinct_conv_sum_set sum.remove [of "set ks" k])
qed

text \<open>The loop over \<open>i\<close>: the identifiers come out sorted, and each activation gets its rank times 3.\<close>

definition renumbered :: "nat list \<Rightarrow> (nat \<Rightarrow> ThreadData) \<Rightarrow> (nat \<Rightarrow> u32) \<Rightarrow> Runtime \<Rightarrow> Runtime" where
  "renumbered ks T d rt = rt\<lparr>threads := \<lambda>k. if k \<in> set ks
     then Some (renumber_drms (open_ids ks T d) (unat (d k)) (T k)) else threads rt k\<rparr>"

lemma renumber_drms_0 [simp]: "renumber_drms A 0 td = td"
  by (simp add: renumber_drms_def)

lemma card_open_ids:
  assumes "stacks_ready rt ks T d" "ids_distinct ks T d" "distinct ks"
  shows "(\<Sum>k \<leftarrow> ks. unat (d k)) = n \<Longrightarrow> card (open_ids ks T d) = n"
  using assms
proof (induction n arbitrary: d)
  case 0
  then show ?case by (auto simp: open_ids_def)
next
  case (Suc n)
  from drms_merge_find [OF Suc.prems(2,3,1)] obtain j where j: "j < length ks" "0 < d (ks ! j)"
    "top_id T d (ks ! j) \<in> open_ids ks T d" by blast
  let ?d = "d(ks ! j := d (ks ! j) - 1)"
  have u: "unat (d (ks ! j) - 1) = unat (d (ks ! j)) - 1" using j(2) by (simp add: unat_sub word_le_nat_alt word_less_nat_alt)
  note P = open_ids_pop [OF Suc.prems(3) nth_mem [OF j(1)] j(2), of T, OF refl]
  have "stacks_ready rt ks T ?d" using Suc.prems(2) u by (fastforce simp: stacks_ready_def)
  from Suc.IH [OF sum_pop [OF Suc.prems(4) nth_mem [OF j(1)] j(2) Suc.prems(1)] this P(2) Suc.prems(4)]
  have "card (open_ids ks T d - {top_id T d (ks ! j)}) = n" unfolding P(1) .
  with j(3) show ?case by (metis card_Suc_Diff1 finite_open_ids)
qed

lemma renumbered_pop:
  assumes i: "ids_distinct ks T d" and k: "k \<in> set ks" "0 < d k" and p: "p = unat (d k) - 1" and m: "m = top_id T d k"
    and A: "A = open_ids ks T d" and top: "\<forall>x \<in> A. x \<le> m"
    and tk: "tk = (T k)\<lparr>stack := (stack (T k))(p := (stack (T k) p)\<lparr>activation_id := of_nat (card A) * 3\<rparr>)\<rparr>"
  shows "open_ids ks (T(k := tk)) (d(k := d k - 1)) = A - {m}"
    and "ids_distinct ks (T(k := tk)) (d(k := d k - 1))"
    and "renumbered ks (T(k := tk)) (d(k := d k - 1)) (put_td rt k tk) = renumbered ks T d rt"
proof -
  let ?T = "T(k := tk)" and ?d = "d(k := d k - 1)"
  have u: "unat (d k - 1) = p" using k(2) by (simp add: p unat_sub word_le_nat_alt word_less_nat_alt)
  have pk: "unat (d k) = Suc p" using k(2) by (simp add: p word_less_nat_alt)
  have T': "activation_id (stack (?T k') i) = activation_id (stack (T k') i)" if "k' \<noteq> k \<or> i < unat (d k) - 1" for k' i
    using that by (auto simp: tk p)
  show P: "open_ids ks ?T ?d = A - {m}" and "ids_distinct ks ?T ?d"
    unfolding m A by (rule open_ids_pop [OF i k], erule T')+
  have "{x \<in> A. x \<le> m} = A" using top by auto
  then have m3: "new_ts A m = of_nat (card A) * 3" by (simp add: new_ts_def)
  have b: "new_ts (A - {m}) (activation_id (stack (T k') i)) = new_ts A (activation_id (stack (T k') i))"
    if "k' \<in> set ks" "i < unat (?d k')" for k' i
  proof (rule new_ts_below [OF _ _ top])
    have e: "activation_id (stack (T k') i) = activation_id (stack (?T k') i)"
    proof (rule T' [symmetric])
      show "k' \<noteq> k \<or> i < unat (d k) - 1" using that(2) u unfolding p [symmetric] by (cases "k' = k") simp_all
    qed
    show "activation_id (stack (T k') i) \<in> A - {m}"
      unfolding e P [symmetric] open_ids_def by (intro UN_I [OF that(1)] imageI) (use that(2) in simp)
  qed (simp add: A)
  have "renumber_drms (A - {m}) (unat (?d k')) (?T k') = renumber_drms A (unat (d k')) (T k')" if "k' \<in> set ks" for k'
  proof (cases "k' = k")
    case True
    have "stack (renumber_drms (A - {m}) p tk) i = stack (renumber_drms A (Suc p) (T k)) i" for i
      using b [OF k(1), of i] m3 by (auto simp: renumber_drms_def u tk less_Suc_eq m top_id_def pk)
    then have "stack (renumber_drms (A - {m}) p tk) = stack (renumber_drms A (Suc p) (T k))" ..
    then show ?thesis unfolding True by (simp add: u pk renumber_drms_def tk)
  next
    case False
    then show ?thesis using b [OF that] by (auto simp: renumber_drms_def fun_eq_iff)
  qed
  then show "renumbered ks ?T ?d (put_td rt k tk) = renumbered ks T d rt"
    by (auto simp: renumbered_def P A [symmetric] put_td_def fun_eq_iff k(1))
qed

lemma drms_merge_ok:
  assumes "stacks_ready rt ks T d" "ids_distinct ks T d" "distinct ks" "(\<Sum>k \<leftarrow> ks. unat (d k)) = n"
  shows "drms_merge rt ks (map d ks) n active =
    Inr (renumbered ks T d rt, sorted_list_of_set (open_ids ks T d) @ active)"
  using assms
proof (induction n arbitrary: rt T d active)
  case 0
  then have z: "unat (d k) = 0" if "k \<in> set ks" for k using that by simp
  then have "renumbered ks T d rt = rt" using 0(1)
    by (cases rt) (auto simp: renumbered_def stacks_ready_def fun_eq_iff)
  moreover have "open_ids ks T d = {}" using z by (auto simp: open_ids_def)
  ultimately show ?case by simp
next
  case (Suc n)
  from drms_merge_find [OF Suc.prems(1,2,4)] obtain j where j: "j < length ks" "0 < d (ks ! j)"
    "drms_find_max rt ks (map d ks) 0 0 None = Inr (rt, top_id T d (ks ! j), Some (j, ks ! j, top_ptr d (ks ! j)))"
    "top_id T d (ks ! j) \<in> open_ids ks T d" "\<forall>x \<in> open_ids ks T d. x \<le> top_id T d (ks ! j)" by blast
  define k where "k = ks ! j"
  define m where "m = top_id T d k"
  define p where "p = unat (d k) - 1"
  define A where "A = open_ids ks T d"
  define tk where "tk = (T k)\<lparr>stack := (stack (T k))(p := (stack (T k) p)\<lparr>activation_id := of_nat (card A) * 3\<rparr>)\<rparr>"
  let ?T = "T(k := tk)" and ?d = "d(k := d k - 1)"
  note J = j [folded k_def, folded m_def A_def]
  have ks: "k \<in> set ks" using j(1) by (simp add: k_def)
  note P = renumbered_pop [OF Suc.prems(2) ks J(2) p_def m_def A_def J(5) tk_def]
  have cA: "card A = Suc n" unfolding A_def by (rule card_open_ids [OF Suc.prems(1-4)])
  have K: "threads rt k = Some (T k)" "stack_ok (T k)" "unat (d k) \<le> unat (stack_depth (T k))"
    using Suc.prems(1) ks by (simp_all add: stacks_ready_def)
  have a: "get_act (T k) (top_ptr d k) = Inr (stack (T k) p)"
    unfolding top_ptr_def p_def [symmetric]
    by (rule get_act_in_stack [OF K(2)]) (use K(3) J(2) in \<open>simp add: p_def word_less_nat_alt\<close>)
  have s: "set_act (T k) (top_ptr d k) ((stack (T k) p)\<lparr>activation_id := of_nat (Suc n) * 3\<rparr>) = tk"
    by (simp add: set_act_def tk_def top_ptr_def p_def cA)
  have dl: "(map d ks)[j := map d ks ! j - 1] = map ?d ks"
    using J(1) Suc.prems(3) by (auto simp: list_eq_iff_nth_eq nth_list_update k_def nth_eq_iff_index_eq)
  have "unat (d k - 1) = unat (d k) - 1" using J(2) by (simp add: unat_sub word_le_nat_alt word_less_nat_alt)
  then have R: "stacks_ready (put_td rt k tk) ks ?T ?d"
    using Suc.prems(1) by (fastforce simp: stacks_ready_def put_td_def tk_def)
  have "drms_merge rt ks (map d ks) (Suc n) active = drms_merge (put_td rt k tk) ks (map ?d ks) n (m # active)"
    by (simp add: J(3) get_td_def K(1) a s dl del: of_nat_Suc)
  also have "\<dots> = Inr (renumbered ks T d rt, sorted_list_of_set (A - {m}) @ m # active)"
    using Suc.IH [OF R P(2) Suc.prems(3) sum_pop [OF Suc.prems(3) ks J(2) Suc.prems(4)], of "m # active"] unfolding P(1,3) .
  also have "sorted_list_of_set (A - {m}) @ m # active = sorted_list_of_set A @ active"
    using sorted_list_of_set_Max [OF _ J(4,5)] by (simp add: A_def)
  finally show ?case by (simp add: A_def)
qed

section \<open>New timestamps\<close>

lemma sorted_rank:
  fixes L :: "u32 list"
  assumes "sorted_wrt (<) L" "q < length L"
  shows "card {y \<in> set L. y \<le> L ! q} = Suc q"
proof -
  have "y \<le> L ! q \<longleftrightarrow> i \<le> q" if "i < length L" "y = L ! i" for i y
    using sorted_wrt_nth_less [OF assms(1), of i q] sorted_wrt_nth_less [OF assms(1), of q i] assms(2) that
    by (cases "i = q"; cases "i < q") auto
  note le = this
  have "{y \<in> set L. y \<le> L ! q} = (!) L ` {..q}"
  proof (intro equalityI subsetI)
    fix y
    assume "y \<in> {y \<in> set L. y \<le> L ! q}"
    then obtain i where "i < length L" "y = L ! i" "y \<le> L ! q" by (auto simp: in_set_conv_nth)
    with le [of i y] show "y \<in> (!) L ` {..q}" by auto
  next
    fix y
    assume "y \<in> (!) L ` {..q}"
    then obtain i where "i \<le> q" "y = L ! i" by auto
    with le [of i y] assms(2) show "y \<in> {y \<in> set L. y \<le> L ! q}" by auto
  qed
  moreover have "inj_on ((!) L) {..q}"
    using assms by (intro inj_on_nth) (auto simp: strict_sorted_iff)
  ultimately show ?thesis by (simp add: card_image)
qed

text \<open>The array given to the compression: the new timestamp of an identifier is three times its index.\<close>

lemma new_ts_index:
  assumes "finite A" "x \<in> A"
  shows "\<exists>i. 0 < i \<and> i < length (0 # sorted_list_of_set A) \<and> (0 # sorted_list_of_set A) ! i = x \<and> new_ts A x = 3 * of_nat i"
proof -
  let ?L = "sorted_list_of_set A"
  from assms obtain q where q: "q < length ?L" "?L ! q = x" by (metis in_set_conv_nth set_sorted_list_of_set)
  have "card {y \<in> set ?L. y \<le> ?L ! q} = Suc q"
    by (rule sorted_rank [OF _ q(1)]) simp
  with assms(1) q(2) have "new_ts A x = of_nat (Suc q) * 3" by (simp add: new_ts_def)
  with q show ?thesis by (intro exI [of _ "Suc q"]) (simp add: mult.commute)
qed

lemma active_array_ids:
  assumes "finite A" "0 \<notin> A" "card A < 2 ^ 28" "unat sz = Suc (card A)"
  shows "active_array (0 # sorted_list_of_set A) sz"
proof -
  have "sorted_wrt (<) (0 # sorted_list_of_set A)"
    using assms(1,2) by (auto simp: word_gt_0)
  then show ?thesis using assms(3,4) by (simp add: active_array_def)
qed

lemma new_ts_less:
  assumes "finite A" "x \<in> A" "y \<in> A" "card A < 2 ^ 28"
  shows "new_ts A x < new_ts A y \<longleftrightarrow> x < y" "new_ts A x = new_ts A y \<longleftrightarrow> x = y" "0 < new_ts A x"
    "unat (new_ts A x) \<le> 3 * card A"
proof -
  have u: "unat (new_ts A x) = 3 * card {z \<in> A. z \<le> x}" for x
  proof -
    have "card {z \<in> A. z \<le> x} \<le> card A" using assms(1) by (intro card_mono) auto
    with assms(4) unat_small_mult3 [of "card {z \<in> A. z \<le> x}" 0] show ?thesis
      by (simp add: new_ts_def mult.commute)
  qed
  have mono: "card {z \<in> A. z \<le> x} < card {z \<in> A. z \<le> y}" if "x < y" "y \<in> A" for x y
  proof (rule psubset_card_mono)
    have "y \<in> {z \<in> A. z \<le> y}" "y \<notin> {z \<in> A. z \<le> x}" "{z \<in> A. z \<le> x} \<subseteq> {z \<in> A. z \<le> y}" using that by auto
    then show "{z \<in> A. z \<le> x} \<subset> {z \<in> A. z \<le> y}" by blast
  qed (use assms(1) in simp)
  have pos: "0 < card {z \<in> A. z \<le> x}" using assms(1,2) by (auto simp: card_gt_0_iff)
  show "0 < new_ts A x" using pos by (simp add: word_less_nat_alt u)
  show "unat (new_ts A x) \<le> 3 * card A"
    unfolding u using assms(1) by (intro mult_le_mono2 card_mono) auto
  show l: "new_ts A x < new_ts A y \<longleftrightarrow> x < y"
    using mono [of x y] mono [of y x] assms(2,3) unfolding word_less_nat_alt [of "new_ts A x"] u
    by (cases x y rule: linorder_cases) auto
  show "new_ts A x = new_ts A y \<longleftrightarrow> x = y"
    using mono [of x y] mono [of y x] assms(2,3) unfolding word_unat_eq_iff [of "new_ts A x"] u
    by (cases x y rule: linorder_cases) auto
qed

section \<open>What the compression leaves\<close>

lemma mapR_set: "mapR f xs = Inr ys \<Longrightarrow> y \<in> set ys \<Longrightarrow> \<exists>x \<in> set xs. f x = Inr y"
  by (induction xs arbitrary: ys) (auto simp: bindR_eq_Inr)

lemma compress_drms_cell_bound:
  assumes act: "active_array array sz" and r: "compress_drms_cell array sz g ls = Inr (g', ls')"
  shows "Some v \<in> set ls' \<Longrightarrow> unat v < 3 * length array" and "g' = Some v \<Longrightarrow> unat (TS v) < 3 * length array"
proof -
  from drms_global_ts_ok [OF act, of g] obtain t where
    t: "drms_global_ts array sz g = Inr (global_ts g, of_nat t)" "greatest_le array (length array) (global_ts g) t" by blast
  have G: "g' = map_option (drms_global (of_nat t)) g"
    and L: "mapR (\<lambda>l. case l of None \<Rightarrow> Inr None
      | Some v \<Rightarrow> bindR (drms_local array sz (global_ts g) (of_nat t) v) (\<lambda>v'. Inr (Some v'))) ls = Inr ls'"
    using r by (auto simp: compress_drms_cell_def t(1) bindR_eq_Inr)
  show "unat v < 3 * length array" if "Some v \<in> set ls'"
  proof -
    from mapR_set [OF L that] obtain l where "drms_local array sz (global_ts g) (of_nat t) l = Inr v"
      by (auto simp: bindR_eq_Inr split: option.splits)
    moreover from drms_local_ok [OF act t(2), of l] obtain q d where
      "drms_local array sz (global_ts g) (of_nat t) l = Inr (3 * of_nat q + of_nat d)"
      "greatest_le array (length array) l q" "d \<le> 2" by blast
    ultimately show ?thesis
      using drms_new_order(1) [OF act, of l q d] by (auto simp: greatest_le_def)
  qed
  show "unat (TS v) < 3 * length array" if "g' = Some v"
  proof -
    have "unat (3 * of_nat t + 1 :: u32) = 3 * t + 1" "3 * t + 1 < 2 ^ 31"
      using drms_new_order(1,2) [OF act t(2), of 1] by simp_all
    then show ?thesis
      using that t(2) SYSCALL_small [of "3 * of_nat t + 1"] by (auto simp: G drms_global_def greatest_le_def)
  qed
qed

lemma store_memories_other: "k \<notin> set ks \<Longrightarrow> store_memories ths ks ms k = ths k"
  by (induction ks ms arbitrary: ths rule: list_induct2') auto

lemma store_memories_nth:
  assumes "distinct ks" "length ms = length ks" "j < length ks"
  shows "store_memories ths ks ms (ks ! j) = map_option (\<lambda>td. td\<lparr>shadow_memory := ms ! j\<rparr>) (ths (ks ! j))"
  using assms
proof (induction ks ms arbitrary: ths j rule: list_induct2')
  case (4 k' ks m ms)
  show ?case
  proof (cases j)
    case 0
    then show ?thesis using 4(2) by (simp add: store_memories_other)
  next
    case (Suc j')
    with 4(2-) have "ks ! j' \<noteq> k'" by (auto dest: nth_mem)
    with Suc 4 show ?thesis by simp
  qed
qed auto

lemma unat_sum_list:
  "(\<Sum>k \<leftarrow> ks. unat (d k)) < 2 ^ 32 \<Longrightarrow> unat (\<Sum>k \<leftarrow> ks. (d k :: u32)) = (\<Sum>k \<leftarrow> ks. unat (d k))"
  by (induction ks) (auto simp: unat_add_lem [THEN iffD1])

section \<open>The DRMS handler\<close>

text \<open>The timestamp an address reads as; the identifiers on a stack.\<close>

definition cell_ts :: "LookupTable \<Rightarrow> u64 \<Rightarrow> u32" where
  "cell_ts lk a = (case LK_at lk a of None \<Rightarrow> 0 | Some v \<Rightarrow> v)"

definition act_ids :: "ThreadData \<Rightarrow> u32 set" where
  "act_ids td = (\<lambda>i. activation_id (stack td i)) ` {..<unat (stack_depth td)}"

text \<open>What the handler relies on: identifiers positive, increasing up each stack and different in different
  threads; every slot counted in \<open>running_threads\<close>.\<close>

definition drms_thread_ok :: "LookupTable \<Rightarrow> ThreadData \<Rightarrow> bool" where
  "drms_thread_ok g td \<longleftrightarrow> stack_ok td \<and> lk_inv (shadow_memory td) \<and> res_shift (shadow_memory td) = res_shift g \<and>
     (\<forall>i < unat (stack_depth td). 0 < activation_id (stack td i) \<and>
        (\<forall>j < i. activation_id (stack td j) < activation_id (stack td i)))"

definition slots_apart :: "Runtime \<Rightarrow> bool" where
  "slots_apart rt \<longleftrightarrow> unat (running_threads rt) = card {t. threads rt t \<noteq> None} \<and>
     (\<forall>t. threads rt t \<noteq> None \<longrightarrow> t < VG_N_THREADS) \<and>
     (\<forall>t t' td td'. threads rt t = Some td \<longrightarrow> threads rt t' = Some td' \<longrightarrow> t \<noteq> t' \<longrightarrow> act_ids td \<inter> act_ids td' = {})"

definition drms_threads_ok :: "Runtime \<Rightarrow> LookupTable \<Rightarrow> bool" where
  "drms_threads_ok rt g \<longleftrightarrow> global_shadow_memory rt = Some g \<and> lk_inv g \<and> slots_apart rt \<and>
     (\<forall>t td. threads rt t = Some td \<longrightarrow> drms_thread_ok g td)"

text \<open>What it keeps of a thread: how each activation compares with each cell, and each allocated cell with the
  global memory.\<close>

definition drms_kept :: "u32 \<Rightarrow> LookupTable \<Rightarrow> ThreadData \<Rightarrow> LookupTable \<Rightarrow> ThreadData \<Rightarrow> bool" where
  "drms_kept n g td g' td' \<longleftrightarrow> stack_depth td' = stack_depth td \<and>
     (\<forall>i < unat (stack_depth td). activation_id (stack td' i) < n \<and>
        (\<forall>a. activation_id (stack td' i) \<le> cell_ts (shadow_memory td') a \<longleftrightarrow>
             activation_id (stack td i) \<le> cell_ts (shadow_memory td) a)) \<and>
     (\<forall>a. cell_ts (shadow_memory td') a < n \<and>
        (LK_at (shadow_memory td) a \<noteq> None \<longrightarrow>
          (cell_ts (shadow_memory td') a < global_ts (LK_at g' a) \<longleftrightarrow> cell_ts (shadow_memory td) a < global_ts (LK_at g a))))"

lemma slots_apart_same_slots:
  assumes "slots_apart rt" "\<And>t. threads rt' t = None \<longleftrightarrow> threads rt t = None" "running_threads rt' = running_threads rt"
    and "\<And>t t' td td'. threads rt' t = Some td \<Longrightarrow> threads rt' t' = Some td' \<Longrightarrow> t \<noteq> t' \<Longrightarrow> act_ids td \<inter> act_ids td' = {}"
  shows "slots_apart rt'"
  unfolding slots_apart_def assms(2,3) using assms(1,4) unfolding slots_apart_def by blast

text \<open>Steps that keep the threads apart: one thread goes on, and its new identifiers are above all others; or
  another slot is used.\<close>

lemma slots_apart_thread:
  assumes "slots_apart rt" "threads rt t = Some td" "threads rt' = (threads rt)(t := Some td')"
    and "running_threads rt' = running_threads rt"
    and n: "\<And>s tds x. threads rt s = Some tds \<Longrightarrow> x \<in> act_ids tds \<Longrightarrow> x \<le> n"
    and new: "\<And>x. x \<in> act_ids td' \<Longrightarrow> x \<in> act_ids td \<or> n < x"
  shows "slots_apart rt'"
proof (rule slots_apart_same_slots [OF assms(1) _ assms(4)])
  show "threads rt' s = None \<longleftrightarrow> threads rt s = None" for s using assms(2) by (simp add: assms(3))
  have old: "act_ids td \<inter> act_ids tds = {}" "\<And>x. x \<in> act_ids tds \<Longrightarrow> x \<le> n" if "threads rt s = Some tds" "s \<noteq> t" for s tds
    using assms(1,2) that n unfolding slots_apart_def by blast+
  have new': "act_ids td' \<inter> act_ids tds = {}" if "threads rt s = Some tds" "s \<noteq> t" for s tds
    using old [OF that] new by (meson disjoint_iff leD)
  fix s1 s2 td1 td2
  assume "threads rt' s1 = Some td1" "threads rt' s2 = Some td2" "s1 \<noteq> s2"
  with new' [of s1 td1] new' [of s2 td2] assms(1) show "act_ids td1 \<inter> act_ids td2 = {}"
    unfolding assms(3) slots_apart_def by (auto split: if_splits)
qed

lemma slots_apart_switch:
  assumes "slots_apart rt" "t < VG_N_THREADS" "threads rt' t = Some td" "threads rt t = None \<longrightarrow> act_ids td = {}"
    and "\<forall>s tds. threads rt s = Some tds \<longrightarrow> (\<exists>td'. threads rt' s = Some td' \<and> act_ids td' = act_ids tds)"
    and "\<forall>s. threads rt s = None \<longrightarrow> s \<noteq> t \<longrightarrow> threads rt' s = None"
    and "running_threads rt' = running_threads rt + (if threads rt t = None then 1 else 0)"
  shows "slots_apart rt'"
proof -
  let ?D = "{s. threads rt s \<noteq> None}"
  have D: "{s. threads rt' s \<noteq> None} = insert t ?D"
  proof (rule set_eqI)
    fix s
    show "s \<in> {s. threads rt' s \<noteq> None} \<longleftrightarrow> s \<in> insert t ?D"
      using assms(3,5,6) by (cases "threads rt s"; cases "s = t") fastforce+
  qed
  have "?D \<subseteq> {..<VG_N_THREADS}" using assms(1) by (auto simp: slots_apart_def)
  then have fin: "finite ?D" "card ?D \<le> VG_N_THREADS" using finite_subset card_mono [of "{..<VG_N_THREADS}" ?D] by auto
  have r: "unat (running_threads rt) = card ?D" using assms(1) by (simp add: slots_apart_def)
  have "unat (running_threads rt') = card (insert t ?D)"
  proof (cases "threads rt t = None")
    case True
    have "unat (running_threads rt + 1) = Suc (card ?D)" using r fin(2) by (simp add: unat_word_ariths VG_N_THREADS_def)
    with True fin(1) assms(7) show ?thesis by simp
  next
    case False
    then have "insert t ?D = ?D" "running_threads rt' = running_threads rt" using assms(7) by auto
    with r show ?thesis by simp
  qed
  moreover have ids: "\<exists>tds. (threads rt s = Some tds \<and> act_ids td1 = act_ids tds) \<or> act_ids td1 = {}"
    if "threads rt' s = Some td1" for s td1
  proof (cases "threads rt s")
    case None
    with assms(6) that have "s = t" by (metis option.distinct(1))
    with None that assms(3,4) show ?thesis by simp
  next
    case (Some tds)
    with assms(5) that show ?thesis by fastforce
  qed
  moreover have "act_ids td1 \<inter> act_ids td2 = {}"
    if a: "threads rt' s1 = Some td1" "threads rt' s2 = Some td2" "s1 \<noteq> s2" for s1 s2 td1 td2
    using ids [OF a(1)] ids [OF a(2)] assms(1) a(3) unfolding slots_apart_def by blast
  moreover have "s < VG_N_THREADS" if "threads rt' s \<noteq> None" for s
  proof -
    from that D have "s \<in> insert t ?D" by blast
    then show ?thesis using assms(1,2) by (auto simp: slots_apart_def)
  qed
  ultimately show ?thesis unfolding slots_apart_def D by blast
qed

lemma slots_apart_empty: "threads rt = (\<lambda>_. None) \<Longrightarrow> running_threads rt = 0 \<Longrightarrow> slots_apart rt"
  by (simp add: slots_apart_def)

lemma live_slots_all:
  assumes "drms_threads_ok rt g"
  shows "set (live_slots rt) = {t. threads rt t \<noteq> None}" "distinct (live_slots rt)"
    "length (live_slots rt) = unat (running_threads rt)" "length (live_slots rt) \<le> 500"
proof -
  let ?f = "filter (\<lambda>j. threads rt j \<noteq> None) [0..<VG_N_THREADS]"
  have "\<forall>t. threads rt t \<noteq> None \<longrightarrow> t < VG_N_THREADS" "unat (running_threads rt) = card {t. threads rt t \<noteq> None}"
    using assms by (auto simp: drms_threads_ok_def slots_apart_def)
  note a = this
  have s: "set ?f = {t. threads rt t \<noteq> None}" using a(1) by auto
  have "length ?f = unat (running_threads rt)"
    unfolding a(2) s [symmetric] by (rule distinct_card [symmetric]) simp
  moreover from this have t: "live_slots rt = ?f" by (simp add: live_slots_def)
  ultimately show "set (live_slots rt) = {t. threads rt t \<noteq> None}" "distinct (live_slots rt)"
    "length (live_slots rt) = unat (running_threads rt)" using s by simp_all
  have "length ?f \<le> length [0..<VG_N_THREADS]" by (rule length_filter_le)
  then show "length (live_slots rt) \<le> 500" unfolding t by (simp add: VG_N_THREADS_def)
qed

lemma mapR_get_td: "(\<And>k. k \<in> set ks \<Longrightarrow> threads rt k = Some (T k)) \<Longrightarrow> mapR (get_td rt) ks = Inr (map T ks)"
  by (induction ks) (simp_all add: get_td_def)

lemma drms_ready:
  assumes ok: "drms_threads_ok rt g"
    and T: "T = (\<lambda>k. the (threads rt k))" and d: "d = (\<lambda>k. stack_depth (T k))" and ks: "ks = live_slots rt"
  shows "stacks_ready rt ks T d" "ids_distinct ks T d" "(\<Sum>k \<leftarrow> ks. unat (d k)) \<le> 8192000"
proof -
  note L = live_slots_all [OF ok, folded ks]
  have K: "threads rt k = Some (T k)" "drms_thread_ok g (T k)" if "k \<in> set ks" for k
    using that L(1) ok by (auto simp: T drms_threads_ok_def slots_apart_def)
  then show "stacks_ready rt ks T d" by (simp add: stacks_ready_def d drms_thread_ok_def)
  show "ids_distinct ks T d"
    unfolding ids_distinct_def
  proof (intro ballI allI impI conjI)
    fix k i
    assume a: "k \<in> set ks" "i < unat (d k)"
    then show "0 < activation_id (stack (T k) i)" using K(2) by (simp add: drms_thread_ok_def d)
    show "activation_id (stack (T k) i') < activation_id (stack (T k) i)" if "i' < i" for i'
      using K(2) [OF a(1)] a(2) that by (simp add: drms_thread_ok_def d)
    show "activation_id (stack (T k) i) \<noteq> activation_id (stack (T k') i')"
      if b: "k' \<in> set ks" "k' \<noteq> k" "i' < unat (d k')" for k' i'
    proof -
      have "act_ids (T k) \<inter> act_ids (T k') = {}"
        using ok K(1) [OF a(1)] K(1) [OF b(1)] b(2) unfolding drms_threads_ok_def slots_apart_def by blast
      moreover have "activation_id (stack (T k) i) \<in> act_ids (T k)" "activation_id (stack (T k') i') \<in> act_ids (T k')"
        using a(2) b(3) by (auto simp: act_ids_def d)
      ultimately show ?thesis by auto
    qed
  qed
  have "(\<Sum>k \<leftarrow> ks. unat (d k)) \<le> (\<Sum>k \<leftarrow> ks. 16384)"
    using K(2) by (intro sum_list_mono) (fastforce simp: drms_thread_ok_def stack_ok_def d)
  also have "\<dots> \<le> 8192000" using L(4) by (simp add: sum_list_triv)
  finally show "(\<Sum>k \<leftarrow> ks. unat (d k)) \<le> 8192000" .
qed

lemma overflow_handler_drms_eq:
  assumes ok: "drms_threads_ok rt g" and T: "T = (\<lambda>k. the (threads rt k))" and d: "d = (\<lambda>k. stack_depth (T k))"
    and ks: "ks = live_slots rt" and A: "A = open_ids ks T d"
  obtains sz g' ls' where "unat sz = Suc (card A)" "card A \<le> 8192000" "active_array (0 # sorted_list_of_set A) sz"
    "LK_compress_drms (0 # sorted_list_of_set A) sz g (map (\<lambda>k. shadow_memory (T k)) ks) = Inr (g', ls')"
    "lk_inv g'" "res_shift g' = res_shift g" "length ls' = length ks"
    "\<forall>t < length ks. lk_inv (ls' ! t) \<and> res_shift (ls' ! t) = res_shift g"
    "\<And>a. compress_drms_cell (0 # sorted_list_of_set A) sz (LK_at g a) (map (\<lambda>k. LK_at (shadow_memory (T k)) a) ks) =
      Inr (LK_at g' a, map (\<lambda>l. LK_at l a) ls')"
    "overflow_handler_drms rt = Inr ((renumbered ks T d rt)\<lparr>global_shadow_memory := Some g',
       threads := store_memories (threads (renumbered ks T d rt)) ks ls'\<rparr>, 3 * (sz + 1))"
proof -
  note L = live_slots_all [OF ok, folded ks] and R = drms_ready [OF ok T d ks]
  have K: "threads rt k = Some (T k)" "drms_thread_ok g (T k)" if "k \<in> set ks" for k
    using that L(1) ok by (auto simp: T drms_threads_ok_def slots_apart_def)
  have G: "global_shadow_memory rt = Some g" "lk_inv g" using ok by (simp_all add: drms_threads_ok_def slots_apart_def)
  have cA: "card A = (\<Sum>k \<leftarrow> ks. unat (d k))" unfolding A by (rule card_open_ids [OF R(1,2) L(2) refl])
  define sz where "sz = (\<Sum>k \<leftarrow> ks. d k) + 1"
  have u: "unat (\<Sum>k \<leftarrow> ks. d k) = card A" unfolding cA by (rule unat_sum_list) (use R(3) in simp)
  have s: "unat sz = Suc (card A)" using u R(3) cA by (simp add: sz_def unat_word_ariths)
  have "0 \<notin> A" using R(2) by (fastforce simp: A open_ids_def ids_distinct_def)
  then have act: "active_array (0 # sorted_list_of_set A) sz"
    by (intro active_array_ids) (use R(3) cA s in \<open>simp_all add: A\<close>)
  from LK_compress_drms_ok [OF act G(2), of "map (\<lambda>k. shadow_memory (T k)) ks"] K(2) obtain g' ls' where C:
    "LK_compress_drms (0 # sorted_list_of_set A) sz g (map (\<lambda>k. shadow_memory (T k)) ks) = Inr (g', ls')"
    "lk_inv g'" "res_shift g' = res_shift g" "length ls' = length ks"
    "\<forall>t < length ks. lk_inv (ls' ! t) \<and> res_shift (ls' ! t) = res_shift g"
    "\<And>a. compress_drms_cell (0 # sorted_list_of_set A) sz (LK_at g a) (map (\<lambda>k. LK_at (shadow_memory (T k)) a) ks) =
      Inr (LK_at g' a, map (\<lambda>l. LK_at l a) ls')"
    by (auto simp: drms_thread_ok_def comp_def)
  have m: "map (stack_depth \<circ> T) ks = map d ks" "map (shadow_memory \<circ> T) ks = map (\<lambda>k. shadow_memory (T k)) ks"
    by (simp_all add: d comp_def)
  have "mapR (get_td rt) ks = Inr (map T ks)" by (rule mapR_get_td) (rule K(1))
  moreover have "drms_merge rt ks (map d ks) (unat (sz - 1)) [] = Inr (renumbered ks T d rt, sorted_list_of_set A)"
    using drms_merge_ok [OF R(1,2) L(2), of "card A" "[]"] cA u by (simp add: sz_def A)
  moreover have "global_shadow_memory (renumbered ks T d rt) = Some g" by (simp add: renumbered_def G(1))
  ultimately have "overflow_handler_drms rt = Inr ((renumbered ks T d rt)\<lparr>global_shadow_memory := Some g',
       threads := store_memories (threads (renumbered ks T d rt)) ks ls'\<rparr>, 3 * (sz + 1))"
    using L(3) C(1) unfolding overflow_handler_drms_def Let_def ks [symmetric] by (simp add: m sz_def)
  with s R(3) cA act C show thesis by (intro that) simp_all
qed

text \<open>One thread: its stack is renumbered and its memory replaced.\<close>

definition new_thread :: "u32 set \<Rightarrow> ThreadData \<Rightarrow> LookupTable \<Rightarrow> ThreadData" where
  "new_thread A td l' = (renumber_drms A (unat (stack_depth td)) td)\<lparr>shadow_memory := l'\<rparr>"

lemma new_thread_fields [simp]:
  "stack_depth (new_thread A td l') = stack_depth td" "shadow_memory (new_thread A td l') = l'"
  "stack_ok (new_thread A td l') = stack_ok td"
  "i < unat (stack_depth td) \<Longrightarrow> activation_id (stack (new_thread A td l') i) = new_ts A (activation_id (stack td i))"
  by (simp_all add: new_thread_def renumber_drms_def stack_ok_def)

lemma act_idsI: "i < unat (stack_depth td) \<Longrightarrow> activation_id (stack td i) \<in> act_ids td"
  by (simp add: act_ids_def)

lemma act_ids_new_thread: "act_ids (new_thread A td l') = new_ts A ` act_ids td"
  by (auto simp: act_ids_def image_image)

lemma new_thread_ok:
  assumes "drms_thread_ok g td" "finite A" "card A < 2 ^ 28" "act_ids td \<subseteq> A"
    and "lk_inv l'" "res_shift l' = res_shift g" "res_shift g' = res_shift g"
  shows "drms_thread_ok g' (new_thread A td l')"
proof -
  have "0 < new_ts A (activation_id (stack td i)) \<and>
      (\<forall>j < i. new_ts A (activation_id (stack td j)) < new_ts A (activation_id (stack td i)))"
    if i: "i < unat (stack_depth td)" for i
  proof -
    have m: "activation_id (stack td j) \<in> A" if "j \<le> i" for j
      using act_idsI [of j td] that i assms(4) by auto
    have "activation_id (stack td j) < activation_id (stack td i)" if "j < i" for j
      using assms(1) i that by (simp add: drms_thread_ok_def)
    moreover have "0 < new_ts A (activation_id (stack td i))" using new_ts_less(3) [OF assms(2) m m assms(3), of i i] by simp
    ultimately show ?thesis using new_ts_less(1) [OF assms(2) m m assms(3)] by simp
  qed
  with assms(1,5-7) show ?thesis by (simp add: drms_thread_ok_def)
qed

lemma new_thread_kept:
  assumes td: "drms_thread_ok g td" and A: "finite A" "card A < 2 ^ 28" "act_ids td \<subseteq> A" and n: "unat n = 3 * (card A + 2)"
    and rel: "\<And>a. drms_local_rel (0 # sorted_list_of_set A) (LK_at g a) (LK_at g' a) (LK_at (shadow_memory td) a) (LK_at l' a)"
    and bound: "\<And>a v. LK_at l' a = Some v \<Longrightarrow> unat v < 3 * Suc (card A)"
  shows "drms_kept n g td g' (new_thread A td l')"
  unfolding drms_kept_def
proof (intro conjI allI impI)
  fix a
  show "cell_ts (shadow_memory (new_thread A td l')) a < n"
    using bound [of a] n by (cases "LK_at l' a") (fastforce simp: cell_ts_def word_less_nat_alt)+
  show "cell_ts (shadow_memory (new_thread A td l')) a < global_ts (LK_at g' a) \<longleftrightarrow>
      cell_ts (shadow_memory td) a < global_ts (LK_at g a)" if "LK_at (shadow_memory td) a \<noteq> None"
    using rel [of a] that by (auto simp: drms_local_rel_def drms_order_def cell_ts_def)
  fix i
  assume i: "i < unat (stack_depth td)"
  have m: "activation_id (stack td i) \<in> A" using act_idsI [OF i] A(3) by auto
  note new = new_ts_less(3,4) [OF A(1) m m A(2)]
  show "activation_id (stack (new_thread A td l') i) < n" using new(2) i n by (simp add: word_less_nat_alt)
  from new_ts_index [OF A(1) m] obtain q where q: "q < length (0 # sorted_list_of_set A)"
    "(0 # sorted_list_of_set A) ! q = activation_id (stack td i)" "new_ts A (activation_id (stack td i)) = 3 * of_nat q" by blast
  have "0 < activation_id (stack td i)" using td i by (simp add: drms_thread_ok_def)
  with new(1) i rel [of a] q show "activation_id (stack (new_thread A td l') i) \<le> cell_ts (shadow_memory (new_thread A td l')) a \<longleftrightarrow>
      activation_id (stack td i) \<le> cell_ts (shadow_memory td) a"
    by (auto simp: drms_local_rel_def drms_order_def cell_ts_def not_le split: option.splits)
qed (simp add: new_thread_def renumber_drms_def)

text \<open>The threads afterwards.\<close>

lemma renumbered_threads:
  assumes ok: "drms_threads_ok rt g" and T: "T = (\<lambda>k. the (threads rt k))" and d: "d = (\<lambda>k. stack_depth (T k))"
    and ks: "ks = live_slots rt" and A: "A = open_ids ks T d" and len: "length ls' = length ks"
    and rt': "rt' = (renumbered ks T d rt)\<lparr>global_shadow_memory := Some g',
       threads := store_memories (threads (renumbered ks T d rt)) ks ls'\<rparr>"
  shows "threads rt t = Some td \<Longrightarrow> \<exists>j < length ks. td = T (ks ! j) \<and> act_ids td \<subseteq> A \<and> drms_thread_ok g td \<and>
      threads rt' t = Some (new_thread A td (ls' ! j))"
    and "threads rt t = None \<Longrightarrow> threads rt' t = None"
proof -
  note L = live_slots_all [OF ok, folded ks]
  show "threads rt' t = None" if "threads rt t = None"
  proof -
    from that L(1) have "t \<notin> set ks" by auto
    with that show ?thesis by (simp add: rt' store_memories_other renumbered_def)
  qed
  show "\<exists>j < length ks. td = T (ks ! j) \<and> act_ids td \<subseteq> A \<and> drms_thread_ok g td \<and>
      threads rt' t = Some (new_thread A td (ls' ! j))" if t: "threads rt t = Some td"
  proof -
    from t L(1) have "t \<in> set ks" by auto
    then obtain j where j: "j < length ks" "t = ks ! j" by (auto simp: in_set_conv_nth)
    with t have td: "td = T (ks ! j)" by (simp add: T)
    have "act_ids td \<subseteq> A" using nth_mem [OF j(1)] by (auto simp: td A open_ids_def act_ids_def d)
    moreover have "drms_thread_ok g td" using ok t by (simp add: drms_threads_ok_def slots_apart_def)
    moreover have "threads rt' t = Some (new_thread A td (ls' ! j))"
      using j by (simp add: rt' store_memories_nth [OF L(2) len] renumbered_def new_thread_def td A d)
    ultimately show ?thesis using j(1) td by blast
  qed
qed

lemma overflow_handler_drms_ok:
  assumes ok: "drms_threads_ok rt g"
  shows "\<exists>rt' g' n. overflow_handler_drms rt = Inr (rt', n) \<and> drms_threads_ok rt' g' \<and> n < MAX_COUNT_VAL \<and>
    (\<forall>a. global_ts (LK_at g' a) < n) \<and>
    (\<forall>t td. threads rt t = Some td \<longrightarrow> (\<exists>td'. threads rt' t = Some td' \<and> drms_kept n g td g' td'))"
proof -
  define T where "T = (\<lambda>k. the (threads rt k))"
  define d where "d = (\<lambda>k. stack_depth (T k))"
  define ks where "ks = live_slots rt"
  define A where "A = open_ids ks T d"
  have fA: "finite A" by (simp add: A_def)
  from overflow_handler_drms_eq [OF ok T_def d_def ks_def A_def] obtain sz g' ls' where H: "unat sz = Suc (card A)" "card A \<le> 8192000"
    "active_array (0 # sorted_list_of_set A) sz"
    "LK_compress_drms (0 # sorted_list_of_set A) sz g (map (\<lambda>k. shadow_memory (T k)) ks) = Inr (g', ls')"
    "lk_inv g'" "res_shift g' = res_shift g" "length ls' = length ks"
    "\<forall>t < length ks. lk_inv (ls' ! t) \<and> res_shift (ls' ! t) = res_shift g"
    "\<And>a. compress_drms_cell (0 # sorted_list_of_set A) sz (LK_at g a) (map (\<lambda>k. LK_at (shadow_memory (T k)) a) ks) =
      Inr (LK_at g' a, map (\<lambda>l. LK_at l a) ls')"
    "overflow_handler_drms rt = Inr ((renumbered ks T d rt)\<lparr>global_shadow_memory := Some g',
       threads := store_memories (threads (renumbered ks T d rt)) ks ls'\<rparr>, 3 * (sz + 1))" by blast
  define n where "n = 3 * (sz + 1)"
  define rt' where "rt' = (renumbered ks T d rt)\<lparr>global_shadow_memory := Some g',
       threads := store_memories (threads (renumbered ks T d rt)) ks ls'\<rparr>"
  note th = renumbered_threads [OF ok T_def d_def ks_def A_def H(7) rt'_def]
  have n: "unat n = 3 * (card A + 2)" using H(1,2) by (simp add: n_def unat_word_ariths)
  have cA: "card A < 2 ^ 28" using H(2) by simp
  have rel: "drms_local_rel (0 # sorted_list_of_set A) (LK_at g a) (LK_at g' a) (LK_at (shadow_memory (T (ks ! j))) a) (LK_at (ls' ! j) a)"
    if "j < length ks" for j a
    using compress_drms_cell_ok [OF H(3), of "LK_at g a" "map (\<lambda>k. LK_at (shadow_memory (T k)) a) ks"] that H(7)
    unfolding H(9) by (auto dest: list_all2_nthD [where p = j])
  have bound: "unat v < 3 * Suc (card A)" if "j < length ks" "LK_at (ls' ! j) a = Some v" for j a v
  proof -
    have "Some v \<in> set (map (\<lambda>l. LK_at l a) ls')" using that H(7) by (auto intro!: image_eqI [where x = "ls' ! j"])
    from compress_drms_cell_bound(1) [OF H(3) H(9) this] show ?thesis by simp
  qed
  have old: "\<exists>td0 l'. threads rt t = Some td0 \<and> td = new_thread A td0 l'" if "threads rt' t = Some td" for t td
    using that th [of t] by (cases "threads rt t") auto
  have inj: "inj_on (new_ts A) A" using new_ts_less(2) [OF fA _ _ cA] by (auto simp: inj_on_def)
  have apart: "slots_apart rt'"
  proof (rule slots_apart_same_slots)
    show "slots_apart rt" using ok by (simp add: drms_threads_ok_def)
    show "threads rt' t = None \<longleftrightarrow> threads rt t = None" for t using th [of t] by (cases "threads rt t") auto
    fix t t' td1 td2
    assume a: "threads rt' t = Some td1" "threads rt' t' = Some td2" "t \<noteq> t'"
    from old [OF a(1)] old [OF a(2)] obtain u1 u2 l1 l2 where u: "threads rt t = Some u1" "td1 = new_thread A u1 l1"
      "threads rt t' = Some u2" "td2 = new_thread A u2 l2" by blast
    from th(1) [OF u(1)] th(1) [OF u(3)] have "act_ids u1 \<subseteq> A" "act_ids u2 \<subseteq> A" by blast+
    moreover have "act_ids u1 \<inter> act_ids u2 = {}" using ok u(1,3) a(3) unfolding drms_threads_ok_def slots_apart_def by blast
    ultimately show "act_ids td1 \<inter> act_ids td2 = {}"
      unfolding u(2,4) act_ids_new_thread using inj_on_image_Int [OF inj, of "act_ids u1" "act_ids u2"] by simp
  qed (simp add: rt'_def renumbered_def)
  have "drms_thread_ok g' td" if t: "threads rt' t = Some td" for t td
  proof -
    from old [OF t] obtain td0 where td0: "threads rt t = Some td0" by blast
    from th(1) [OF td0] t obtain j where "j < length ks" "td = new_thread A td0 (ls' ! j)" "act_ids td0 \<subseteq> A" "drms_thread_ok g td0"
      by auto
    with H(6,8) new_thread_ok [OF _ fA cA] show ?thesis by simp
  qed
  with apart have "drms_threads_ok rt' g'" by (simp add: drms_threads_ok_def H(5)) (simp add: rt'_def)
  moreover have "\<exists>td'. threads rt' t = Some td' \<and> drms_kept n g td g' td'" if "threads rt t = Some td" for t td
  proof -
    from th(1) [OF that] obtain j where j: "j < length ks" "td = T (ks ! j)" "act_ids td \<subseteq> A" "drms_thread_ok g td"
      "threads rt' t = Some (new_thread A td (ls' ! j))" by blast
    have "drms_kept n g td g' (new_thread A td (ls' ! j))"
      by (rule new_thread_kept [OF j(4) fA cA j(3) n rel [OF j(1), folded j(2)]]) (rule bound [OF j(1)])
    with j(5) show ?thesis by blast
  qed
  moreover have "global_ts (LK_at g' a) < n" for a
    using compress_drms_cell_bound(2) [OF H(3) H(9), of a] n
    by (cases "LK_at g' a") (auto simp: global_ts_def word_less_nat_alt)
  moreover have "n < MAX_COUNT_VAL" using H(2) by (simp add: word_less_nat_alt n MAX_COUNT_VAL_def)
  ultimately show ?thesis using H(10) unfolding rt'_def [symmetric] n_def [symmetric] by blast
qed

section \<open>Property\<close>

text \<open>Two threads: the first has two activations, the second one that was entered between them.\<close>

definition sample_thread :: "u32 list \<Rightarrow> ThreadData" where
  "sample_thread ids = \<lparr>shadow_memory = empty_LK, rtn_ht = HT_construct True, t_cost = 0, stack_depth = of_nat (length ids),
     stack = (\<lambda>i. zero_activation\<lparr>activation_id := ids ! i\<rparr>), max_stack_size = STACK_SIZE, t_last_bb = None, t_last_exit = NONE,
     next_routine_id = 0, t_skip = 0, skip_cost = 0, next_activation_id = 1, t_root = None, next_context_id = 1\<rparr>"

definition two_threads :: Runtime where
  "two_threads = (case init (default_params\<lparr>input_metric := DRMS\<rparr>) ''prog'' [] 0 of Inr rt \<Rightarrow>
     rt\<lparr>global_shadow_memory := Some empty_LK, running_threads := 2,
        threads := [0 \<mapsto> sample_thread [5, 9], 1 \<mapsto> sample_thread [7]]\<rparr> | Inl _ \<Rightarrow> undefined)"

lemma sample_thread_fields:
  assumes "length ids < 64"
  shows "unat (stack_depth (sample_thread ids)) = length ids" "stack_ok (sample_thread ids)" "act_ids (sample_thread ids) = set ids"
    and "shadow_memory (sample_thread ids) = empty_LK" "activation_id (stack (sample_thread ids) i) = ids ! i"
proof -
  show d: "unat (stack_depth (sample_thread ids)) = length ids"
    unfolding sample_thread_def by simp (rule unat_of_nat32, use assms in simp)
  have "stack_size_ok 64" unfolding stack_size_ok_def by (rule exI [of _ 0]) simp
  then show "stack_ok (sample_thread ids)"
    using assms d by (simp add: stack_ok_def sample_thread_def STACK_SIZE_def)
  show i: "activation_id (stack (sample_thread ids) i) = ids ! i" for i
    by (simp add: sample_thread_def zero_activation_def)
  show "act_ids (sample_thread ids) = set ids"
    unfolding act_ids_def d i by (auto simp: in_set_conv_nth)
qed (simp add: sample_thread_def)

lemma two_threads_ok: "drms_threads_ok two_threads empty_LK"
proof -
  have f: "threads two_threads = [0 \<mapsto> sample_thread [5, 9], 1 \<mapsto> sample_thread [7]]"
    "running_threads two_threads = 2" "global_shadow_memory two_threads = Some empty_LK"
    by (simp_all add: two_threads_def init_def default_params_def LK_create_def)
  have "{t. threads two_threads t \<noteq> None} = {0, 1}" by (auto simp: f)
  then show ?thesis
    by (auto simp: drms_threads_ok_def slots_apart_def drms_thread_ok_def f empty_LK_ok VG_N_THREADS_def sample_thread_fields
        nth_Cons' split: if_splits)
qed

text \<open>C6. When the global counter runs over, the DRMS handler succeeds and the timestamps fit together again.
  Starting from threads whose identifiers increase up each stack and differ between
  threads, it returns a counter below the limit; every identifier and every timestamp of a memory is below
  it; identifiers still increase and differ; an identifier compares with the timestamps of its thread's memory as
  before, and so does each allocated local cell with the global one.\<close>

theorem drms_renumbering_keeps_order:
  assumes "drms_threads_ok rt g"
  shows "\<exists>rt' g' n. overflow_handler_drms rt = Inr (rt', n) \<and> drms_threads_ok rt' g' \<and> n < MAX_COUNT_VAL \<and>
    (\<forall>a. global_ts (LK_at g' a) < n) \<and>
    (\<forall>t td. threads rt t = Some td \<longrightarrow> (\<exists>td'. threads rt' t = Some td' \<and> drms_kept n g td g' td'))"
  using assms by (rule overflow_handler_drms_ok)

theorem drms_renumbering_keeps_order_witness:
  "\<exists>rt' g' n. overflow_handler_drms two_threads = Inr (rt', n) \<and> drms_threads_ok rt' g' \<and> n < MAX_COUNT_VAL"
  using drms_renumbering_keeps_order [OF two_threads_ok] by blast

end
