(* ===== verification/DRMSProfile.thy ===== *)
theory DRMSProfile
  imports DRMSEvents Renumber
begin

text \<open>
  Runs with the DRMS metric: every sequence of events of any number of threads leaves the tuples
  the specification says, and the invariant of the timestamps holds in every state reached.
\<close>

section \<open>Entry of a function\<close>

lemma function_enter_drms:
  assumes td: "threads rt t = Some td" and ok: "stack_ok td" and d: "unat (stack_depth td) = Suc d"
    and inv: "routines_inv td" and ri: "get_ri td (routine_info (stack td d)) = Inr ri"
    and fn: "fns rt (ri_fn ri) = Some fn" "\<not> fn_skip fn" and skip: "t_skip td = 0"
    and c: "input_metric (cfg rt) = DRMS" "\<not> collect_CCT (cfg rt)"
    and n: "global_counter rt + 1 < MAX_COUNT_VAL"
  shows "\<exists>td'. function_enter rt t (int d) = Inr (put_td (rt\<lparr>global_counter := global_counter rt + 1\<rparr>) t td') \<and>
     td' = td\<lparr>rtn_ht := rtn_ht td', stack := stack td'\<rparr> \<and> routines_inv td' \<and>
     stack td' = (stack td)(d := reset_act ((stack td d)\<lparr>start := aprof_time td, activation_id := global_counter rt + 1\<rparr>)) \<and>
     (\<forall>k. get_ri td' k = (if k = routine_info (stack td d) then Inr (ri\<lparr>recursion_pending := recursion_pending ri + 1\<rparr>) else get_ri td k))"
proof -
  let ?f = "routine_info (stack td d)" and ?g = "global_counter rt + 1"
  let ?a = "(stack td d)\<lparr>start := aprof_time td, activation_id := ?g\<rparr>"
  let ?td1 = "set_act td (int d) ((stack td d)\<lparr>start := aprof_time td\<rparr>)"
  let ?td2 = "set_act ?td1 (int d) ?a"
  let ?rt2 = "put_td (rt\<lparr>global_counter := ?g\<rparr>) t ?td2"
  have act: "get_act td (int d) = Inr (stack td d)" by (rule get_act_in_stack [OF ok]) (simp add: d)
  have act1: "get_act ?td1 (int d) = Inr ((stack td d)\<lparr>start := aprof_time td\<rparr>)"
    using get_act_in_stack [of ?td1 d] ok d by simp
  have "global_counter rt + 1 \<noteq> MAX_COUNT_VAL" using n by auto
  then have id: "enter_id_drms (put_td rt t ?td1) t (int d) = Inr ?rt2"
    using act1 by (simp add: enter_id_drms_def upd_act_def get_td_def Let_def put_td_def)
  let ?u = "upd_ri ?td2 ?f (\<lambda>ri. ri\<lparr>recursion_pending := recursion_pending ri + 1\<rparr>)"
  let ?td = "set_act ?u (int d) (reset_act ?a)"
  have act2: "get_act ?td2 (int d) = Inr ?a" using get_act_in_stack [of ?td2 d] ok d by simp
  have "threads ?rt2 t = Some ?td2" by simp
  from enter_reset_eq [OF this, of d] act2
  have rs: "enter_reset ?rt2 t (int d) = Inr (put_td ?rt2 t ?td)" by simp
  have e: "function_enter rt t (int d) = Inr (put_td (rt\<lparr>global_counter := ?g\<rparr>) t ?td)"
    using td act ri fn skip c id rs by (simp add: function_enter_def get_td_def get_fn_def Let_def)
  have inv2: "routines_inv ?td2" and get2: "get_ri ?td2 = get_ri td"
    using inv routines_inv_cong [of ?td2 td] get_ri_cong [of ?td2 td] by simp_all
  have u: "routines_inv ?u" "get_ri ?u k = (if k = ?f then Inr (ri\<lparr>recursion_pending := recursion_pending ri + 1\<rparr>) else get_ri td k)" for k
    using inv2 ri by (simp_all add: inv_intros get_ri_upd_ri get2)
  have g: "get_ri ?td = get_ri ?u" "routines_inv ?td = routines_inv ?u"
    by (rule get_ri_cong routines_inv_cong; simp)+
  have st: "stack ?td = (stack td)(d := reset_act ?a)" by (simp add: upd_ri_def)
  have "?td = td\<lparr>rtn_ht := rtn_ht ?td, stack := stack ?td\<rparr>" by (simp add: upd_ri_def set_act_def)
  with e st u g show ?thesis by (intro exI [of _ ?td]) simp
qed

section \<open>Runs\<close>

text \<open>The frames carry the functions, and what left them is logged by thread and function: the number
  of input reads and the four statistics.\<close>

type_synonym dentry = "u32 \<times> u64 \<times> u64 \<times> u64 \<times> u64"

record dworld =
  d_cur :: nat
  d_shared :: shared
  d_fns :: "nat \<Rightarrow> u64 list"
  d_log :: "nat \<Rightarrow> u64 \<Rightarrow> dentry list"
  d_count :: nat

datatype devent = DEnter u64 u64 | DExit | DAccess access_t u64 nat | DSyscall u32 "nat \<Rightarrow> u64" u64 | DSwitch u32

definition dentry_of :: "dframe \<Rightarrow> dentry" where
  "dentry_of f = (of_nat (d_reads f), of_nat (d_kernel f), of_nat (d_other f), of_nat (d_self_kernel f), of_nat (d_self_other f))"

text \<open>The buffer of a system call: whether the kernel writes it, its address and length.\<close>

definition kernel_buffer :: "u32 \<Rightarrow> (nat \<Rightarrow> u64) \<Rightarrow> u64 \<Rightarrow> (bool \<times> u64 \<times> nat) option" where
  "kernel_buffer no args r =
     (if no = NR_read \<or> no = NR_recvfrom \<or> no = NR_pread64 then Some (True, args 1, unat r)
      else if no = NR_write \<or> no = NR_sendto \<or> no = NR_pwrite64 then Some (False, args 1, unat r)
      else if no = NR_msgrcv then Some (True, args 1, unat r + 8)
      else if no = NR_msgsnd then Some (False, args 1, unat (args 2 + 8))
      else if no = NR_mmap then Some (True, r, unat (args 1))
      else None)"

fun dspec :: "(u64 \<Rightarrow> Function option) \<Rightarrow> u32 \<Rightarrow> devent \<Rightarrow> dworld \<Rightarrow> dworld" where
  "dspec F sh (DEnter f csp) w = w\<lparr>d_shared := spec_enter_drms (d_cur w) (d_shared w),
     d_fns := (d_fns w)(d_cur w := d_fns w (d_cur w) @ [f]), d_count := Suc (d_count w)\<rparr>"
| "dspec F sh DExit w =
     (let t = d_cur w; f = last (d_fns w t); c = last (frames_of (d_shared w) t) in
      w\<lparr>d_shared := spec_exit_drms t (d_shared w), d_fns := (d_fns w)(t := butlast (d_fns w t)),
        d_log := (if discards F f then d_log w else (d_log w)(t := (d_log w t)(f := dentry_of c # d_log w t f)))\<rparr>)"
| "dspec F sh (DAccess type addr n) w =
     (if d_fns w (d_cur w) = [] then w
      else w\<lparr>d_shared := fold (spec_drms type (d_cur w)) (cells_of sh addr n) (d_shared w)\<rparr>)"
| "dspec F sh (DSyscall no args r) w = (case kernel_buffer no args r of
     None \<Rightarrow> w
   | Some (True, a, n) \<Rightarrow> w\<lparr>d_count := Suc (d_count w), d_shared :=
        (if d_fns w (d_cur w) = [] then d_shared w else fold spec_kernel_write (cells_of sh a n) (d_shared w))\<rparr>
   | Some (False, a, n) \<Rightarrow> w\<lparr>d_shared :=
        (if d_fns w (d_cur w) = [] then d_shared w else fold (spec_read (d_cur w)) (cells_of sh a n) (d_shared w))\<rparr>)"
| "dspec F sh (DSwitch tid) w = w\<lparr>d_cur := tid_slot tid, d_count := Suc (d_count w)\<rparr>"

definition range_ok :: "u64 \<Rightarrow> nat \<Rightarrow> bool" where
  "range_ok addr n \<longleftrightarrow> 0 < n \<and> n < 2 ^ 31 - 16 \<and> unat addr + n \<le> 2 ^ 46"

fun devent_ok :: "(u64 \<Rightarrow> Function option) \<Rightarrow> devent \<Rightarrow> dworld \<Rightarrow> bool" where
  "devent_ok F (DEnter f csp) w = ((case F f of None \<Rightarrow> False | Some fn \<Rightarrow> \<not> fn_skip fn) \<and>
     Suc (length (d_fns w (d_cur w))) < MAX_STACK_SIZE \<and> Suc (d_count w) < 2 ^ 31)"
| "devent_ok F DExit w = (d_fns w (d_cur w) \<noteq> [])"
| "devent_ok F (DAccess type addr n) w = range_ok addr n"
| "devent_ok F (DSyscall no args r) w = (no \<notin> {NR_readv, NR_preadv, NR_writev, NR_pwritev} \<and>
     (case kernel_buffer no args r of None \<Rightarrow> True
      | Some (k, a, n) \<Rightarrow> range_ok a n \<and> (k \<longrightarrow> Suc (d_count w) < 2 ^ 31)))"
| "devent_ok F (DSwitch tid) w = (tid \<noteq> 0 \<and> tid_slot tid < VG_N_THREADS \<and> tid_slot tid \<noteq> d_cur w \<and> Suc (d_count w) < 2 ^ 31)"

text \<open>What the tool does.\<close>

fun dtool :: "(u64 \<Rightarrow> u64 \<Rightarrow> (u64 \<times> u64) list) \<Rightarrow> devent \<Rightarrow> Runtime \<Rightarrow> Runtime res" where
  "dtool iov (DEnter f csp) rt = bindR (derefR (current_tdata rt)) (\<lambda>t. push_stack rt t csp f)"
| "dtool iov DExit rt = bindR (derefR (current_tdata rt)) (\<lambda>t. bindR (get_td rt t) (\<lambda>td.
     pop_one rt t (get_activation_noresize (stack_depth td))))"
| "dtool iov (DAccess type addr n) rt = trace_access_drms rt type addr (of_nat n) False"
| "dtool iov (DSyscall no args r) rt = post_syscall iov (current_TID rt) no args \<lparr>isError = False, sr_Res = r\<rparr> rt"
| "dtool iov (DSwitch tid) rt = thread_switch rt tid"

section \<open>Simulation\<close>

definition stats_of :: "Sample \<Rightarrow> u64 \<times> u64 \<times> u64 \<times> u64" where
  "stats_of s = (s_cumul_syscall s, s_cumul_thread s, s_self_syscall s, s_self_thread s)"

definition stats_ok :: "observed \<Rightarrow> dentry list \<Rightarrow> bool" where
  "stats_ok obs l \<longleftrightarrow> (\<forall>sz. map stats_of (obs (None, sz)) = map snd (filter (\<lambda>e. fst e = sz) l))"

definition droutine :: "(u64 \<Rightarrow> Function option) \<Rightarrow> ThreadData \<Rightarrow> u64 list \<Rightarrow> (u64 \<Rightarrow> dentry list) \<Rightarrow> u64 \<Rightarrow> bool" where
  "droutine F td fs l f \<longleftrightarrow> (case get_ri td f of
     Inl _ \<Rightarrow> f \<notin> set fs \<and> l f = []
   | Inr ri \<Rightarrow> ri_fn ri = f \<and> (\<exists>fn. F f = Some fn \<and> (\<not> discard fn \<longrightarrow>
       (\<exists>m obs. input_map ri = OwnMap m \<and> map_rel False m obs \<and> stats_ok obs (l f)))))"

definition dthread_ok :: "(u64 \<Rightarrow> Function option) \<Rightarrow> ThreadData \<Rightarrow> u64 list \<Rightarrow> (u64 \<Rightarrow> dentry list) \<Rightarrow> bool" where
  "dthread_ok F td fs l \<longleftrightarrow> t_skip td = 0 \<and> routines_inv td \<and> unat (stack_depth td) = length fs \<and>
     (\<forall>i < length fs. routine_info (stack td i) = fs ! i) \<and> (\<forall>f. droutine F td fs l f)"

definition dsim :: "(u64 \<Rightarrow> Function option) \<Rightarrow> u32 \<Rightarrow> Runtime \<Rightarrow> dworld \<Rightarrow> bool" where
  "dsim F sh rt w \<longleftrightarrow> current_tdata rt = Some (d_cur w) \<and> tid_slot (current_TID rt) = d_cur w \<and> fns rt = F \<and>
     \<not> collect_CCT (cfg rt) \<and> \<not> single_report (cfg rt) \<and> dope_fn (cfg rt) = None \<and>
     unat (global_counter rt) = d_count w \<and> slots_apart rt \<and> (\<exists>fresh. drms_rel (d_cur w) fresh sh rt (d_shared w)) \<and>
     threads rt (d_cur w) \<noteq> None \<and>
     (\<forall>t. threads rt t = None \<longrightarrow> d_fns w t = [] \<and> d_log w t = (\<lambda>_. [])) \<and>
     (\<forall>t td. threads rt t = Some td \<longrightarrow> length (frames_of (d_shared w) t) = length (d_fns w t) \<and>
        dthread_ok F td (d_fns w t) (d_log w t))"

lemma dsimD:
  assumes "dsim F sh rt w"
  obtains td fresh where "current_tdata rt = Some (d_cur w)" "tid_slot (current_TID rt) = d_cur w" "fns rt = F"
    "\<not> collect_CCT (cfg rt)" "\<not> single_report (cfg rt)" "dope_fn (cfg rt) = None" "unat (global_counter rt) = d_count w"
    "drms_rel (d_cur w) fresh sh rt (d_shared w)" "threads rt (d_cur w) = Some td"
    "length (frames_of (d_shared w) (d_cur w)) = length (d_fns w (d_cur w))" "dthread_ok F td (d_fns w (d_cur w)) (d_log w (d_cur w))"
  using assms unfolding dsim_def by blast

lemma drms_rel_dthread:
  assumes "drms_rel t fresh sh rt S" "threads rt s = Some td"
  obtains g where "dthread td (global_counter rt) (LK_sm g) (frames_of S s) (stale S s)"
    "s \<noteq> t \<or> fresh \<Longrightarrow> \<forall>c. LK_sm (shadow_memory td) c < global_counter rt"
  using assms unfolding drms_rel_def by blast

lemma dsim_ids:
  assumes "dsim F sh rt w" "threads rt t = Some td" "x \<in> act_ids td"
  shows "x \<le> global_counter rt"
proof -
  from assms(1,2) have d: "length (frames_of (d_shared w) t) = unat (stack_depth td)"
    unfolding dsim_def dthread_ok_def by metis
  from assms(1) obtain fresh where "drms_rel (d_cur w) fresh sh rt (d_shared w)" unfolding dsim_def by blast
  from drms_rel_dthread [OF this assms(2)] obtain G where
    "dthread td (global_counter rt) G (frames_of (d_shared w) t) (stale (d_shared w) t)" by metis
  from dthreadD(5) [OF this] assms(3) d show ?thesis by (auto simp: act_ids_def)
qed

text \<open>The steps of the current thread.\<close>

lemma dsim_thread:
  assumes S: "dsim F sh rt w" and rel: "drms_rel (d_cur w) fresh sh rt' (d_shared w')"
    and e: "current_tdata rt' = current_tdata rt" "current_TID rt' = current_TID rt" "fns rt' = fns rt" "cfg rt' = cfg rt"
      "d_cur w' = d_cur w"
    and n: "unat (global_counter rt') = d_count w'"
    and th: "threads rt' = (threads rt)(d_cur w := Some td')" "running_threads rt' = running_threads rt"
    and ids: "\<And>td x. threads rt (d_cur w) = Some td \<Longrightarrow> x \<in> act_ids td' \<Longrightarrow> x \<in> act_ids td \<or> global_counter rt < x"
    and w: "\<And>t. t \<noteq> d_cur w \<Longrightarrow> d_fns w' t = d_fns w t \<and> d_log w' t = d_log w t \<and>
      length (frames_of (d_shared w') t) = length (frames_of (d_shared w) t)"
    and t: "length (frames_of (d_shared w') (d_cur w)) = length (d_fns w' (d_cur w))"
      "dthread_ok F td' (d_fns w' (d_cur w)) (d_log w' (d_cur w))"
  shows "dsim F sh rt' w'"
proof -
  from S obtain td where td: "threads rt (d_cur w) = Some td" by (rule dsimD)
  have "slots_apart rt" using S by (simp add: dsim_def)
  then have "slots_apart rt'"
    by (rule slots_apart_thread [OF _ td th, of "global_counter rt"]) (use dsim_ids [OF S] ids [OF td] in blast)+
  moreover have "d_fns w' s = [] \<and> d_log w' s = (\<lambda>_. [])" if "threads rt' s = None" for s
    using that S w [of s] unfolding th(1) by (auto simp: dsim_def split: if_splits)
  moreover have "length (frames_of (d_shared w') s) = length (d_fns w' s) \<and> dthread_ok F td (d_fns w' s) (d_log w' s)"
    if s: "threads rt' s = Some td" for s td
  proof (cases "s = d_cur w")
    case True
    with s t show ?thesis unfolding th(1) by simp
  next
    case False
    with s have "threads rt s = Some td" unfolding th(1) by simp
    with S have "length (frames_of (d_shared w) s) = length (d_fns w s)" "dthread_ok F td (d_fns w s) (d_log w s)"
      unfolding dsim_def by blast+
    with w [OF False] show ?thesis by simp
  qed
  moreover have "threads rt' (d_cur w') \<noteq> None" by (simp add: th(1) e)
  ultimately show ?thesis using S rel e n unfolding dsim_def by auto
qed

lemma dthread_ok_cong:
  assumes "dthread_ok F td fs l" "t_skip td' = t_skip td" "rtn_ht td' = rtn_ht td" "stack_depth td' = stack_depth td"
    and "\<And>i. routine_info (stack td' i) = routine_info (stack td i)"
  shows "dthread_ok F td' fs l"
proof -
  have "get_ri td' = get_ri td" "routines_inv td' = routines_inv td"
    by (rule get_ri_cong routines_inv_cong; rule assms)+
  with assms show ?thesis by (simp add: dthread_ok_def droutine_def)
qed

lemma length_fold_spec_drms [simp]: "length (frames_of (fold (spec_drms type t) cs S) s) = length (frames_of S s)"
  by (induction cs arbitrary: S) simp_all

lemma frames_of_kernel_write [simp]: "frames_of (fold spec_kernel_write cs S) = frames_of S"
  by (induction cs arbitrary: S) (simp_all add: spec_kernel_write_def)

lemma dstep_Access:
  assumes S: "dsim F sh rt w" and ok: "range_ok addr n"
  shows "\<exists>rt'. trace_access_drms rt type addr (of_nat n) False = Inr rt' \<and> dsim F sh rt' (dspec F sh (DAccess type addr n) w)"
proof -
  let ?t = "d_cur w"
  from S obtain td fresh where D: "current_tdata rt = Some ?t" "tid_slot (current_TID rt) = ?t" "fns rt = F"
    "\<not> collect_CCT (cfg rt)" "\<not> single_report (cfg rt)" "dope_fn (cfg rt) = None" "unat (global_counter rt) = d_count w"
    "drms_rel ?t fresh sh rt (d_shared w)" "threads rt ?t = Some td"
    "length (frames_of (d_shared w) ?t) = length (d_fns w ?t)" "dthread_ok F td (d_fns w ?t) (d_log w ?t)" by (rule dsimD)
  have td: "t_skip td = 0" "unat (stack_depth td) = length (d_fns w ?t)" using D(11) by (simp_all add: dthread_ok_def)
  show ?thesis
  proof (cases "d_fns w ?t = []")
    case True
    then have "stack_depth td = 0" using td(2) by (simp add: unat_eq_0)
    with True D(1,9) S show ?thesis by (simp add: trace_access_drms_def get_td_def)
  next
    case False
    have ne: "frames_of (d_shared w) ?t \<noteq> []" "length (frames_of (d_shared w) ?t) = unat (stack_depth td)"
      using False D(10) td(2) by auto
    let ?w = "w\<lparr>d_shared := fold (spec_drms type ?t) (cells_of sh addr n) (d_shared w)\<rparr>"
    from trace_access_drms_ok [OF D(8,1,9) td(1) ne(2,1), of n addr type] ok obtain rt' where
      r: "trace_access_drms rt type addr (of_nat n) False = Inr rt'" "accessed_world ?t td rt rt'"
        "drms_rel ?t False sh rt' (d_shared ?w)" by (auto simp: range_ok_def)
    from r(2) obtain td' g' where rt': "rt' = put_td (rt\<lparr>global_shadow_memory := g'\<rparr>) ?t td'" "same_but_counts td td'"
      unfolding accessed_world_def by blast
    note C = same_but_countsD [OF rt'(2)]
    have "dthread_ok F td' (d_fns w ?t) (d_log w ?t)"
      by (rule dthread_ok_cong [OF D(11)]) (simp_all add: C)
    then have "dsim F sh rt' ?w"
      by (intro dsim_thread [OF S r(3), of td']) (simp_all add: rt'(1) put_td_def D(7,9,10) act_ids_def C)
    with r(1) False show ?thesis by simp
  qed
qed

lemma to_Int_small: "unat r < 2 ^ 31 \<Longrightarrow> to_Int r = int (unat r)"
proof -
  assume r: "unat r < 2 ^ 31"
  then have "unat (ucast r :: u32) = unat r" by (simp add: unsigned_ucast_eq take_bit_nat_eq_self)
  with r show ?thesis unfolding to_Int_def using sint_small [of "ucast r"] by simp
qed

lemma dsim_same:
  assumes "dsim F sh rt w" "drms_rel (d_cur w) fresh sh rt' (d_shared w')"
    and "current_tdata rt' = current_tdata rt" "current_TID rt' = current_TID rt" "fns rt' = fns rt" "cfg rt' = cfg rt"
      "threads rt' = threads rt" "running_threads rt' = running_threads rt" "unat (global_counter rt') = d_count w'"
    and "d_cur w' = d_cur w" "d_fns w' = d_fns w" "d_log w' = d_log w"
      "frames_of (d_shared w') = frames_of (d_shared w)"
  shows "dsim F sh rt' w'"
proof -
  from assms(1) obtain td where "threads rt (d_cur w) = Some td" "dthread_ok F td (d_fns w (d_cur w)) (d_log w (d_cur w))"
    "length (frames_of (d_shared w) (d_cur w)) = length (d_fns w (d_cur w))" by (rule dsimD)
  then show ?thesis
    using assms by (intro dsim_thread [OF assms(1,2), of td]) (simp_all add: fun_upd_idem)
qed

lemma spec_drms_LOAD: "spec_drms LOAD t = spec_read t"
  by (simp add: fun_eq_iff)

lemma count_small: "Suc (unat n) < 2 ^ 31 \<Longrightarrow> n + 1 < MAX_COUNT_VAL \<and> unat ((n :: u32) + 1) = Suc (unat n)"
proof -
  assume a: "Suc (unat n) < 2 ^ 31"
  then have "unat (n + 1) = Suc (unat n)" by (simp add: unat_word_ariths)
  with a show ?thesis by (simp add: MAX_COUNT_VAL_def word_less_nat_alt)
qed

text \<open>A kernel store, when the counter must be increased for it, and a kernel load.\<close>

lemma dsim_kernel_store:
  assumes S: "dsim F sh rt w" and ok: "range_ok addr n" "Suc (d_count w) < 2 ^ 31"
  shows "\<exists>rt'. kernel_store False (buffer_access STORE addr (int n)) rt = Inr rt' \<and>
    dsim F sh rt' (w\<lparr>d_count := Suc (d_count w), d_shared :=
        (if d_fns w (d_cur w) = [] then d_shared w else fold spec_kernel_write (cells_of sh addr n) (d_shared w))\<rparr>)"
proof -
  let ?t = "d_cur w"
  from S obtain td fresh where D: "current_tdata rt = Some ?t" "tid_slot (current_TID rt) = ?t" "fns rt = F"
    "\<not> collect_CCT (cfg rt)" "\<not> single_report (cfg rt)" "dope_fn (cfg rt) = None" "unat (global_counter rt) = d_count w"
    "drms_rel ?t fresh sh rt (d_shared w)" "threads rt ?t = Some td"
    "length (frames_of (d_shared w) ?t) = length (d_fns w ?t)" "dthread_ok F td (d_fns w ?t) (d_log w ?t)" by (rule dsimD)
  have td: "t_skip td = 0" "unat (stack_depth td) = length (d_fns w ?t)" using D(11) by (simp_all add: dthread_ok_def)
  from count_small [of "global_counter rt"] ok(2) D(7) have c: "global_counter rt + 1 < MAX_COUNT_VAL"
    "unat (global_counter rt + 1) = Suc (d_count w)" by simp_all
  let ?rt = "rt\<lparr>global_counter := global_counter rt + 1\<rparr>"
  note I = increase_counter_ok(1) [OF D(8) c(1)] increase_counter_ok(2) [OF D(8) c(1), of ?t]
  have k: "kernel_store False (buffer_access STORE addr (int n)) rt = buffer_access STORE addr (int n) ?rt"
    by (simp add: kernel_store_def I(1))
  have sh: "unat sh \<le> 4" "memory_resolution (cfg ?rt) = 2 ^ unat sh" using D(8) drms_rel_shift by (auto simp: drms_rel_def)
  show ?thesis
  proof (cases "d_fns w ?t = []")
    case True
    then have z: "stack_depth td = 0" using td(2) by (simp add: unat_eq_0)
    have "buffer_access STORE addr (int n) ?rt = Inr ?rt"
      by (rule buffer_access_idle [OF sh(2,1), of ?t td]) (use D z in simp_all)
    moreover have "dsim F sh ?rt (w\<lparr>d_count := Suc (d_count w), d_shared := d_shared w\<rparr>)"
      by (rule dsim_same [OF S]) (use I(2) c(2) in simp_all)
    ultimately show ?thesis using k True by simp
  next
    case False
    then have z: "stack_depth td \<noteq> 0" using td(2) by auto
    from buffer_store_ok [OF I(2), of td n addr] D(1,9) td(1) z ok(1) obtain g' where
      b: "buffer_access STORE addr (int n) ?rt = Inr (?rt\<lparr>global_shadow_memory := g'\<rparr>)"
        "drms_rel ?t True sh (?rt\<lparr>global_shadow_memory := g'\<rparr>) (fold spec_kernel_write (cells_of sh addr n) (d_shared w))"
      by (auto simp: range_ok_def)
    have "dsim F sh (?rt\<lparr>global_shadow_memory := g'\<rparr>)
        (w\<lparr>d_count := Suc (d_count w), d_shared := fold spec_kernel_write (cells_of sh addr n) (d_shared w)\<rparr>)"
      by (rule dsim_same [OF S]) (use b(2) c(2) in simp_all)
    with k b(1) False show ?thesis by simp
  qed
qed

lemma dsim_kernel_load:
  assumes S: "dsim F sh rt w" and ok: "range_ok addr n"
  shows "\<exists>rt'. buffer_access LOAD addr (int n) rt = Inr rt' \<and>
    dsim F sh rt' (w\<lparr>d_shared := (if d_fns w (d_cur w) = [] then d_shared w else fold (spec_read (d_cur w)) (cells_of sh addr n) (d_shared w))\<rparr>)"
proof -
  from S obtain td fresh where D: "current_tdata rt = Some (d_cur w)" "drms_rel (d_cur w) fresh sh rt (d_shared w)"
    "threads rt (d_cur w) = Some td" by (rule dsimD)
  have sh: "unat sh \<le> 4" "memory_resolution (cfg rt) = 2 ^ unat sh" using D(2) drms_rel_shift by (auto simp: drms_rel_def)
  have "buffer_access LOAD addr (int n) rt = trace_access_drms rt LOAD addr (of_nat n) False"
    by (rule buffer_load_eq [OF sh(2,1) _ _ _ D(1,3)]) (use ok in \<open>simp_all add: range_ok_def\<close>)
  with dstep_Access [OF S ok, of LOAD] show ?thesis by (auto simp: spec_drms_LOAD split: if_splits)
qed

lemmas NR_defs = NR_read_def NR_write_def NR_mmap_def NR_pread64_def NR_pwrite64_def NR_readv_def NR_writev_def
  NR_sendto_def NR_recvfrom_def NR_msgsnd_def NR_msgrcv_def NR_preadv_def NR_pwritev_def

lemma syscall_buffer:
  assumes no: "no \<notin> {NR_readv, NR_preadv, NR_writev, NR_pwritev}"
    and small: "\<And>k a n. kernel_buffer no args r = Some (k, a, n) \<Longrightarrow> n < 2 ^ 31 - 16"
  shows "syscall_access iov False no args r rt = (case kernel_buffer no args r of
     None \<Rightarrow> Inr rt
   | Some (k, a, n) \<Rightarrow> if k then kernel_store False (buffer_access STORE a (int n)) rt else buffer_access LOAD a (int n) rt)"
proof -
  have s32: "sint (of_int (to_Int r + 8) :: u32) = int (unat r + 8)" if "unat r + 8 < 2 ^ 31 - 16"
  proof -
    have t: "to_Int r = int (unat r)" by (rule to_Int_small) (use that in simp)
    have e: "(of_int (to_Int r + 8) :: u32) = of_nat (unat r + 8)" unfolding t by simp
    have u: "unat (of_nat (unat r + 8) :: u32) = unat r + 8" by (rule unat_of_nat32) (use that in simp)
    have "sint (of_nat (unat r + 8) :: u32) = int (unat (of_nat (unat r + 8) :: u32))"
      by (rule sint_small) (unfold u, use that in simp)
    then show ?thesis unfolding e u .
  qed
  consider "no = NR_read \<or> no = NR_recvfrom \<or> no = NR_pread64" | "no = NR_write \<or> no = NR_sendto \<or> no = NR_pwrite64"
    | "no = NR_msgrcv" | "no = NR_msgsnd" | "no = NR_mmap"
    | "no \<notin> {NR_read, NR_recvfrom, NR_pread64, NR_write, NR_sendto, NR_pwrite64, NR_msgrcv, NR_msgsnd, NR_mmap}" by auto
  then show ?thesis
  proof cases
    case 1
    then have k: "kernel_buffer no args r = Some (True, args 1, unat r)" by (simp add: kernel_buffer_def)
    with small [OF k] 1 to_Int_small [of r] show ?thesis by (simp add: syscall_access_def)
  next
    case 2
    then have k: "kernel_buffer no args r = Some (False, args 1, unat r)" by (auto simp: kernel_buffer_def NR_defs)
    with small [OF k] 2 to_Int_small [of r] show ?thesis by (auto simp: syscall_access_def NR_defs)
  next
    case 3
    then have k: "kernel_buffer no args r = Some (True, args 1, unat r + 8)" by (simp add: kernel_buffer_def NR_defs)
    with small [OF k] 3 s32 show ?thesis by (simp add: syscall_access_def NR_defs)
  next
    case 4
    then have k: "kernel_buffer no args r = Some (False, args 1, unat (args 2 + 8))" by (simp add: kernel_buffer_def NR_defs)
    with small [OF k] 4 to_Int_small [of "args 2 + 8"] show ?thesis by (simp add: syscall_access_def NR_defs)
  next
    case 5
    then have k: "kernel_buffer no args r = Some (True, r, unat (args 1))" by (simp add: kernel_buffer_def NR_defs)
    with small [OF k] 5 to_Int_small [of "args 1"] show ?thesis by (simp add: syscall_access_def NR_defs)
  next
    case 6
    then have "kernel_buffer no args r = None" by (simp add: kernel_buffer_def)
    with 6 no show ?thesis by (simp add: syscall_access_def)
  qed
qed

lemma dstep_Syscall:
  assumes S: "dsim F sh rt w" and ok: "devent_ok F (DSyscall no args r) w"
  shows "\<exists>rt'. dtool iov (DSyscall no args r) rt = Inr rt' \<and> dsim F sh rt' (dspec F sh (DSyscall no args r) w)"
proof -
  have e: "dtool iov (DSyscall no args r) rt = syscall_access iov False no args r rt" by (simp add: post_syscall_def)
  from ok have no: "no \<notin> {NR_readv, NR_preadv, NR_writev, NR_pwritev}"
    and b: "case kernel_buffer no args r of None \<Rightarrow> True | Some (k, a, n) \<Rightarrow> range_ok a n \<and> (k \<longrightarrow> Suc (d_count w) < 2 ^ 31)"
    by simp_all
  have small: "n < 2 ^ 31 - 16" if "kernel_buffer no args r = Some (k, a, n)" for k a n
    using b that by (simp add: range_ok_def)
  have B: "syscall_access iov False no args r rt = (case kernel_buffer no args r of
     None \<Rightarrow> Inr rt
   | Some (k, a, n) \<Rightarrow> if k then kernel_store False (buffer_access STORE a (int n)) rt else buffer_access LOAD a (int n) rt)"
    by (rule syscall_buffer [OF no small])
  show ?thesis
  proof (cases "kernel_buffer no args r")
    case None
    then show ?thesis using e B S by simp
  next
    case (Some x)
    obtain k a n where x: "x = (k, a, n)" by (cases x)
    then have r: "range_ok a n" "k \<longrightarrow> Suc (d_count w) < 2 ^ 31" using b Some by simp_all
    show ?thesis
    proof (cases k)
      case True
      with dsim_kernel_store [OF S r(1)] r(2) e B Some x show ?thesis by simp
    next
      case False
      with dsim_kernel_load [OF S r(1)] e B Some x show ?thesis by simp
    qed
  qed
qed

lemma dstep_Switch:
  assumes S: "dsim F sh rt w" and ok: "devent_ok F (DSwitch tid) w"
  shows "\<exists>rt'. thread_switch rt tid = Inr rt' \<and> dsim F sh rt' (dspec F sh (DSwitch tid) w)"
proof -
  let ?t = "d_cur w" and ?w = "w\<lparr>d_cur := tid_slot tid, d_count := Suc (d_count w)\<rparr>"
  from S obtain td fresh where D: "current_tdata rt = Some ?t" "tid_slot (current_TID rt) = ?t" "fns rt = F"
    "\<not> collect_CCT (cfg rt)" "\<not> single_report (cfg rt)" "dope_fn (cfg rt) = None" "unat (global_counter rt) = d_count w"
    "drms_rel ?t fresh sh rt (d_shared w)" "threads rt ?t = Some td"
    "length (frames_of (d_shared w) ?t) = length (d_fns w ?t)" "dthread_ok F td (d_fns w ?t) (d_log w ?t)" by (rule dsimD)
  from count_small [of "global_counter rt"] ok D(7) have c: "global_counter rt + 1 < MAX_COUNT_VAL"
    "unat (global_counter rt + 1) = Suc (d_count w)" by simp_all
  have ne: "tid \<noteq> current_TID rt" using ok D(2) by auto
  have cur: "\<forall>s. current_tdata rt = Some s \<longrightarrow> threads rt s \<noteq> None" using D(1,9) by simp
  have tid: "tid \<noteq> 0" "tid_slot tid < VG_N_THREADS" using ok by simp_all
  from drms_thread_switch [OF D(8) tid(1) ne tid(2) c(1) cur] obtain rt' td' where r:
    "thread_switch rt tid = Inr rt'" "current_tdata rt' = Some (tid_slot tid)" "current_TID rt' = tid"
    "drms_rel (tid_slot tid) True sh rt' (d_shared w)" "cfg rt' = cfg rt" "fns rt' = fns rt"
    "global_counter rt' = global_counter rt + 1" "threads rt' (tid_slot tid) = Some td'"
    "threads rt (tid_slot tid) = None \<longrightarrow> stack_depth td' = 0 \<and> t_skip td' = 0 \<and> routines_inv td' \<and> (\<forall>f. get_ri td' f = Inl NullDeref)"
    "\<forall>s tds. threads rt s = Some tds \<longrightarrow> (\<exists>td'. threads rt' s = Some td' \<and> left_thread tds td')"
    "\<forall>s. threads rt s = None \<longrightarrow> s \<noteq> tid_slot tid \<longrightarrow> threads rt' s = None"
    "running_threads rt' = running_threads rt + (if threads rt (tid_slot tid) = None then 1 else 0)"
    by (elim exE conjE) (rule that, assumption+)
  have apart: "slots_apart rt'"
  proof (rule slots_apart_switch [OF _ tid(2) r(8) _ _ r(11,12)])
    show "slots_apart rt" using S by (simp add: dsim_def)
    show "threads rt (tid_slot tid) = None \<longrightarrow> act_ids td' = {}" using r(9) by (simp add: act_ids_def)
    show "\<forall>s tds. threads rt s = Some tds \<longrightarrow> (\<exists>td'. threads rt' s = Some td' \<and> act_ids td' = act_ids tds)"
    proof (intro allI impI)
      fix s tds
      assume "threads rt s = Some tds"
      with r(10) obtain tds' where "threads rt' s = Some tds'" "left_thread tds tds'" by blast
      with left_threadD(1,2) [OF this(2)] show "\<exists>td'. threads rt' s = Some td' \<and> act_ids td' = act_ids tds"
        by (simp add: act_ids_def)
    qed
  qed
  have none: "d_fns w s = [] \<and> d_log w s = (\<lambda>_. [])" if "threads rt s = None" for s
    using S that unfolding dsim_def by blast
  have fr: "frames_of (d_shared w) s = []" if "threads rt s = None" for s
    using D(8) that by (auto simp: drms_rel_def)
  have old: "length (frames_of (d_shared w) s) = length (d_fns w s) \<and> dthread_ok F tds (d_fns w s) (d_log w s)"
    if "threads rt s = Some tds" for s tds using S that unfolding dsim_def by blast
  have "dsim F sh rt' ?w"
    unfolding dsim_def
  proof (intro conjI allI impI)
    fix s assume "threads rt' s = None"
    then have "threads rt s = None" using r(10) [rule_format, of s] by (cases "threads rt s") auto
    with none show "d_fns ?w s = []" "d_log ?w s = (\<lambda>_. [])" by auto
  next
    fix s tds assume s: "threads rt' s = Some tds"
    have "length (frames_of (d_shared w) s) = length (d_fns w s) \<and> dthread_ok F tds (d_fns w s) (d_log w s)"
    proof (cases "threads rt s")
      case (Some td0)
      from r(10) [rule_format, OF Some] s have l: "left_thread td0 tds" by auto
      note L = left_threadD [OF l]
      from old [OF Some] dthread_ok_cong [OF _ L(3,4,2), of F "d_fns w s" "d_log w s"] L(1) show ?thesis by simp
    next
      case None
      with r(11) s have "s = tid_slot tid" by (metis option.distinct(1))
      with s r(8,9) None have "tds = td'" "stack_depth tds = 0" "t_skip tds = 0" "routines_inv tds" "\<forall>f. get_ri tds f = Inl NullDeref"
        by auto
      with none [OF None] fr [OF None] show ?thesis by (simp add: dthread_ok_def droutine_def)
    qed
    then show "length (frames_of (d_shared ?w) s) = length (d_fns ?w s)" "dthread_ok F tds (d_fns ?w s) (d_log ?w s)" by simp_all
  qed (use r D c apart in auto)
  with r(1) show ?thesis by simp
qed

lemma stats_ok_empty [simp]: "stats_ok (\<lambda>_. []) []"
  by (simp add: stats_ok_def)

lemma stats_ok_add:
  assumes "stats_ok obs l" "stats_of s = e"
  shows "stats_ok (obs((None, sz) := s # obs (None, sz))) ((sz, e) # l)"
  using assms by (auto simp: stats_ok_def)

text \<open>Entry.\<close>

lemma droutine_found:
  assumes d: "droutine F td fs l f" and F: "F f = Some fn"
    and ri: "get_ri td f = Inr ri \<or> (\<exists>e. get_ri td f = Inl e) \<and> ri_fn ri = f \<and> recursion_pending ri = 0 \<and>
        (\<not> discard fn \<longrightarrow> input_map ri = OwnMap (HT_construct False))"
  shows "ri_fn ri = f" "\<not> discard fn \<Longrightarrow> \<exists>m obs. input_map ri = OwnMap m \<and> map_rel False m obs \<and> stats_ok obs (l f)"
proof -
  have a: "ri_fn ri = f \<and> (\<not> discard fn \<longrightarrow> (\<exists>m obs. input_map ri = OwnMap m \<and> map_rel False m obs \<and> stats_ok obs (l f)))"
  proof (cases "get_ri td f")
    case (Inr r)
    with ri have "r = ri" by auto
    with Inr d F show ?thesis by (auto simp: droutine_def)
  next
    case (Inl e)
    with d ri map_rel_construct show ?thesis by (auto simp: droutine_def intro: stats_ok_empty)
  qed
  then show "ri_fn ri = f" "\<not> discard fn \<Longrightarrow> \<exists>m obs. input_map ri = OwnMap m \<and> map_rel False m obs \<and> stats_ok obs (l f)" by blast+
qed

lemma droutine_enter:
  assumes d: "\<And>g. droutine F td fs l g" and F: "F f = Some fn"
    and ri: "get_ri td f = Inr ri \<or> (\<exists>e. get_ri td f = Inl e) \<and> ri_fn ri = f \<and> recursion_pending ri = 0 \<and>
        (\<not> discard fn \<longrightarrow> input_map ri = OwnMap (HT_construct False))"
    and td': "\<And>k. get_ri td' k = (if k = f then Inr (ri\<lparr>recursion_pending := recursion_pending ri + 1\<rparr>) else get_ri td k)"
  shows "droutine F td' (fs @ [f]) l g"
proof (cases "g = f")
  case True
  with droutine_found [OF d F ri] F show ?thesis by (simp add: droutine_def td')
next
  case False
  with d [of g] show ?thesis by (simp add: droutine_def td' split: sum.splits)
qed

lemma dstep_Enter:
  assumes S: "dsim F sh rt w" and ok: "devent_ok F (DEnter f csp) w"
  shows "\<exists>rt'. push_stack rt (d_cur w) csp f = Inr rt' \<and> dsim F sh rt' (dspec F sh (DEnter f csp) w)"
proof -
  let ?t = "d_cur w" and ?d = "length (d_fns w (d_cur w))" and ?n = "global_counter rt + 1"
  from S obtain td fresh where D: "current_tdata rt = Some ?t" "tid_slot (current_TID rt) = ?t" "fns rt = F"
    "\<not> collect_CCT (cfg rt)" "\<not> single_report (cfg rt)" "dope_fn (cfg rt) = None" "unat (global_counter rt) = d_count w"
    "drms_rel ?t fresh sh rt (d_shared w)" "threads rt ?t = Some td"
    "length (frames_of (d_shared w) ?t) = ?d" "dthread_ok F td (d_fns w ?t) (d_log w ?t)" by (rule dsimD)
  from D(11) have T: "t_skip td = 0" "routines_inv td" "unat (stack_depth td) = ?d"
    "\<And>i. i < ?d \<Longrightarrow> routine_info (stack td i) = d_fns w ?t ! i" "\<And>f. droutine F td (d_fns w ?t) (d_log w ?t) f"
    by (simp_all add: dthread_ok_def)
  from ok obtain fn where fn: "F f = Some fn" "\<not> fn_skip fn" by (auto split: option.splits)
  from D(8,9) obtain g where G: "dthread td (global_counter rt) (LK_sm g) (frames_of (d_shared w) ?t) (stale (d_shared w) ?t)"
    by (rule drms_rel_dthread)
  note B = dthreadD [OF G]
  from count_small [of "global_counter rt"] ok D(7) have c: "?n < MAX_COUNT_VAL" "unat ?n = Suc (d_count w)" by simp_all
  have ok2: "Suc ?d < MAX_STACK_SIZE" using ok by simp
  from push_thread [OF D(9) B(1) T(2,3) ok2 _ D(5), of f fn csp] fn D(3) obtain td1 ri where p:
    "push_stack rt ?t csp f = function_enter (put_td rt ?t td1) ?t (int ?d)"
    "td1 = td\<lparr>stack_depth := stack_depth td + 1, max_stack_size := max_stack_size td1, rtn_ht := rtn_ht td1,
       next_routine_id := next_routine_id td1, stack := stack td1\<rparr>"
    "stack td1 = (stack td)(?d := (stack td ?d)\<lparr>sp := csp, routine_info := f, ret_addr := 0\<rparr>)"
    "stack_ok td1" "unat (stack_depth td1) = Suc ?d" "routines_inv td1"
    "\<forall>g. get_ri td1 g = (if g = f then Inr ri else get_ri td g)"
    "get_ri td f = Inr ri \<or> (\<exists>e. get_ri td f = Inl e) \<and> ri_fn ri = f \<and> recursion_pending ri = 0 \<and>
       (\<not> discard fn \<longrightarrow> input_map ri = OwnMap (HT_construct False))" by blast
  have q: "shadow_memory td1 = shadow_memory td" "t_skip td1 = t_skip td"
    using arg_cong [OF p(2), of shadow_memory] arg_cong [OF p(2), of t_skip] by simp_all
  have rf: "routine_info (stack td1 ?d) = f" by (simp add: p(3))
  have fe: "fns (put_td rt ?t td1) (ri_fn ri) = Some fn" "get_ri td1 (routine_info (stack td1 ?d)) = Inr ri"
    using droutine_found(1) [OF T(5) fn(1) p(8)] fn(1) D(3) p(7) rf by simp_all
  have m: "input_metric (cfg rt) = DRMS" using D(8) by (simp add: drms_rel_def)
  from function_enter_drms [of "put_td rt ?t td1" ?t td1 ?d ri fn] p(4-6) fe fn(2) q T(1) m D(4) c(1) obtain td2 where e:
    "function_enter (put_td rt ?t td1) ?t (int ?d) = Inr (put_td ((put_td rt ?t td1)\<lparr>global_counter := ?n\<rparr>) ?t td2)"
    "td2 = td1\<lparr>rtn_ht := rtn_ht td2, stack := stack td2\<rparr>" "routines_inv td2"
    "stack td2 = (stack td1)(?d := reset_act ((stack td1 ?d)\<lparr>start := aprof_time td1, activation_id := ?n\<rparr>))"
    "\<forall>k. get_ri td2 k = (if k = f then Inr (ri\<lparr>recursion_pending := recursion_pending ri + 1\<rparr>) else get_ri td1 k)"
    unfolding rf by auto
  let ?rt = "put_td (rt\<lparr>global_counter := ?n\<rparr>) ?t td2" and ?w = "dspec F sh (DEnter f csp) w"
  have rt: "push_stack rt ?t csp f = Inr ?rt" using p(1) e(1) by (simp add: put_td_def)
  have q2: "shadow_memory td2 = shadow_memory td" "t_skip td2 = t_skip td" "stack_depth td2 = stack_depth td1"
    "max_stack_size td2 = max_stack_size td1"
    using arg_cong [OF e(2), of shadow_memory] arg_cong [OF e(2), of t_skip] arg_cong [OF e(2), of stack_depth]
      arg_cong [OF e(2), of max_stack_size] q by simp_all
  have ok_td2: "stack_ok td2" using p(4) by (simp add: stack_ok_def q2)
  have st2: "stack td2 i = stack td i" if "i < ?d" for i using that by (simp add: e(4) p(3))
  have I: "drms_rel ?t True sh (rt\<lparr>global_counter := ?n\<rparr>) (d_shared w)" by (rule increase_counter_ok(2) [OF D(8) c(1)])
  have pos: "0 < ?n" using c(2) by (metis word_gt_0 unat_0 nat.distinct(1))
  from D(9) have "threads (rt\<lparr>global_counter := ?n\<rparr>) ?t = Some td" by simp
  from drms_rel_dthread [OF I this] have below: "LK_sm (shadow_memory td) x < ?n" for x by fastforce
  have ids: "activation_id (stack td i) < ?n" if "i < ?d" for i
  proof -
    have "activation_id (stack td i) \<le> global_counter rt" using B(5) that D(10) by simp
    then show ?thesis using c(2) D(7) by (simp add: word_le_nat_alt word_less_nat_alt)
  qed
  have rel: "drms_rel ?t True sh ?rt (d_shared ?w)"
  proof (rule drms_rel_thread [OF I])
    show "threads (rt\<lparr>global_counter := ?n\<rparr>) ?t = Some td" using D(9) by simp
    show "shadow_memory td2 = shadow_memory td" by (rule q2(1))
    fix G' assume "dthread td (global_counter (rt\<lparr>global_counter := ?n\<rparr>)) G' (frames_of (d_shared w) ?t) (stale (d_shared w) ?t)"
    then have dt: "dthread td ?n G' (frames_of (d_shared w) ?t) (stale (d_shared w) ?t)" by simp
    have "dthread td2 ?n G' (frames_of (d_shared w) ?t @ [dframe0]) (stale (d_shared w) ?t)"
      by (rule dthread_enter [OF dt below _ pos q2(1) ok_td2])
        (use ids st2 D(10) p(5) q2(3) in \<open>simp_all add: e(4) reset_act_def\<close>)
    then show "dthread td2 (global_counter (rt\<lparr>global_counter := ?n\<rparr>)) G' (frames_of (d_shared ?w) ?t) (stale (d_shared ?w) ?t)"
      by (simp add: spec_enter_drms_def)
  qed (simp_all add: spec_enter_drms_def)
  have "dthread_ok F td2 (d_fns w ?t @ [f]) (d_log w ?t)"
    unfolding dthread_ok_def
  proof (intro conjI allI impI)
    show "t_skip td2 = 0" "routines_inv td2" using T(1) q2(2) e(3) by simp_all
    show "unat (stack_depth td2) = length (d_fns w ?t @ [f])" using p(5) q2(3) by simp
    show "droutine F td2 (d_fns w ?t @ [f]) (d_log w ?t) g" for g
      by (rule droutine_enter [OF T(5) fn(1) p(8)]) (use e(5) p(7) in simp)
    fix i assume "i < length (d_fns w ?t @ [f])"
    then consider "i < ?d" | "i = ?d" by (auto simp: less_Suc_eq)
    then show "routine_info (stack td2 i) = (d_fns w ?t @ [f]) ! i"
    proof cases
      case 1
      then show ?thesis using T(4) st2 by (simp add: nth_append)
    next
      case 2
      then show ?thesis using rf by (simp add: e(4) reset_act_def)
    qed
  qed
  moreover have "x \<in> act_ids td \<or> global_counter rt < x" if "x \<in> act_ids td2" for x
  proof -
    from that obtain i where i: "i < Suc ?d" "x = activation_id (stack td2 i)" using p(5) q2(3) by (auto simp: act_ids_def)
    show ?thesis
    proof (cases "i = ?d")
      case True
      then have "x = ?n" using i(2) by (simp add: e(4) reset_act_def)
      then show ?thesis using c(2) D(7) by (simp add: word_less_nat_alt)
    next
      case False
      then show ?thesis using i st2 T(3) by (auto simp: act_ids_def)
    qed
  qed
  ultimately have "dsim F sh ?rt ?w"
    by (intro dsim_thread [OF S rel, of td2]) (simp_all add: put_td_def c(2) spec_enter_drms_def D(9,10))
  with rt show ?thesis by blast
qed

text \<open>Exit.\<close>

lemma droutine_exit:
  assumes d: "\<And>g. droutine F td fs l g" and f: "f = last fs" "fs \<noteq> []" and F: "F f = Some fn"
    and td': "\<And>k. get_ri td' k = (if k = f then Inr ri' else get_ri td k)" and ri': "ri_fn ri' = f"
    and l': "if discard fn then l' = l else l' = l(f := e # l f) \<and>
       (\<exists>m obs. input_map ri' = OwnMap m \<and> map_rel False m obs \<and> stats_ok obs (e # l f))"
  shows "droutine F td' (butlast fs) l' g"
proof (cases "g = f")
  case True
  with l' F ri' show ?thesis by (auto simp: droutine_def td')
next
  case False
  have "l' g = l g" using l' False by (auto split: if_splits)
  moreover have "g \<notin> set (butlast fs)" if "g \<notin> set fs" using that by (meson in_set_butlastD)
  ultimately show ?thesis using d [of g] False by (auto simp: droutine_def td' split: sum.splits)
qed

lemma exited_routine_info:
  assumes "exited d cost cumul td td'"
  shows "routine_info (stack td' i) = routine_info (stack td i)"
  by (simp add: exitedD(10) [OF assms] add_to_parent_def)

lemma dstep_Exit:
  assumes S: "dsim F sh rt w" and ok: "d_fns w (d_cur w) \<noteq> []"
  shows "\<exists>rt'. dtool iov DExit rt = Inr rt' \<and> dsim F sh rt' (dspec F sh DExit w)"
proof -
  let ?t = "d_cur w" and ?fs = "d_fns w (d_cur w)" and ?cs = "frames_of (d_shared w) (d_cur w)" and ?w = "dspec F sh DExit w"
  from S obtain td fresh where D: "current_tdata rt = Some ?t" "tid_slot (current_TID rt) = ?t" "fns rt = F"
    "\<not> collect_CCT (cfg rt)" "\<not> single_report (cfg rt)" "dope_fn (cfg rt) = None" "unat (global_counter rt) = d_count w"
    "drms_rel ?t fresh sh rt (d_shared w)" "threads rt ?t = Some td"
    "length ?cs = length ?fs" "dthread_ok F td ?fs (d_log w ?t)" by (rule dsimD)
  obtain d where d: "length ?fs = Suc d" using ok by (cases ?fs) auto
  from D(11) have T: "t_skip td = 0" "routines_inv td" "unat (stack_depth td) = Suc d"
    "\<And>i. i < Suc d \<Longrightarrow> routine_info (stack td i) = ?fs ! i" "\<And>f. droutine F td ?fs (d_log w ?t) f"
    by (simp_all add: dthread_ok_def d)
  from D(8,9) obtain g where G: "dthread td (global_counter rt) (LK_sm g) ?cs (stale (d_shared w) ?t)"
    by (rule drms_rel_dthread)
  note okt = dthreadD(1) [OF G]
  let ?f = "last ?fs" and ?act = "stack td d"
  have rf: "routine_info ?act = ?f" using T(4) [of d] ok d by (simp add: last_conv_nth)
  have "?f \<in> set ?fs" using ok by simp
  with T(5) [of ?f] D(3) obtain ri fn where ri: "get_ri td ?f = Inr ri" "ri_fn ri = ?f" and fn: "F ?f = Some fn"
    and m: "\<not> discard fn \<longrightarrow> (\<exists>m obs. input_map ri = OwnMap m \<and> map_rel False m obs \<and> stats_ok obs (d_log w ?t ?f))"
    by (auto simp: droutine_def split: sum.splits)
  have ri': "get_ri td (routine_info ?act) = Inr ri" and fn': "fns rt (ri_fn ri) = Some fn" using ri rf fn D(3) by simp_all
  have p: "get_activation_noresize (stack_depth td) = int d"
  proof -
    have "d = unat (stack_depth td) - 1" using T(3) by simp
    then show ?thesis unfolding get_activation_noresize_def by (simp only:) (rule uint_of_depth, simp add: T(3))
  qed
  let ?e = "dentry_of (last ?cs)"
  define l' where "l' = (if discard fn then d_log w ?t else (d_log w ?t)(?f := ?e # d_log w ?t ?f))"
  obtain td' ri2 cost cumul where x: "function_exit rt ?t (int d) = Inr (put_td rt ?t td')" "exited d cost cumul td td'"
    "\<forall>k. get_ri td' k = (if k = ?f then Inr ri2 else get_ri td k)" "ri_fn ri2 = ?f"
    "if discard fn then l' = d_log w ?t else l' = (d_log w ?t)(?f := ?e # d_log w ?t ?f) \<and>
       (\<exists>m obs. input_map ri2 = OwnMap m \<and> map_rel False m obs \<and> stats_ok obs (?e # d_log w ?t ?f))"
  proof (cases "discard fn")
    case True
    from function_exit_discard_ok [OF D(9) okt T(3,2) ri' fn' T(1) True] obtain td' where
      "function_exit rt ?t (int d) = Inr (put_td rt ?t td')" "exited d (exit_cost rt fn ?act td) (exit_cumul rt fn ?act td) td td'"
      "\<forall>k. get_ri td' k = (if k = routine_info ?act then Inr (exit_ri ri) else get_ri td k)" by blast
    then show thesis using True rf ri(2) by (intro that [of td' _ _ "exit_ri ri"]) (auto simp: exit_ri_def l'_def)
  next
    case False
    with m obtain m0 obs where m0: "input_map ri = OwnMap m0" "map_rel False m0 obs" "stats_ok obs (d_log w ?t ?f)" by blast
    have c: "collect_CCT (cfg rt) = False" using D(4) by simp
    have "routine_map rt ri = Inr m0" "map_rel (collect_CCT (cfg rt)) m0 obs" "has_ctx rt ?act"
      using m0 by (simp_all add: routine_map_def c has_ctx_def)
    from function_exit_ok [OF D(9) okt T(3,2) ri' fn' T(1) False this] obtain rt' td' ri2 m' where y:
      "function_exit rt ?t (int d) = Inr rt'" "rt' = rt\<lparr>threads := (threads rt)(?t := Some td'), fns := fns rt'\<rparr>"
      "exited d (exit_cost rt fn ?act td) (exit_cumul rt fn ?act td) td td'"
      "\<forall>k. get_ri td' k = (if k = routine_info ?act then Inr ri2 else get_ri td k)" "same_routine (exit_ri ri) ri2"
      "\<forall>m0. input_map ri = OwnMap m0 \<longrightarrow> fns rt' = fns rt \<and> input_map ri2 = OwnMap m'"
      "map_rel (collect_CCT (cfg rt)) m' (obs((act_ctx rt ?act, a_input_size ?act) :=
        exit_sample ?act (exit_ri ri) (exit_cumul rt fn ?act td) (exit_cumul rt fn ?act td - sum_children_cost ?act) #
          obs (act_ctx rt ?act, a_input_size ?act)))" by blast
    let ?s = "exit_sample ?act (exit_ri ri) (exit_cumul rt fn ?act td) (exit_cumul rt fn ?act td - sum_children_cost ?act)"
    have im: "fns rt' = fns rt" "input_map ri2 = OwnMap m'" using y(6) m0(1) by blast+
    have "rt' = put_td rt ?t td'" using y(2) im(1) by (simp add: put_td_def)
    moreover have "act_ctx rt ?act = None" by (simp add: act_ctx_def c)
    moreover have "?e = (a_input_size ?act, stats_of ?s)"
      using dthread_exit(2-6) [OF G _ T(3) y(3)] D(10) d by (simp add: dentry_of_def stats_of_def exit_sample_def)
    ultimately show thesis
      using y c stats_ok_add [OF m0(3) refl, where s = ?s and sz = "a_input_size ?act"] im False rf ri(2)
      by (intro that [of td' _ _ ri2]) (auto simp: same_routine_def exit_ri_def l'_def)
  qed
  note X = exitedD [OF x(2)]
  let ?td = "td'\<lparr>stack_depth := stack_depth td' - 1\<rparr>"
  have depth: "stack_depth td' = stack_depth td" by (rule X(1))
  have pos: "stack_depth td' > 0" using T(3) depth by (auto simp: word_gt_0)
  have e: "dtool iov DExit rt = Inr (put_td rt ?t ?td)"
    using D(1,9) p x(1) pos by (simp add: get_td_def pop_one_def)
  have lw: "d_log ?w = (d_log w)(?t := l')"
    using fn by (simp add: Let_def discards_def l'_def fun_upd_idem)
  have rel: "drms_rel ?t fresh sh (put_td rt ?t ?td) (d_shared ?w)"
  proof (rule drms_rel_thread [OF D(8,9)])
    show "shadow_memory ?td = shadow_memory td" by (simp add: X(7))
    fix G' assume "dthread td (global_counter rt) G' ?cs (stale (d_shared w) ?t)"
    from dthread_exit(1) [OF this _ T(3) x(2)] D(10) d
    show "dthread ?td (global_counter rt) G' (frames_of (d_shared ?w) ?t) (stale (d_shared ?w) ?t)"
      by (simp add: Let_def spec_exit_drms_def)
  qed (simp_all add: Let_def spec_exit_drms_def)
  have "dthread_ok F ?td (butlast ?fs) l'"
    unfolding dthread_ok_def
  proof (intro conjI allI impI)
    have g: "get_ri ?td = get_ri td'" "routines_inv ?td = routines_inv td'"
      by (rule get_ri_cong routines_inv_cong; simp)+
    show "t_skip ?td = 0" using T(1) by (simp add: X(3))
    show "routines_inv ?td" unfolding g by (rule X(9))
    show "unat (stack_depth ?td) = length (butlast ?fs)" using T(3) d by (simp add: depth depth_pred)
    show "routine_info (stack ?td i) = butlast ?fs ! i" if "i < length (butlast ?fs)" for i
      using that T(4) d by (simp add: exited_routine_info [OF x(2)] nth_butlast)
    show "droutine F ?td (butlast ?fs) l' k" for k
      by (rule droutine_exit [OF T(5) refl ok fn _ x(4) x(5)]) (simp add: g x(3))
  qed
  moreover have "act_ids ?td \<subseteq> act_ids td"
    using T(3) by (auto simp: act_ids_def depth depth_pred X(10) add_to_parent_def)
  ultimately have "dsim F sh (put_td rt ?t ?td) ?w"
    using lw D(9) by (intro dsim_thread [OF S rel, of ?td]) (auto simp: put_td_def Let_def D(7,10) spec_exit_drms_def)
  with e show ?thesis by blast
qed

lemma dstep_ok:
  assumes S: "dsim F sh rt w" and ok: "devent_ok F ev w"
  shows "\<exists>rt'. dtool iov ev rt = Inr rt' \<and> dsim F sh rt' (dspec F sh ev w)"
proof (cases ev)
  case (DEnter f csp)
  from S have "current_tdata rt = Some (d_cur w)" by (rule dsimD)
  with dstep_Enter [OF S, of f csp] ok DEnter show ?thesis by simp
next
  case DExit
  with dstep_Exit [OF S] ok show ?thesis by simp
next
  case (DAccess type addr n)
  with dstep_Access [OF S] ok show ?thesis by simp
next
  case (DSyscall no args r)
  with dstep_Syscall [OF S] ok show ?thesis by blast
next
  case (DSwitch tid)
  with dstep_Switch [OF S] ok show ?thesis by simp
qed

fun drun :: "(u64 \<Rightarrow> u64 \<Rightarrow> (u64 \<times> u64) list) \<Rightarrow> devent list \<Rightarrow> Runtime \<Rightarrow> Runtime res" where
  "drun iov [] rt = Inr rt"
| "drun iov (e # es) rt = bindR (dtool iov e rt) (drun iov es)"

fun dspec_run :: "(u64 \<Rightarrow> Function option) \<Rightarrow> u32 \<Rightarrow> devent list \<Rightarrow> dworld \<Rightarrow> dworld" where
  "dspec_run F sh [] w = w"
| "dspec_run F sh (e # es) w = dspec_run F sh es (dspec F sh e w)"

fun drun_ok :: "(u64 \<Rightarrow> Function option) \<Rightarrow> u32 \<Rightarrow> devent list \<Rightarrow> dworld \<Rightarrow> bool" where
  "drun_ok F sh [] w = True"
| "drun_ok F sh (e # es) w = (devent_ok F e w \<and> drun_ok F sh es (dspec F sh e w))"

lemma drun_sim:
  assumes "dsim F sh rt w" "drun_ok F sh es w"
  shows "\<exists>rt'. drun iov es rt = Inr rt' \<and> dsim F sh rt' (dspec_run F sh es w)"
  using assms
proof (induction es arbitrary: rt w)
  case (Cons e es)
  from Cons.prems(2) have "devent_ok F e w" by simp
  from dstep_ok [OF Cons.prems(1) this] obtain rt1 where "dtool iov e rt = Inr rt1" "dsim F sh rt1 (dspec F sh e w)" by blast
  with Cons.IH [OF this(2)] Cons.prems(2) show ?case by simp
qed simp

section \<open>From the start of the tool\<close>

definition plain_drms :: "u32 \<Rightarrow> Runtime \<Rightarrow> bool" where
  "plain_drms sh rt \<longleftrightarrow> input_metric (cfg rt) = DRMS \<and> \<not> collect_CCT (cfg rt) \<and> \<not> single_report (cfg rt) \<and>
     dope_fn (cfg rt) = None \<and> memory_resolution (cfg rt) = 2 ^ unat sh \<and>
     (\<exists>g. global_shadow_memory rt = Some g \<and> lk_inv g \<and> res_shift g = sh \<and> LK_sm g = (\<lambda>_. 0)) \<and>
     global_counter rt = 1 \<and> threads rt = (\<lambda>_. None) \<and> running_threads rt = 0 \<and> current_tdata rt = None"

definition shared0 :: shared where
  "shared0 = \<lparr>frames_of = (\<lambda>_. []), stale = (\<lambda>_. {}), by_kernel = {}\<rparr>"

definition dworld0 :: "nat \<Rightarrow> dworld" where
  "dworld0 t = \<lparr>d_cur = t, d_shared = shared0, d_fns = (\<lambda>_. []), d_log = (\<lambda>_ _. []), d_count = 2\<rparr>"

lemma plain_drms_rel: "plain_drms sh rt \<Longrightarrow> drms_rel t True sh rt shared0"
proof -
  assume p: "plain_drms sh rt"
  then obtain g where g: "global_shadow_memory rt = Some g" "lk_inv g" "res_shift g = sh" "LK_sm g = (\<lambda>_. 0)"
    unfolding plain_drms_def by blast
  have "TS 0 = 0" "\<not> SYSCALL 0" by (simp_all add: TS_def SYSCALL_def)
  with p g show ?thesis
    by (intro drms_relI [where g = g]) (simp_all add: plain_drms_def shared0_def MAX_COUNT_VAL_def)
qed

lemma drms_start:
  assumes p: "plain_drms sh rt" and tid: "tid \<noteq> 0" "tid \<noteq> current_TID rt" "tid_slot tid < VG_N_THREADS"
  shows "\<exists>rt1. thread_switch rt tid = Inr rt1 \<and> dsim (fns rt) sh rt1 (dworld0 (tid_slot tid))"
proof -
  have c: "global_counter rt + 1 < MAX_COUNT_VAL" "\<forall>s. current_tdata rt = Some s \<longrightarrow> threads rt s \<noteq> None"
    using p by (simp_all add: plain_drms_def MAX_COUNT_VAL_def)
  from drms_thread_switch [OF plain_drms_rel [OF p] tid c] obtain rt' td where r:
    "thread_switch rt tid = Inr rt'" "current_tdata rt' = Some (tid_slot tid)" "current_TID rt' = tid"
    "drms_rel (tid_slot tid) True sh rt' shared0" "cfg rt' = cfg rt" "fns rt' = fns rt"
    "global_counter rt' = global_counter rt + 1" "threads rt' (tid_slot tid) = Some td"
    "threads rt (tid_slot tid) = None \<longrightarrow> stack_depth td = 0 \<and> t_skip td = 0 \<and> routines_inv td \<and> (\<forall>f. get_ri td f = Inl NullDeref)"
    "\<forall>s. threads rt s = None \<longrightarrow> s \<noteq> tid_slot tid \<longrightarrow> threads rt' s = None"
    "running_threads rt' = running_threads rt + (if threads rt (tid_slot tid) = None then 1 else 0)"
    by (elim exE conjE) (rule that, assumption+)
  have "slots_apart rt'"
    by (rule slots_apart_switch [OF slots_apart_empty [of rt] tid(3) r(8) _ _ r(10,11)])
      (use p r(9) in \<open>auto simp: plain_drms_def act_ids_def\<close>)
  note apart = this
  have th: "threads rt' s = (if s = tid_slot tid then Some td else None)" for s
    using r(8,10) p by (simp add: plain_drms_def)
  have "dthread_ok (fns rt) td [] (\<lambda>_. [])"
    using r(9) p by (simp add: plain_drms_def dthread_ok_def droutine_def)
  then have "dsim (fns rt) sh rt' (dworld0 (tid_slot tid))"
    unfolding dsim_def using r(2-7) p apart by (auto simp: th dworld0_def shared0_def plain_drms_def split: if_splits)
  with r(1) show ?thesis by blast
qed

text \<open>What a tuple says of the calls it summarises.\<close>

definition drms_tuple :: "u32 \<Rightarrow> dentry list \<Rightarrow> Input option \<Rightarrow> bool" where
  "drms_tuple sz ds i = (case i of
     None \<Rightarrow> ds = []
   | Some i \<Rightarrow> ds \<noteq> [] \<and> i_input_size i = ucast sz \<and> calls i = of_nat (length ds) \<and>
       sum_cumul_syscall i = sum_list (map (\<lambda>(_, k, _, _, _). k) ds) \<and>
       sum_cumul_thread i = sum_list (map (\<lambda>(_, _, p, _, _). p) ds) \<and>
       sum_self_syscall i = sum_list (map (\<lambda>(_, _, _, k, _). k) ds) \<and>
       sum_self_thread i = sum_list (map (\<lambda>(_, _, _, _, p). p) ds))"

lemma stats_sums:
  assumes "map stats_of ss = map snd ds"
  shows "length ss = length ds"
    "sum_list (map s_cumul_syscall ss) = sum_list (map (\<lambda>(_, k, _, _, _). k) ds)"
    "sum_list (map s_cumul_thread ss) = sum_list (map (\<lambda>(_, _, p, _, _). p) ds)"
    "sum_list (map s_self_syscall ss) = sum_list (map (\<lambda>(_, _, _, k, _). k) ds)"
    "sum_list (map s_self_thread ss) = sum_list (map (\<lambda>(_, _, _, _, p). p) ds)"
  using assms
proof (induction ds arbitrary: ss)
  case (Cons d ds)
  { case 1 with Cons.IH(1) show ?case by (auto simp: map_eq_Cons_conv) }
  { case 2 with Cons.IH(2) show ?case by (auto simp: map_eq_Cons_conv stats_of_def split: prod.splits) }
  { case 3 with Cons.IH(3) show ?case by (auto simp: map_eq_Cons_conv stats_of_def split: prod.splits) }
  { case 4 with Cons.IH(4) show ?case by (auto simp: map_eq_Cons_conv stats_of_def split: prod.splits) }
  { case 5 with Cons.IH(5) show ?case by (auto simp: map_eq_Cons_conv stats_of_def split: prod.splits) }
qed simp_all

lemma dsim_profile:
  assumes S: "dsim F sh rt w" and F: "F f = Some fn" "\<not> discard fn"
  shows "drms_tuple sz (filter (\<lambda>e. fst e = sz) (d_log w t f)) (profile rt t f sz)"
proof (cases "threads rt t")
  case None
  with S have "d_log w t = (\<lambda>_. [])" unfolding dsim_def by blast
  with None show ?thesis by (simp add: drms_tuple_def profile_def)
next
  case (Some td)
  with S have "dthread_ok F td (d_fns w t) (d_log w t)" unfolding dsim_def by blast
  then have R: "droutine F td (d_fns w t) (d_log w t) f" by (simp add: dthread_ok_def)
  show ?thesis
  proof (cases "get_ri td f")
    case (Inl e)
    with R Some show ?thesis by (simp add: drms_tuple_def profile_def droutine_def)
  next
    case (Inr ri)
    with R F obtain m obs where m: "input_map ri = OwnMap m" "map_rel False m obs" "stats_ok obs (d_log w t f)"
      by (auto simp: droutine_def)
    have e: "map stats_of (obs (None, sz)) = map snd (filter (\<lambda>e. fst e = sz) (d_log w t f))"
      using m(3) unfolding stats_ok_def by blast
    note L = stats_sums [OF e]
    have p: "profile rt t f sz = (if obs (None, sz) = [] then None else Some (tuple_of (ucast sz) 0 (obs (None, sz))))"
      using Some Inr m(1) map_rel_lookup [OF m(2), of sz] by (simp add: profile_def)
    show ?thesis
    proof (cases "obs (None, sz) = []")
      case True
      with L(1) p show ?thesis by (simp add: drms_tuple_def)
    next
      case False
      with L(1) have "filter (\<lambda>e. fst e = sz) (d_log w t f) \<noteq> []" by (metis length_0_conv)
      with False p L show ?thesis by (simp add: drms_tuple_def tuple_of_def)
    qed
  qed
qed

text \<open>A run to try it on: thread 1 writes two cells in \<open>main\<close>, thread 2 reads one of them twice and
  a third cell in \<open>f\<close>, and reads it again after the kernel wrote it.\<close>

definition sample_drms :: Runtime where
  "sample_drms = (case init (default_params\<lparr>input_metric := DRMS\<rparr>) ''prog'' [] 0 of Inr rt \<Rightarrow>
     rt\<lparr>fns := sample_fns\<rparr> | Inl _ \<Rightarrow> undefined)"

definition sample_devents :: "devent list" where
  "sample_devents = [DEnter 1 4096, DAccess STORE 64 8, DSwitch 2, DEnter 2 8192, DAccess LOAD 64 4, DAccess LOAD 64 4,
     DAccess LOAD 128 4, DSyscall NR_read (\<lambda>_. 64) 4, DAccess LOAD 64 4, DExit]"

lemma sample_drms_start: "plain_drms 2 sample_drms" "current_TID sample_drms = 0" "fns sample_drms = sample_fns"
proof -
  obtain g where g: "LK_create 4 = Inr g" "lk_inv g" "LK_sm g = (\<lambda>_. 0)" "res_shift g = 2"
    using LK_create_shift [of "2 :: u32"] by auto
  then show "plain_drms 2 sample_drms" "current_TID sample_drms = 0" "fns sample_drms = sample_fns"
    by (simp_all add: sample_drms_def init_def default_params_def plain_drms_def VG_INVALID_THREADID_def)
qed

lemmas dsample_eval = sample_devents_def dworld0_def shared0_def spec_enter_drms_def spec_exit_drms_def spec_write_def spec_read_def
  spec_kernel_write_def frames_read_def frame_read_def frames_touch_def dframe0_def dentry_of_def kernel_buffer_def NR_defs
  cells_of_def discards_def sample_fns_def sample_fn_def tid_slot_def range_ok_def MAX_STACK_SIZE_def VG_N_THREADS_def

lemma sample_drms_log: "drun_ok sample_fns 2 sample_devents (dworld0 0)"
  "d_log (dspec_run sample_fns 2 sample_devents (dworld0 0)) 1 2 = [(3, 1, 1, 1, 1)]"
  by (simp_all add: dsample_eval Let_def)



section \<open>Reachable states\<close>

text \<open>The states the tool reaches.\<close>

inductive reachable :: "(u64 \<Rightarrow> u64 \<Rightarrow> (u64 \<times> u64) list) \<Rightarrow> u32 \<Rightarrow> Runtime \<Rightarrow> dworld \<Rightarrow> bool" for iov sh where
  start: "plain_drms sh rt \<Longrightarrow> tid \<noteq> 0 \<Longrightarrow> tid \<noteq> current_TID rt \<Longrightarrow> tid_slot tid < VG_N_THREADS \<Longrightarrow>
     thread_switch rt tid = Inr rt' \<Longrightarrow> reachable iov sh rt' (dworld0 (tid_slot tid))"
| event: "reachable iov sh rt w \<Longrightarrow> devent_ok (fns rt) e w \<Longrightarrow> dtool iov e rt = Inr rt' \<Longrightarrow>
     reachable iov sh rt' (dspec (fns rt) sh e w)"

lemma reachable_sim: "reachable iov sh rt w \<Longrightarrow> dsim (fns rt) sh rt w"
proof (induction rule: reachable.induct)
  case (start rt tid rt')
  from drms_start [OF start(1-4)] start(5) have "dsim (fns rt) sh rt' (dworld0 (tid_slot tid))" by auto
  moreover then have "fns rt' = fns rt" by (simp add: dsim_def)
  ultimately show ?case by simp
next
  case (event rt w e rt')
  from dstep_ok [OF event(4,2), of iov] event(3) have "dsim (fns rt) sh rt' (dspec (fns rt) sh e w)" by auto
  moreover then have "fns rt' = fns rt" by (simp add: dsim_def)
  ultimately show ?case by simp
qed

lemma reachable_drun:
  assumes "reachable iov sh rt w" "drun_ok (fns rt) sh es w" "drun iov es rt = Inr rt'"
  shows "reachable iov sh rt' (dspec_run (fns rt) sh es w)"
  using assms
proof (induction es arbitrary: rt w)
  case (Cons e es)
  from Cons.prems(3) obtain rt1 where e: "dtool iov e rt = Inr rt1" "drun iov es rt1 = Inr rt'"
    by (auto simp: bindR_eq_Inr)
  have ok: "devent_ok (fns rt) e w" using Cons.prems(2) by simp
  have r1: "reachable iov sh rt1 (dspec (fns rt) sh e w)" by (rule reachable.event [OF Cons.prems(1) ok e(1)])
  from dstep_ok [OF reachable_sim [OF Cons.prems(1)] ok, of iov] e(1) have "fns rt1 = fns rt"
    by (auto simp: dsim_def)
  with Cons.IH [OF r1 _ e(2)] Cons.prems(2) show ?case by simp
qed simp

lemma reachable_threads_ok:
  assumes "reachable iov sh rt w"
  shows "\<exists>g. drms_threads_ok rt g"
proof -
  have S: "dsim (fns rt) sh rt w" by (rule reachable_sim [OF assms])
  then obtain td fresh where "drms_rel (d_cur w) fresh sh rt (d_shared w)" by (rule dsimD)
  then obtain g where R: "global_shadow_memory rt = Some g" "lk_inv g" "res_shift g = sh"
    "\<forall>t td. threads rt t = Some td \<longrightarrow> res_shift (shadow_memory td) = sh \<and>
       dthread td (global_counter rt) (LK_sm g) (frames_of (d_shared w) t) (stale (d_shared w) t) \<and>
       (t \<noteq> d_cur w \<or> fresh \<longrightarrow> (\<forall>c. LK_sm (shadow_memory td) c < global_counter rt))" by (rule drms_relD)
  have "drms_thread_ok g td" if t: "threads rt t = Some td" for t td
  proof -
    from S t have d: "length (frames_of (d_shared w) t) = unat (stack_depth td)"
      unfolding dsim_def dthread_ok_def by metis
    from R(4) t have D: "dthread td (global_counter rt) (LK_sm g) (frames_of (d_shared w) t) (stale (d_shared w) t)"
      "res_shift (shadow_memory td) = sh" by blast+
    from dthreadD(1,2,4) [OF D(1)] D(2) R(3) show ?thesis unfolding d by (auto simp: drms_thread_ok_def ids_ok_def)
  qed
  with R(1,2) S show ?thesis by (auto simp: drms_threads_ok_def dsim_def)
qed

lemma sample_reachable:
  "\<exists>rt td. reachable (\<lambda>_ _. []) 2 rt (dspec_run sample_fns 2 (butlast sample_devents) (dworld0 0)) \<and> threads rt 1 = Some td"
proof -
  have slot: "tid_slot 1 = 0" by (simp add: tid_slot_def)
  have start: "plain_drms 2 sample_drms" "(1 :: u32) \<noteq> 0" "1 \<noteq> current_TID sample_drms" "tid_slot 1 < VG_N_THREADS"
    using sample_drms_start by (simp_all add: slot VG_N_THREADS_def)
  from drms_start [OF start] obtain rt1 where
    r1: "thread_switch sample_drms 1 = Inr rt1" "dsim sample_fns 2 rt1 (dworld0 0)"
    unfolding slot sample_drms_start(3) by blast
  have F: "fns rt1 = sample_fns" using r1(2) by (simp add: dsim_def)
  have R1: "reachable (\<lambda>_ _. []) 2 rt1 (dworld0 0)" using reachable.start [OF start r1(1)] unfolding slot .
  have ok: "drun_ok sample_fns 2 (butlast sample_devents) (dworld0 0)" by (simp_all add: dsample_eval Let_def)
  from drun_sim [OF r1(2) ok, of "\<lambda>_ _. []"] obtain rt where
    r2: "drun (\<lambda>_ _. []) (butlast sample_devents) rt1 = Inr rt" "dsim sample_fns 2 rt (dspec_run sample_fns 2 (butlast sample_devents) (dworld0 0))"
    by blast
  have R: "reachable (\<lambda>_ _. []) 2 rt (dspec_run sample_fns 2 (butlast sample_devents) (dworld0 0))"
    using reachable_drun [OF R1 _ r2(1)] ok by (simp add: F)
  have "d_cur (dspec_run sample_fns 2 (butlast sample_devents) (dworld0 0)) = 1" by (simp add: dsample_eval Let_def)
  with r2(2) obtain td where "threads rt 1 = Some td" by (auto simp: dsim_def)
  with R show ?thesis by blast
qed





text \<open>C26. A system call by which the kernel reads a buffer of the running thread (\<open>write\<close>, \<open>sendto\<close>,
  \<open>pwrite64\<close>) does to the state what a load of the buffer by the thread does, although the code walks the
  buffer cell by cell instead of once.\<close>

theorem write_syscall_is_a_load:
  assumes "no \<in> {NR_write, NR_sendto, NR_pwrite64}" "current_tdata rt = Some t" "threads rt t = Some td"
    and "memory_resolution (cfg rt) = 2 ^ unat (sh :: u32)" "unat sh \<le> 4"
    and "0 < unat r" "unat r < 2 ^ 31 - 16" "unat (args 1) + unat r \<le> 2 ^ 46"
  shows "post_syscall iov (current_TID rt) no args \<lparr>isError = False, sr_Res = r\<rparr> rt = trace_access_drms rt LOAD (args 1) r False"
proof -
  have no: "no \<notin> {NR_readv, NR_preadv, NR_writev, NR_pwritev}" using assms(1) by (auto simp: NR_defs)
  have k: "kernel_buffer no args r = Some (False, args 1, unat r)" using assms(1) by (auto simp: kernel_buffer_def NR_defs)
  have "post_syscall iov (current_TID rt) no args \<lparr>isError = False, sr_Res = r\<rparr> rt = syscall_access iov False no args r rt"
    by (simp add: post_syscall_def)
  also have "\<dots> = buffer_access LOAD (args 1) (int (unat r)) rt"
    by (subst syscall_buffer [OF no]) (use k assms(7) in simp_all)
  also have "\<dots> = trace_access_drms rt LOAD (args 1) (of_nat (unat r)) False"
    by (rule buffer_load_eq [OF assms(4,5) _ _ _ assms(2,3)]) (use assms(6-8) in simp_all)
  finally show ?thesis by simp
qed

theorem write_syscall_is_a_load_witness:
  "\<forall>iov. \<exists>rt. thread_switch sample_drms 1 = Inr rt \<and>
     post_syscall iov (current_TID rt) NR_write (\<lambda>_. 64) \<lparr>isError = False, sr_Res = 4\<rparr> rt = trace_access_drms rt LOAD 64 4 False"
proof
  fix iov :: "u64 \<Rightarrow> u64 \<Rightarrow> (u64 \<times> u64) list"
  have slot: "tid_slot 1 = 0" by (simp add: tid_slot_def)
  have start: "plain_drms 2 sample_drms" "(1 :: u32) \<noteq> 0" "1 \<noteq> current_TID sample_drms" "tid_slot 1 < VG_N_THREADS"
    using sample_drms_start by (simp_all add: slot VG_N_THREADS_def)
  from drms_start [OF start] obtain rt where
    r: "thread_switch sample_drms 1 = Inr rt" "dsim (fns sample_drms) 2 rt (dworld0 (tid_slot 1))" by blast
  from r(2) obtain td fresh where D: "current_tdata rt = Some (d_cur (dworld0 (tid_slot 1)))"
    "drms_rel (d_cur (dworld0 (tid_slot 1))) fresh 2 rt (d_shared (dworld0 (tid_slot 1)))"
    "threads rt (d_cur (dworld0 (tid_slot 1))) = Some td" by (rule dsimD)
  have "memory_resolution (cfg rt) = 2 ^ unat (2 :: u32)" using D(2) by (simp add: drms_rel_def)
  with write_syscall_is_a_load [of NR_write rt _ td 2 4 "\<lambda>_. 64" iov] D(1,3) r(1)
  show "\<exists>rt. thread_switch sample_drms 1 = Inr rt \<and>
     post_syscall iov (current_TID rt) NR_write (\<lambda>_. 64) \<lparr>isError = False, sr_Res = 4\<rparr> rt = trace_access_drms rt LOAD 64 4 False"
    by simp
qed

end
