(* ===== verification/Helper.thy ===== *)
theory Helper
  imports Merge
begin

text \<open>
  \<open>extra/aprof-helper.c\<close>: the separate program that merges the reports found in a directory.  It is
  linked with the same \<open>merge.c\<close>, \<open>report.c\<close>, \<open>util.c\<close> and \<open>hashtable.c\<close>, built with \<open>EXTERNAL\<close>: the
  squares are then of type \<open>double\<close> and the application is compared only without \<open>merge_all\<close>.  That
  build of \<open>merge_report\<close> and \<open>print_report\<close> and the system calls are the parameters \<open>HEnv\<close>; theory
  Merge has the build of the profiler itself.
\<close>

section \<open>The state\<close>

text \<open>\<open>Runtime\<close> with the fields that are left when \<open>APROF_TOOL\<close> is not set.\<close>

record HRuntime =
  h_obj_ht :: "nat HashTable option"
  h_objs :: "Object list"
  h_fn_ht :: "u64 HashTable option"
  h_fns :: "u64 \<Rightarrow> Function option"
  h_binary_mtime :: u64
  h_application :: "string option"
  h_cmd_line :: "string option"
  h_extra_cost :: u64
  h_next_function_id :: u32
  h_memory_resolution :: u32
  h_input_metric :: input_metric_t
  h_collect_CCT :: bool
  consistency :: bool
  compare_reports :: bool
  merge_all :: bool
  merge_runs :: bool
  merge_threads :: bool
  sqr_cumul_overflow :: bool
  sqr_self_overflow :: bool
  total_real_cost :: u64
  total_self_cost :: u64
  total_cumul_thread :: u64
  total_cumul_syscall :: u64
  total_self_thread :: u64
  total_self_syscall :: u64

text \<open>\<open>clean_data\<close> frees the functions of the table; the objects stay allocated in \<open>h_objs\<close>, where
  nothing refers to them any more.\<close>

definition clean_data :: "HRuntime \<Rightarrow> HRuntime" where
  "clean_data rep = (case h_fn_ht rep of
     None \<Rightarrow> rep
   | Some h \<Rightarrow> rep\<lparr>h_fns := (\<lambda>k. if k \<in> set (map val (HT_destruct h)) then None else h_fns rep k)\<rparr>)"

definition reset_data :: "HRuntime \<Rightarrow> HRuntime" where
  "reset_data rep = (clean_data rep)
     \<lparr>merge_threads := False, sqr_cumul_overflow := False, sqr_self_overflow := False,
      total_real_cost := 0, total_self_cost := 0, total_cumul_thread := 0, total_cumul_syscall := 0,
      total_self_thread := 0, total_self_syscall := 0, h_next_function_id := 0,
      h_cmd_line := None, h_application := None, h_memory_resolution := 0,
      h_fn_ht := Some (HT_construct True), h_obj_ht := Some (HT_construct True), h_input_metric := INVALID\<rparr>"

section \<open>The C library\<close>

text \<open>\<open>strtoll\<close> with base 10, which \<open>strtoull10\<close> stands for in this program: blanks, a sign, digits;
  the value stays within 64 bits.\<close>

fun digits_value :: "nat \<Rightarrow> string \<Rightarrow> nat" where
  "digits_value n [] = n"
| "digits_value n (c # s) = (if is_dec_digit c then digits_value (10 * n + (of_char c - 48)) s else n)"

definition libc_strtoll :: "string \<Rightarrow> int" where
  "libc_strtoll str =
     (case dropWhile isspace str of
        [] \<Rightarrow> 0
      | c # s \<Rightarrow>
          (if c = CHR ''-'' then max (- (2 ^ 63)) (- int (digits_value 0 s))
           else min (2 ^ 63 - 1) (int (digits_value 0 (if c = CHR ''+'' then s else c # s)))))"

definition strip_slashes :: "string \<Rightarrow> string" where
  "strip_slashes s = rev (dropWhile (\<lambda>c. c = CHR ''/'') (rev s))"

definition dirname :: "string \<Rightarrow> string" where
  "dirname path =
     (let s = strip_slashes path;
          d = rev (dropWhile (\<lambda>c. c \<noteq> CHR ''/'') (rev s))
      in if s = [] then (if path = [] then ''.'' else if path = ''//'' then ''//'' else ''/'')
         else if d = [] then ''.''
         else if strip_slashes d = [] then (if d = ''//'' then ''//'' else ''/'')
         else strip_slashes d)"

text \<open>\<open>sprintf\<close> into a buffer of \<open>n\<close> bytes.\<close>

definition sprintf_buf :: "nat \<Rightarrow> string \<Rightarrow> string res" where
  "sprintf_buf n s = (if length s < n then Inr s else Inl OutOfBounds)"

section \<open>The process and the thread in the name of a report\<close>

text \<open>\<open>while (p > rep && *p != '_') p--; if (!(p-- > rep)) return -1;\<close> on the characters up to \<open>p\<close>,
  the last one first.\<close>

definition skip_field :: "string \<Rightarrow> string option" where
  "skip_field p = (let rest = dropWhile (\<lambda>c. c \<noteq> CHR ''_'') p in if length rest \<le> 1 then None else Some (tl rest))"

definition before_tid :: "string \<Rightarrow> string option" where
  "before_tid rep = Option.bind (match_back ''forpa.'' (rev rep)) (\<lambda>p. Option.bind (skip_field p) skip_field)"

definition get_pid_report :: "string \<Rightarrow> u32" where
  "get_pid_report report =
     (let rep = basename report
      in case before_tid rep of
           None \<Rightarrow> - 1
         | Some p \<Rightarrow> of_int (libc_strtoll (drop (length (dropWhile (\<lambda>c. c \<noteq> CHR ''_'') p)) rep)))"

text \<open>After the two steps back over the field of the thread, a single \<open>p++\<close> leads to the underscore in
  front of it.\<close>

definition get_tid_report :: "string \<Rightarrow> u32" where
  "get_tid_report report =
     (let rep = basename report
      in case before_tid rep of
           None \<Rightarrow> - 1
         | Some p \<Rightarrow> of_int (libc_strtoll (drop (length p) rep)))"

section \<open>The scan over the list of reports\<close>

text \<open>
  Both merging functions go round the list with the same \<open>while (1)\<close>: the first report left becomes
  the current one (\<open>first\<close>), the later ones may be taken into its group (\<open>other\<close>, with the name of the
  current report; the flag says that \<open>list[i]\<close> becomes null), and at the end of the list the group is
  closed (\<open>finish\<close>); the loop ends when a round finds nothing.
\<close>

fun scan_loop :: "(string \<Rightarrow> 'x \<Rightarrow> 'x res) \<Rightarrow> (string \<Rightarrow> string \<Rightarrow> 'x \<Rightarrow> ('x \<times> bool) res) \<Rightarrow> (string \<Rightarrow> 'x \<Rightarrow> 'x res) \<Rightarrow>
    nat \<Rightarrow> nat \<Rightarrow> string option list \<Rightarrow> nat option \<Rightarrow> 'x \<Rightarrow> 'x res" where
  "scan_loop first other finish 0 i list cur x = Inl Diverges"
| "scan_loop first other finish (Suc fuel) i list cur x =
     bindR (case list ! i of
              None \<Rightarrow> Inr (list, cur, x)
            | Some report \<Rightarrow>
                (case cur of
                   None \<Rightarrow> bindR (first report x) (\<lambda>x'. Inr (list, Some i, x'))
                 | Some c \<Rightarrow> bindR (derefR (list ! c)) (\<lambda>curr_report.
                     bindR (other curr_report report x) (\<lambda>(x', taken).
                       Inr (if taken then list[i := None] else list, cur, x')))))
       (\<lambda>(list', cur', x').
          if i + 1 = length list'
          then (case cur' of
                  None \<Rightarrow> Inr x'
                | Some c \<Rightarrow> bindR (derefR (list' ! c)) (\<lambda>curr_report.
                    bindR (finish curr_report x') (\<lambda>x''.
                      scan_loop first other finish fuel ((i + 1) mod length list') (list'[c := None]) None x'')))
          else scan_loop first other finish fuel ((i + 1) mod length list') list' cur' x')"

definition scan :: "(string \<Rightarrow> 'x \<Rightarrow> 'x res) \<Rightarrow> (string \<Rightarrow> string \<Rightarrow> 'x \<Rightarrow> ('x \<times> bool) res) \<Rightarrow> (string \<Rightarrow> 'x \<Rightarrow> 'x res) \<Rightarrow>
    string list \<Rightarrow> 'x \<Rightarrow> 'x res" where
  "scan first other finish list x =
     scan_loop first other finish (length list * (length list + 1)) 0 (map Some list) None x"

section \<open>Merging\<close>

type_synonym files = "string \<Rightarrow> string option"

datatype mkdir_result = Created | Exists | Failed

record HEnv =
  h_merge :: "files \<Rightarrow> string \<Rightarrow> HRuntime \<Rightarrow> (HRuntime \<times> bool) res"
  h_print :: "HRuntime \<Rightarrow> u64 \<Rightarrow> (string \<times> HRuntime) res"
  h_mkdir :: "string \<Rightarrow> mkdir_result"
  h_fopen :: "string \<Rightarrow> bool"
  h_system :: "string \<Rightarrow> files \<Rightarrow> files option"

text \<open>The variables of the loops.\<close>

record Scan =
  x_merged :: nat
  x_pid :: u32
  x_tid :: u32
  x_r :: HRuntime
  x_files :: files
  x_post :: "string list"

definition DIR_MERGE_THREAD :: string where "DIR_MERGE_THREAD = ''merge_by_pid''"
definition DIR_MERGE_RUNS :: string where "DIR_MERGE_RUNS = ''merge_by_cmd''"
definition DIR_MERGE_BOTH :: string where "DIR_MERGE_BOTH = ''merge_by_pid_cmd''"
definition DIR_MERGE_ALL :: string where "DIR_MERGE_ALL = ''merge_all''"

definition make_dir :: "HEnv \<Rightarrow> string \<Rightarrow> unit res" where
  "make_dir env merge_dir =
     bindR (sprintf_buf 1024 merge_dir) (\<lambda>_.
     bindR (assertR (h_mkdir env merge_dir \<noteq> Exists) ''directory already exists'') (\<lambda>_.
       assertR (h_mkdir env merge_dir = Created) ''Invalid merge directory''))"

definition save_report :: "HEnv \<Rightarrow> string \<Rightarrow> Scan \<Rightarrow> Scan res" where
  "save_report env new_rep x =
     bindR (assertR (h_fopen env new_rep) ''Can't save report'') (\<lambda>_.
     bindR (h_print env (x_r x) (h_extra_cost (x_r x))) (\<lambda>(content, r').
       Inr (x\<lparr>x_r := r', x_files := (x_files x)(new_rep := Some content), x_post := x_post x @ [new_rep], x_merged := 0\<rparr>)))"

definition must_merge :: "HEnv \<Rightarrow> string \<Rightarrow> Scan \<Rightarrow> Scan res" where
  "must_merge env report x =
     bindR (h_merge env (x_files x) report (x_r x)) (\<lambda>(r', res).
     bindR (assertR res ''Report should be merged but is invalid'') (\<lambda>_.
       Inr (x\<lparr>x_r := r', x_merged := x_merged x + 1\<rparr>)))"

text \<open>\<open>merge_by_run\<close>: the directory it writes to, and the three parts of its loop.\<close>

definition run_dir :: "HRuntime \<Rightarrow> string" where
  "run_dir r = (if merge_threads r then ''/../'' @ DIR_MERGE_BOTH
                else if merge_runs r then ''/'' @ DIR_MERGE_RUNS else ''/'' @ DIR_MERGE_ALL)"

definition run_first :: "HEnv \<Rightarrow> string \<Rightarrow> Scan \<Rightarrow> Scan res" where
  "run_first env report x =
     must_merge env report (x\<lparr>x_pid := get_pid_report report, x_tid := get_tid_report report, x_r := reset_data (x_r x)\<rparr>)"

definition run_other :: "HEnv \<Rightarrow> string \<Rightarrow> string \<Rightarrow> Scan \<Rightarrow> (Scan \<times> bool) res" where
  "run_other env cur report x =
     bindR (assertR (x_merged x > 0) ''Impossible'') (\<lambda>_.
     let r = x_r x in
     if merge_all r \<or> (x_pid x \<noteq> get_pid_report report \<and> (merge_threads r \<or> x_tid x = get_tid_report report))
     then bindR (h_merge env (x_files x) report r) (\<lambda>(r', res).
            Inr (if res then (x\<lparr>x_r := r', x_merged := x_merged x + 1\<rparr>, True) else (x\<lparr>x_r := r'\<rparr>, False)))
     else Inr (x, False))"

definition run_finish :: "HEnv \<Rightarrow> string \<Rightarrow> Scan \<Rightarrow> Scan res" where
  "run_finish env cur x =
     bindR (assertR (x_merged x > 0) ''Impossible'') (\<lambda>_.
     bindR (sprintf_buf 1024 cur) (\<lambda>buf.
     bindR (sprintf_buf 2048 (dirname buf @ run_dir (x_r x) @ ''/'' @ basename cur)) (\<lambda>new_rep.
       save_report env new_rep x)))"

definition start_scan :: "HRuntime \<Rightarrow> files \<Rightarrow> Scan" where
  "start_scan r fs = \<lparr>x_merged = 0, x_pid = 0, x_tid = 0, x_r = r, x_files = fs, x_post = []\<rparr>"

definition merge_by_run :: "HEnv \<Rightarrow> string list \<Rightarrow> HRuntime \<Rightarrow> files \<Rightarrow> (string list \<times> HRuntime \<times> files) res" where
  "merge_by_run env list r fs =
     (case list of
        [] \<Rightarrow> Inr ([], r, fs)
      | report # _ \<Rightarrow>
          bindR (sprintf_buf 1024 report) (\<lambda>buf.
          bindR (make_dir env (dirname buf @ run_dir r)) (\<lambda>_.
          bindR (scan (run_first env) (run_other env) (run_finish env) list (start_scan r fs)) (\<lambda>x.
            Inr (x_post x, x_r x, x_files x)))))"

text \<open>\<open>merge_by_thread\<close>.\<close>

definition thread_first :: "string \<Rightarrow> Scan \<Rightarrow> Scan res" where
  "thread_first report x = Inr (x\<lparr>x_pid := get_pid_report report\<rparr>)"

definition thread_other :: "HEnv \<Rightarrow> string \<Rightarrow> string \<Rightarrow> Scan \<Rightarrow> (Scan \<times> bool) res" where
  "thread_other env cur report x =
     (if x_pid x = get_pid_report report
      then bindR (if x_merged x = 0 then must_merge env cur (x\<lparr>x_r := reset_data (x_r x)\<rparr>) else Inr x) (\<lambda>x1.
           bindR (must_merge env report x1) (\<lambda>x2. Inr (x2, True)))
      else Inr (x, False))"

definition thread_finish :: "HEnv \<Rightarrow> string \<Rightarrow> Scan \<Rightarrow> Scan res" where
  "thread_finish env cur x =
     bindR (sprintf_buf 1024 cur) (\<lambda>buf.
     bindR (sprintf_buf 2048 (dirname buf @ ''/'' @ DIR_MERGE_THREAD @ ''/'' @ basename cur)) (\<lambda>new_rep.
       if x_merged x > 0 then save_report env new_rep x
       else bindR (sprintf_buf 1024 (''cp '' @ cur @ '' '' @ new_rep)) (\<lambda>cmd.
            bindR (case h_system env cmd (x_files x) of None \<Rightarrow> Inl (Assertion ''Error during copy'') | Some fs \<Rightarrow> Inr fs) (\<lambda>fs.
              Inr (x\<lparr>x_files := fs, x_post := x_post x @ [new_rep]\<rparr>)))))"

definition merge_by_thread :: "HEnv \<Rightarrow> string list \<Rightarrow> HRuntime \<Rightarrow> files \<Rightarrow> (string list \<times> HRuntime \<times> files) res" where
  "merge_by_thread env list r fs =
     (case list of
        [] \<Rightarrow> Inr ([], r, fs)
      | report # _ \<Rightarrow>
          bindR (sprintf_buf 1024 report) (\<lambda>buf.
          bindR (make_dir env (dirname buf @ ''/'' @ DIR_MERGE_THREAD)) (\<lambda>_.
          bindR (scan thread_first (thread_other env) (thread_finish env) list (start_scan r fs)) (\<lambda>x.
            Inr (x_post x, x_r x, x_files x)))))"

section \<open>The program\<close>

record HOpts =
  ho_consistency :: bool
  ho_merge_all :: bool
  ho_merge_threads :: bool
  ho_merge_runs :: bool
  ho_compare :: bool
  ho_log0 :: "string option"
  ho_log1 :: "string option"
  ho_directory :: "string option"

definition no_opts :: HOpts where
  "no_opts = \<lparr>ho_consistency = False, ho_merge_all = False, ho_merge_threads = False, ho_merge_runs = False,
     ho_compare = False, ho_log0 = None, ho_log1 = None, ho_directory = None\<rparr>"

text \<open>One round of the \<open>getopt\<close> loop: the letter \<open>getopt\<close> returns and its argument.  \<open>None\<close> is the
  \<open>return 1\<close> of a question mark.  In the case of \<open>d\<close> the leading equals sign stays: what is stepped
  over is the (null) pointer \<open>directory\<close>, which is replaced below.\<close>

definition log_arg :: "string \<Rightarrow> string" where
  "log_arg optarg = (case optarg of [] \<Rightarrow> [] | c # s \<Rightarrow> if c = CHR ''='' then s else optarg)"

definition helper_option :: "char \<Rightarrow> string \<Rightarrow> HOpts \<Rightarrow> HOpts option res" where
  "helper_option opt optarg ho =
     (if opt = CHR ''i'' then Inr (Some (ho\<lparr>ho_merge_all := True\<rparr>))
      else if opt = CHR ''a'' then Inr (Some (ho\<lparr>ho_log0 := Some (log_arg optarg)\<rparr>))
      else if opt = CHR ''b'' then Inr (Some (ho\<lparr>ho_log1 := Some (log_arg optarg)\<rparr>))
      else if opt = CHR ''c'' then Inr (Some (ho\<lparr>ho_compare := True\<rparr>))
      else if opt = CHR ''k'' then Inr (Some (ho\<lparr>ho_consistency := True\<rparr>))
      else if opt = CHR ''r'' then Inr (Some (ho\<lparr>ho_merge_runs := True\<rparr>))
      else if opt = CHR ''t'' then Inr (Some (ho\<lparr>ho_merge_threads := True\<rparr>))
      else if opt = CHR ''d'' then
        bindR (assertR (length optarg > 0 \<and> length optarg < 1024) ''path too long'') (\<lambda>_.
          Inr (Some (ho\<lparr>ho_directory := Some (if last optarg = CHR ''/'' then butlast optarg else optarg)\<rparr>)))
      else if opt = CHR ''?'' then Inr None
      else Inl (Assertion ''abort''))"

fun helper_options :: "(char \<times> string) list \<Rightarrow> HOpts \<Rightarrow> HOpts option res" where
  "helper_options [] ho = Inr (Some ho)"
| "helper_options ((opt, optarg) # opts) ho =
     bindR (helper_option opt optarg ho) (\<lambda>res. case res of None \<Rightarrow> Inr None | Some ho' \<Rightarrow> helper_options opts ho')"

text \<open>The end of a report given by name is compared with \<open>strcmp\<close>, six characters before its end.\<close>

definition bad_log :: "string option \<Rightarrow> bool res" where
  "bad_log log = (case log of
     None \<Rightarrow> Inr False
   | Some l \<Rightarrow> if length l < 6 then Inl OutOfBounds else Inr (drop (length l - 6) l \<noteq> ''.aprof''))"

text \<open>The checks after the options; \<open>None\<close> is \<open>return 1\<close>.\<close>

definition helper_checks :: "HOpts \<Rightarrow> HOpts option res" where
  "helper_checks ho =
     (if \<not> ho_merge_all ho \<and> \<not> ho_merge_runs ho \<and> \<not> ho_merge_threads ho \<and> \<not> ho_consistency ho \<and> \<not> ho_compare ho then Inr None
      else bindR (bad_log (ho_log0 ho)) (\<lambda>bad0. if bad0 then Inr None
      else bindR (bad_log (ho_log1 ho)) (\<lambda>bad1. if bad1 then Inr None
      else if ho_compare ho \<and> (ho_log0 ho = None \<or> ho_log1 ho = None) then Inr None
      else if (ho_log0 ho \<noteq> None \<or> ho_log1 ho \<noteq> None) \<and> ho_directory ho \<noteq> None then Inr None
      else
        let ho' = (if ho_merge_runs ho \<or> ho_merge_threads ho \<or> ho_compare ho \<or> ho_merge_all ho
                   then ho\<lparr>ho_consistency := False\<rparr> else ho)
        in if (ho_merge_runs ho' \<or> ho_merge_threads ho' \<or> ho_merge_all ho') \<and> ho_compare ho' then Inr None
           else if ho_merge_all ho' \<and> (ho_merge_runs ho' \<or> ho_merge_threads ho') then Inr None
           else Inr (Some ho'))))"

definition helper_runtime :: "HOpts \<Rightarrow> HRuntime" where
  "helper_runtime ho = reset_data
     \<lparr>h_obj_ht = None, h_objs = [], h_fn_ht = None, h_fns = (\<lambda>_. None), h_binary_mtime = 0, h_application = None,
      h_cmd_line = None, h_extra_cost = 0, h_next_function_id = 0, h_memory_resolution = 0, h_input_metric = RMS,
      h_collect_CCT = False, consistency = ho_consistency ho, compare_reports = False, merge_all = ho_merge_all ho,
      merge_runs = ho_merge_runs ho, merge_threads = ho_merge_threads ho, sqr_cumul_overflow = False,
      sqr_self_overflow = False, total_real_cost = 0, total_self_cost = 0, total_cumul_thread = 0,
      total_cumul_syscall = 0, total_self_thread = 0, total_self_syscall = 0\<rparr>"

text \<open>The reports: those of the directory (\<open>entries\<close> lists its files, \<open>None\<close> when it cannot be opened;
  \<open>search_reports\<close> then leaves \<open>list\<close> without a value), or the ones named.\<close>

definition helper_list :: "(string option \<Rightarrow> string list option) \<Rightarrow> HOpts \<Rightarrow> string list res" where
  "helper_list entries ho =
     (case ho_log0 ho of
        None \<Rightarrow> bindR (derefR (entries (ho_directory ho))) (\<lambda>es. Inr (search_reports (ho_directory ho) es))
      | Some l0 \<Rightarrow> Inr (l0 # (case ho_log1 ho of None \<Rightarrow> [] | Some l1 \<Rightarrow> [l1])))"

definition check_report :: "HEnv \<Rightarrow> files \<Rightarrow> string \<Rightarrow> HRuntime \<Rightarrow> HRuntime res" where
  "check_report env fs report r = bindR (h_merge env fs report (reset_data r)) (\<lambda>(r', _). Inr r')"

text \<open>The work.  The names given with \<open>-a\<close> are strings of the command line, which the merging functions
  pass to \<open>free\<close>.\<close>

definition helper_work :: "HEnv \<Rightarrow> HOpts \<Rightarrow> string list \<Rightarrow> files \<Rightarrow> (nat \<times> string list \<times> files) res" where
  "helper_work env ho list fs =
     (let r0 = helper_runtime ho in
      if ho_consistency ho then bindR (foldR (check_report env fs) list r0) (\<lambda>_. Inr (0, list, fs))
      else bindR (if ho_merge_threads ho then merge_by_thread env list r0 fs else Inr (list, r0, fs)) (\<lambda>(list1, r1, fs1).
           bindR (assertR (\<not> (ho_merge_all ho \<and> ho_merge_threads ho)) ''Invalid'') (\<lambda>_.
           bindR (if ho_merge_runs ho \<or> ho_merge_all ho then merge_by_run env list1 r1 fs1 else Inr (list1, r1, fs1)) (\<lambda>(list2, r2, fs2).
             if ho_log0 ho \<noteq> None \<and> (ho_merge_threads ho \<or> ho_merge_runs ho \<or> ho_merge_all ho) then Inl NullDeref
             else Inr (0, list2, fs2)))))"

definition helper_main :: "HEnv \<Rightarrow> (string option \<Rightarrow> string list option) \<Rightarrow> (char \<times> string) list \<Rightarrow> nat \<Rightarrow> files \<Rightarrow> (nat \<times> string list \<times> files) res" where
  "helper_main env entries opts argc fs =
     (if argc = 1 then Inr (1, [], fs)
      else bindR (helper_options opts no_opts) (\<lambda>res. case res of
             None \<Rightarrow> Inr (1, [], fs)
           | Some ho \<Rightarrow> bindR (helper_checks ho) (\<lambda>checked. case checked of
               None \<Rightarrow> Inr (1, [], fs)
             | Some ho' \<Rightarrow> bindR (helper_list entries ho') (\<lambda>list. helper_work env ho' list fs))))"

lemma until_sep:
  assumes "c \<notin> set f"
  shows "dropWhile (\<lambda>x. x \<noteq> c) (rev f @ c # p) = c # p" "takeWhile (\<lambda>x. x \<noteq> c) (rev f @ c # p) = rev f"
proof -
  have a: "x \<in> set (rev f) \<Longrightarrow> x \<noteq> c" for x using assms by auto
  show "dropWhile (\<lambda>x. x \<noteq> c) (rev f @ c # p) = c # p" using dropWhile_append2 [of "rev f", OF a] by simp
  show "takeWhile (\<lambda>x. x \<noteq> c) (rev f @ c # p) = rev f" using takeWhile_append2 [of "rev f", OF a] by simp
qed

text \<open>What \<open>p\<close> has behind it: an underscore.\<close>

lemma match_back_suffix: "match_back xs s = Some p \<Longrightarrow> \<exists>pre. s = pre @ p"
proof (induction xs s rule: match_back.induct)
  case (3 x xs c p')
  then obtain pre where "p' = pre @ p" by (auto split: if_splits)
  then have "c # p' = (c # pre) @ p" by simp
  then show ?case by blast
qed auto

lemma skip_field_suffix: "skip_field q = Some p \<Longrightarrow> \<exists>pre. q = pre @ CHR ''_'' # p"
proof -
  assume a: "skip_field q = Some p"
  let ?r = "dropWhile (\<lambda>c. c \<noteq> CHR ''_'') q"
  from a have r: "length ?r > 1" "p = tl ?r" by (auto simp: skip_field_def Let_def split: if_splits)
  then obtain c r' where c: "?r = c # r'" by (cases ?r) auto
  with hd_dropWhile [of "\<lambda>c. c \<noteq> CHR ''_''" q] have "c = CHR ''_''" by auto
  with c r(2) have "q = takeWhile (\<lambda>c. c \<noteq> CHR ''_'') q @ CHR ''_'' # p"
    using takeWhile_dropWhile_id [of "\<lambda>c. c \<noteq> CHR ''_''" q] by simp
  then show ?thesis by (rule exI)
qed

lemma before_tid_suffix:
  assumes "before_tid rep = Some p"
  shows "\<exists>post. rep = rev p @ CHR ''_'' # post"
proof -
  from assms obtain q q' where q: "match_back ''forpa.'' (rev rep) = Some q" "skip_field q = Some q'" "skip_field q' = Some p"
    by (auto simp: before_tid_def bind_eq_Some_conv)
  obtain a where a: "rev rep = a @ q" using match_back_suffix [OF q(1)] by auto
  obtain b where b: "q = b @ CHR ''_'' # q'" using skip_field_suffix [OF q(2)] by auto
  obtain c where c: "q' = c @ CHR ''_'' # p" using skip_field_suffix [OF q(3)] by auto
  from a b c have "rev (rev rep) = rev (a @ b @ CHR ''_'' # c @ CHR ''_'' # p)" by simp
  then show ?thesis by simp
qed

lemma get_tid_report_zero: "get_tid_report report = (if before_tid (basename report) = None then - 1 else 0)"
proof (cases "before_tid (basename report)")
  case (Some p)
  then obtain post where post: "basename report = rev p @ CHR ''_'' # post" using before_tid_suffix by blast
  have "libc_strtoll (CHR ''_'' # post) = 0"
    by (simp add: libc_strtoll_def isspace_def is_dec_digit_def)
  then show ?thesis using Some post by (simp add: get_tid_report_def Let_def)
qed (simp add: get_tid_report_def)

lemma digits_value_append:
  "\<forall>c \<in> set s. is_dec_digit c \<Longrightarrow> digits_value n (s @ s') = digits_value (digits_value n s) s'"
  by (induction s arbitrary: n) auto

lemma digits_value_dec: "digits_value 0 (dec_str n) = n"
proof (induction n rule: dec_str.induct)
  case (1 n)
  show ?case
  proof (cases "n < 10")
    case True
    then show ?thesis by (subst dec_str.simps) (simp add: is_dec_digit_digit of_char_digit)
  next
    case False
    with 1 [OF False] show ?thesis using dec_str_digits
      by (subst dec_str.simps) (simp add: digits_value_append is_dec_digit_digit of_char_digit)
  qed
qed

lemma digits_value_dec_rest: "digits_value 0 (dec_str n @ CHR ''_'' # rest) = n"
  using dec_str_digits by (simp add: digits_value_append digits_value_dec is_dec_digit_def)

lemma libc_strtoll_fmt_d: "of_int (libc_strtoll (fmt_d pid @ CHR ''_'' # rest)) = pid"
proof -
  have b: "- (2 ^ 31) \<le> sint pid" "sint pid < 2 ^ 31"
    using sint_range_size [of pid] by (simp_all add: word_size)
  have "libc_strtoll (fmt_d pid @ CHR ''_'' # rest) = sint pid"
  proof (cases "sint pid < 0")
    case True
    then show ?thesis using b
      by (simp add: fmt_d_def libc_strtoll_def isspace_def digits_value_dec_rest)
  next
    case False
    obtain c s where c: "dec_str (nat (sint pid)) = c # s" by (cases "dec_str (nat (sint pid))") auto
    then have d: "is_dec_digit c" using dec_str_digits [of c "nat (sint pid)"] by simp
    then have m: "c \<noteq> CHR ''-''" "\<not> isspace c" "c \<noteq> CHR ''+''"
      using digit_not_space by (auto simp: is_dec_digit_def)
    have "digits_value 0 (c # s @ CHR ''_'' # rest) = nat (sint pid)"
      using digits_value_dec_rest [of "nat (sint pid)" rest] c by simp
    then show ?thesis using False b m c
      by (simp add: fmt_d_def libc_strtoll_def)
  qed
  then show ?thesis by simp
qed

lemma no_underscore:
  "CHR ''_'' \<notin> set (dec_str n)" "CHR ''_'' \<notin> set (fmt_d w)" "CHR ''_'' \<notin> set (fmt_u w)"
  "CHR ''/'' \<notin> set (fmt_d w)" "CHR ''/'' \<notin> set (fmt_u w)" "fmt_d w \<noteq> []" "fmt_u w \<noteq> []"
proof -
  have n: "CHR ''_'' \<notin> set (dec_str n)" "CHR ''/'' \<notin> set (dec_str n)" for n
    using dec_str_digits [of "CHR ''_''" n] dec_str_digits [of "CHR ''/''" n] by (auto simp: is_dec_digit_def)
  then show "CHR ''_'' \<notin> set (dec_str n)" "CHR ''_'' \<notin> set (fmt_d w)" "CHR ''_'' \<notin> set (fmt_u w)"
    "CHR ''/'' \<notin> set (fmt_d w)" "CHR ''/'' \<notin> set (fmt_u w)" "fmt_d w \<noteq> []" "fmt_u w \<noteq> []"
    by (auto simp: fmt_d_def fmt_u_def)
qed

lemma skip_field_over:
  "CHR ''_'' \<notin> set f \<Longrightarrow> p \<noteq> [] \<Longrightarrow> skip_field (rev f @ CHR ''_'' # p) = Some p"
  by (cases p) (simp_all add: skip_field_def Let_def until_sep)

lemma basename_plain: "CHR ''/'' \<notin> set name \<Longrightarrow> name \<noteq> [] \<Longrightarrow> basename (dir @ ''/'' @ name) = name"
  by (simp add: basename_def until_sep)

lemma basename_no_slash: "CHR ''/'' \<notin> set (basename path)"
  unfolding basename_def using set_takeWhileD [of _ "\<lambda>c. c \<noteq> CHR ''/''" "rev path"] by auto

lemma before_tid_of_report_name:
  "before_tid (prog @ ''_'' @ fmt_d pid @ ''_'' @ fmt_u tid @ ''_'' @ fmt_d res @ ''.aprof'') = Some (rev (prog @ ''_'' @ fmt_d pid))"
proof -
  let ?p = "rev (prog @ ''_'' @ fmt_d pid)" and ?q = "rev (fmt_d res) @ CHR ''_'' # rev (fmt_u tid) @ CHR ''_'' # rev (prog @ ''_'' @ fmt_d pid)"
  have q: "tl (?q) \<noteq> []" by (cases "rev (fmt_d res)") auto
  have "match_back ''forpa.'' (''forpa.'' @ ?q) = Some ?q" using q no_underscore(6) [of res] by (auto simp: neq_Nil_conv)
  moreover have "skip_field ?q = Some (rev (fmt_u tid) @ CHR ''_'' # ?p)"
    by (rule skip_field_over) (auto simp: no_underscore)
  moreover have "skip_field (rev (fmt_u tid) @ CHR ''_'' # ?p) = Some ?p"
    by (rule skip_field_over) (auto simp: no_underscore)
  ultimately show ?thesis by (simp add: before_tid_def)
qed

lemma get_pid_of_report_name: "get_pid_report (dir @ ''/'' @ report_name pid res tid attempt prog) = pid"
  and get_tid_of_report_name: "get_tid_report (dir @ ''/'' @ report_name pid res tid attempt prog) = 0"
proof -
  obtain t where n: "report_name pid res tid attempt prog =
      basename prog @ ''_'' @ fmt_d pid @ ''_'' @ fmt_u t @ ''_'' @ fmt_d res @ ''.aprof''" (is "_ = ?n")
    unfolding report_name_def Let_def by blast
  have b: "basename (dir @ ''/'' @ ?n) = ?n"
    by (rule basename_plain) (auto simp: no_underscore basename_no_slash)
  note bt = before_tid_of_report_name [of "basename prog" pid t res]
  have d: "dropWhile (\<lambda>c. c \<noteq> CHR ''_'') (rev (basename prog @ ''_'' @ fmt_d pid)) = CHR ''_'' # rev (basename prog)"
    using until_sep(1) [OF no_underscore(2)] by simp
  have "drop (Suc (length (basename prog))) ?n = fmt_d pid @ CHR ''_'' # fmt_u t @ ''_'' @ fmt_d res @ ''.aprof''"
    by simp
  then have "get_pid_report (dir @ ''/'' @ ?n) = pid"
    unfolding get_pid_report_def Let_def b bt using d libc_strtoll_fmt_d by simp
  moreover have "get_tid_report (dir @ ''/'' @ ?n) = 0" unfolding get_tid_report_zero b bt by simp
  ultimately show "get_pid_report (dir @ ''/'' @ report_name pid res tid attempt prog) = pid"
    "get_tid_report (dir @ ''/'' @ report_name pid res tid attempt prog) = 0" unfolding n by simp_all
qed

lemma reset_data_keeps:
  "h_extra_cost (reset_data r) = h_extra_cost r" "h_binary_mtime (reset_data r) = h_binary_mtime r"
  "merge_all (reset_data r) = merge_all r" "merge_runs (reset_data r) = merge_runs r" "\<not> merge_threads (reset_data r)"
  by (simp_all add: reset_data_def clean_data_def split: option.splits)

section \<open>What the scan computes\<close>

text \<open>The groups of reports, without the cyclic loop and without the holes in the list: the first report
  takes in some of the later ones, and the rest forms the next groups.\<close>

fun absorb :: "(string \<Rightarrow> string \<Rightarrow> 'x \<Rightarrow> ('x \<times> bool) res) \<Rightarrow> string \<Rightarrow> string list \<Rightarrow> 'x \<Rightarrow> ('x \<times> string list \<times> string list) res" where
  "absorb other cur [] x = Inr (x, [], [])"
| "absorb other cur (report # reports) x =
     bindR (other cur report x) (\<lambda>(x1, taken).
     bindR (absorb other cur reports x1) (\<lambda>(x2, ms, rest).
       Inr (x2, if taken then report # ms else ms, if taken then rest else report # rest)))"

lemma absorb_partition:
  "absorb other cur reports x = Inr (x', ms, rest) \<Longrightarrow> mset ms + mset rest = mset reports"
  by (induction reports arbitrary: x x' ms rest) (fastforce simp: res_simps split: if_splits)+

lemma absorb_length: "absorb other cur reports x = Inr (x', ms, rest) \<Longrightarrow> length rest \<le> length reports"
  by (drule absorb_partition, drule arg_cong [of _ _ size]) simp

function groups :: "(string \<Rightarrow> 'x \<Rightarrow> 'x res) \<Rightarrow> (string \<Rightarrow> string \<Rightarrow> 'x \<Rightarrow> ('x \<times> bool) res) \<Rightarrow> (string \<Rightarrow> 'x \<Rightarrow> 'x res) \<Rightarrow>
    string list \<Rightarrow> 'x \<Rightarrow> (string list list \<times> 'x) res" where
  "groups first other finish [] x = Inr ([], x)"
| "groups first other finish (cur # reports) x =
     bindR (first cur x) (\<lambda>x1.
     bindR (absorb other cur reports x1) (\<lambda>(x2, ms, rest).
     bindR (finish cur x2) (\<lambda>x3.
     bindR (groups first other finish rest x3) (\<lambda>(gs, x4). Inr ((cur # ms) # gs, x4)))))"
  by pat_completeness auto
termination
  by (relation "measure (\<lambda>(_, _, _, reports, _). length reports)") (auto dest: absorb_length)

lemma groups_partition:
  "groups first other finish reports x = Inr (gs, x') \<Longrightarrow> mset (concat gs) = mset reports \<and> [] \<notin> set gs"
proof (induction first other finish reports x arbitrary: gs x' rule: groups.induct)
  case (2 first other finish cur reports x)
  from 2(2) obtain x1 x2 ms rest x3 gs' where
    a: "first cur x = Inr x1" "absorb other cur reports x1 = Inr (x2, ms, rest)" "finish cur x2 = Inr x3"
      "groups first other finish rest x3 = Inr (gs', x')" "gs = (cur # ms) # gs'"
    by (auto simp: res_simps)
  from 2(1) [OF a(1,2) _ _ a(3,4)] absorb_partition [OF a(2)] a(5) show ?case by auto
qed simp

text \<open>The list with its holes.\<close>

definition somes :: "'a option list \<Rightarrow> 'a list" where
  "somes xs = map the (filter (\<lambda>y. y \<noteq> None) xs)"

lemma somes_simps [simp]:
  "somes [] = []" "somes (None # xs) = somes xs" "somes (Some a # xs) = a # somes xs"
  "somes (xs @ ys) = somes xs @ somes ys" "somes (map Some zs) = zs"
  by (simp_all add: somes_def comp_def)

lemma somes_Nil: "(\<forall>y \<in> set xs. y = None) \<longleftrightarrow> somes xs = []"
  by (auto simp: somes_def filter_empty_conv)

lemma somes_Cons:
  assumes "somes xs = c # cs"
  shows "\<exists>pre ys. xs = pre @ Some c # ys \<and> somes pre = [] \<and> somes ys = cs"
  using assms
proof (induction xs)
  case (Cons y xs)
  show ?case
  proof (cases y)
    case None
    with Cons obtain pre ys where "xs = pre @ Some c # ys" "somes pre = []" "somes ys = cs" by auto
    with None show ?thesis by (intro exI [of _ "None # pre"] exI [of _ ys]) simp
  next
    case (Some a)
    with Cons.prems show ?thesis by (intro exI [of _ "[]"] exI [of _ xs]) simp
  qed
qed simp

fun absorb_holes :: "(string \<Rightarrow> string \<Rightarrow> 'x \<Rightarrow> ('x \<times> bool) res) \<Rightarrow> string \<Rightarrow> string option list \<Rightarrow> 'x \<Rightarrow> ('x \<times> string option list) res" where
  "absorb_holes other cur [] x = Inr (x, [])"
| "absorb_holes other cur (None # xs) x = bindR (absorb_holes other cur xs x) (\<lambda>(x', ys). Inr (x', None # ys))"
| "absorb_holes other cur (Some report # xs) x =
     bindR (other cur report x) (\<lambda>(x1, taken).
     bindR (absorb_holes other cur xs x1) (\<lambda>(x2, ys). Inr (x2, (if taken then None else Some report) # ys)))"

lemma absorb_holes_ok:
  "(case absorb_holes other cur xs x of
      Inl e \<Rightarrow> absorb other cur (somes xs) x = Inl e
    | Inr (x', ys) \<Rightarrow> length ys = length xs \<and> (\<exists>ms. absorb other cur (somes xs) x = Inr (x', ms, somes ys)))"
proof (induction other cur xs x rule: absorb_holes.induct)
  case (2 other cur xs x)
  then show ?case by (auto simp: bindR_def split: sum.splits)
next
  case (3 other cur report xs x)
  show ?case
  proof (cases "other cur report x")
    case (Inr r)
    obtain x1 t where r: "r = (x1, t)" by force
    from 3 [OF Inr] r Inr show ?thesis by (cases "absorb_holes other cur xs x1") auto
  qed simp
qed simp

text \<open>The rest of a round with a current report at \<open>c\<close>, and a whole round.\<close>

lemma scan_rest:
  assumes "xs \<noteq> []" "c < length pre" "pre ! c = Some cur"
  shows "scan_loop first other finish (length xs + fuel) (length pre) (pre @ xs) (Some c) x =
    bindR (absorb_holes other cur xs x) (\<lambda>(x', ys). bindR (finish cur x') (\<lambda>x''.
      scan_loop first other finish fuel 0 ((pre @ ys)[c := None]) None x''))"
  using assms
proof (induction xs arbitrary: pre x)
  case (Cons y xs)
  have n: "(pre @ y # xs) ! length pre = y" "(pre @ y # xs) ! c = Some cur" using Cons.prems by (simp_all add: nth_append)
  have step: "scan_loop first other finish (length xs + fuel) (Suc (length pre)) (pre @ z # xs) (Some c) x' =
      bindR (absorb_holes other cur xs x') (\<lambda>(x', ys). bindR (finish cur x') (\<lambda>x''.
        scan_loop first other finish fuel 0 ((pre @ z # ys)[c := None]) None x''))" if "xs \<noteq> []" for z x'
    using Cons.IH [of "pre @ [z]" x'] that Cons.prems by (simp add: nth_append)
  show ?case
  proof (cases "xs = []")
    case True
    then show ?thesis using Cons.prems n
      by (cases y) (auto simp: nth_append bindR_def list_update_append split: sum.splits if_splits)
  next
    case False
    then have l: "Suc (length pre) \<noteq> length pre + Suc (length xs)" by simp
    then have m: "Suc (length pre) mod (length pre + Suc (length xs)) = Suc (length pre)" using False by (cases xs) auto
    show ?thesis using n False l m step [OF False]
      by (cases y) (auto simp: bindR_def list_update_append split: sum.splits prod.splits)
  qed
qed simp
lemma scan_none:
  assumes "xs \<noteq> []" "somes xs = []"
  shows "scan_loop first other finish (length xs + fuel) (length pre) (pre @ xs) None x = Inr x"
  using assms
proof (induction xs arbitrary: pre)
  case (Cons y xs)
  then have y: "y = None" "somes xs = []" by (cases y; simp)+
  show ?case
  proof (cases "xs = []")
    case True
    then show ?thesis using y by simp
  next
    case False
    then have "Suc (length pre) mod (length pre + Suc (length xs)) = Suc (length pre)" by (cases xs) auto
    then show ?thesis using y False Cons.IH [of "pre @ [y]"] by simp
  qed
qed simp

lemma scan_find:
  assumes "somes zs = []"
  shows "scan_loop first other finish (length (zs @ Some cur # ys) + fuel) (length pre) (pre @ zs @ Some cur # ys) None x =
    bindR (first cur x) (\<lambda>x1. bindR (absorb_holes other cur ys x1) (\<lambda>(x2, ys').
    bindR (finish cur x2) (\<lambda>x3. scan_loop first other finish fuel 0 (pre @ zs @ None # ys') None x3)))"
  using assms
proof (induction zs arbitrary: pre)
  case Nil
  show ?case
  proof (cases "ys = []")
    case True
    then show ?thesis by (simp add: bindR_def split: sum.splits)
  next
    case False
    then have l: "Suc (length pre) mod (length pre + Suc (length ys)) = Suc (length pre)" by (cases ys) auto
    have "scan_loop first other finish (length ys + fuel) (length (pre @ [Some cur])) ((pre @ [Some cur]) @ ys) (Some (length pre)) x' =
      bindR (absorb_holes other cur ys x') (\<lambda>(x', ys'). bindR (finish cur x') (\<lambda>x''.
        scan_loop first other finish fuel 0 (((pre @ [Some cur]) @ ys')[length pre := None]) None x''))" for x'
      by (rule scan_rest) (use False in simp_all)
    then show ?thesis using False l by (simp add: bindR_def split: sum.splits)
  qed
next
  case (Cons y zs)
  then have y: "y = None" "somes zs = []" by (cases y; simp)+
  have "Suc (length pre) mod (length pre + Suc (length (zs @ Some cur # ys))) = Suc (length pre)" by simp
  then show ?case using y Cons.IH [OF y(2), of "pre @ [y]"] by simp
qed

lemma scan_loop_groups:
  assumes "list \<noteq> []" "length list * (length (somes list) + 1) \<le> fuel"
  shows "scan_loop first other finish fuel 0 list None x =
    bindR (groups first other finish (somes list) x) (\<lambda>(gs, x'). Inr x')"
  using assms
proof (induction "length (somes list)" arbitrary: list fuel x rule: less_induct)
  case less
  define fuel' where "fuel' = fuel - length list"
  have f: "fuel = length list + fuel'" "length list * length (somes list) \<le> fuel'"
    unfolding fuel'_def using less.prems(2) unfolding add_mult_distrib2 by linarith+
  show ?case
  proof (cases "somes list")
    case Nil
    then show ?thesis using scan_none [of list first other finish fuel' "[]" x] less.prems(1) f(1) by simp
  next
    case (Cons c cs)
    from somes_Cons [OF this] obtain zs ys where l: "list = zs @ Some c # ys" "somes zs = []" "somes ys = cs" by auto
    have sc: "scan_loop first other finish fuel 0 list None x =
        bindR (first c x) (\<lambda>x1. bindR (absorb_holes other c ys x1) (\<lambda>(x2, ys').
        bindR (finish c x2) (\<lambda>x3. scan_loop first other finish fuel' 0 (zs @ None # ys') None x3)))"
      using scan_find [OF l(2), where pre = "[]"] f(1) l(1) by simp
    have loop: "scan_loop first other finish fuel' 0 (zs @ None # ys') None x3 =
        bindR (groups first other finish (somes ys') x3) (\<lambda>(gs, x'). Inr x')"
      if "length ys' = length ys" "absorb other c cs x1 = Inr (x2, ms, somes ys')" for x1 x2 x3 ms ys'
    proof -
      have len: "length (somes ys') < length (somes list)" using absorb_length [OF that(2)] Cons by simp
      let ?l = "zs @ None # ys'"
      have e: "somes ?l = somes ys'" using l(2) by simp
      have "length ?l * (length (somes ?l) + 1) \<le> length list * length (somes list)"
        unfolding e using len that(1) l(1) by (intro mult_le_mono) simp_all
      then have b: "length ?l * (length (somes ?l) + 1) \<le> fuel'" using f(2) by (rule order_trans)
      have "length (somes ?l) < length (somes list)" unfolding e by (rule len)
      from less.hyps [OF this _ b, of x3] show ?thesis unfolding e by simp
    qed
    show ?thesis
    proof (cases "first c x")
      case (Inr x1)
      show ?thesis
      proof (cases "absorb_holes other c ys x1")
        case (Inl e)
        then show ?thesis using sc Inr absorb_holes_ok [of other c ys x1] l(3) Cons by simp
      next
        case (Inr r)
        obtain x2 ys' where r: "r = (x2, ys')" by force
        with Inr absorb_holes_ok [of other c ys x1] l(3) obtain ms where
          a: "length ys' = length ys" "absorb other c cs x1 = Inr (x2, ms, somes ys')" by auto
        show ?thesis using sc \<open>first c x = Inr x1\<close> Inr r a loop [OF a] Cons
          by (auto simp: bindR_def split: sum.splits)
      qed
    qed (simp add: sc Cons)
  qed
qed

lemma scan_groups:
  "list \<noteq> [] \<Longrightarrow> scan first other finish list x = bindR (groups first other finish list x) (\<lambda>(gs, x'). Inr x')"
  unfolding scan_def using scan_loop_groups [of "map Some list" "length list * (length list + 1)" first other finish x] by simp

section \<open>Merging by process\<close>

fun by_pid :: "string list \<Rightarrow> string list list" where
  "by_pid [] = []"
| "by_pid (report # reports) =
     (report # filter (\<lambda>n. get_pid_report n = get_pid_report report) reports) #
     by_pid (filter (\<lambda>n. get_pid_report n \<noteq> get_pid_report report) reports)"

definition merge_process :: "HEnv \<Rightarrow> string list \<Rightarrow> Scan \<Rightarrow> Scan res" where
  "merge_process env members x =
     (let x0 = x\<lparr>x_pid := get_pid_report (hd members)\<rparr> in
      if length members = 1 then thread_finish env (hd members) x0
      else bindR (foldR (must_merge env) members (x0\<lparr>x_r := reset_data (x_r x0)\<rparr>)) (thread_finish env (hd members)))"

lemma must_merge_D: "must_merge env report x = Inr x' \<Longrightarrow> x_pid x' = x_pid x \<and> x_merged x' = x_merged x + 1"
  by (auto simp: must_merge_def res_simps)

lemma thread_finish_D: "thread_finish env cur x = Inr x' \<Longrightarrow> x_merged x' = 0"
  by (auto simp: thread_finish_def save_report_def res_simps split: if_splits option.splits)

lemma thread_other_started:
  "x_merged x > 0 \<Longrightarrow> thread_other env cur report x =
    (if x_pid x = get_pid_report report then bindR (must_merge env report x) (\<lambda>x2. Inr (x2, True)) else Inr (x, False))"
  by (simp add: thread_other_def)

lemma thread_other_fresh:
  "x_merged x = 0 \<Longrightarrow> thread_other env cur report x =
    (if x_pid x = get_pid_report report
     then bindR (must_merge env cur (x\<lparr>x_r := reset_data (x_r x)\<rparr>)) (\<lambda>x1. bindR (must_merge env report x1) (\<lambda>x2. Inr (x2, True)))
     else Inr (x, False))"
  by (simp add: thread_other_def)

lemma absorb_started:
  assumes "x_merged x > 0" "x_pid x = get_pid_report cur"
  shows "absorb (thread_other env) cur reports x =
    bindR (foldR (must_merge env) (filter (\<lambda>n. get_pid_report n = get_pid_report cur) reports) x)
      (\<lambda>x'. Inr (x', filter (\<lambda>n. get_pid_report n = get_pid_report cur) reports, filter (\<lambda>n. get_pid_report n \<noteq> get_pid_report cur) reports))"
  using assms
proof (induction reports arbitrary: x)
  case (Cons report reports)
  show ?case
  proof (cases "get_pid_report report = get_pid_report cur")
    case True
    show ?thesis
    proof (cases "must_merge env report x")
      case (Inr x1)
      with must_merge_D [OF Inr] Cons.IH [of x1] Cons.prems True show ?thesis
        by (simp add: thread_other_started) (simp add: bindR_def split: sum.splits)
    qed (use True Cons.prems in \<open>simp add: thread_other_started\<close>)
  next
    case False
    with Cons show ?thesis by (simp add: thread_other_started) (simp add: bindR_def split: sum.splits)
  qed
qed simp

lemma absorb_process:
  assumes "x_merged x = 0" "x_pid x = get_pid_report cur"
  shows "absorb (thread_other env) cur reports x =
    (let same = filter (\<lambda>n. get_pid_report n = get_pid_report cur) reports
     in bindR (if same = [] then Inr x else foldR (must_merge env) (cur # same) (x\<lparr>x_r := reset_data (x_r x)\<rparr>))
          (\<lambda>x'. Inr (x', same, filter (\<lambda>n. get_pid_report n \<noteq> get_pid_report cur) reports)))"
  using assms
proof (induction reports arbitrary: x)
  case (Cons report reports)
  show ?case
  proof (cases "get_pid_report report = get_pid_report cur")
    case True
    show ?thesis
    proof (cases "must_merge env cur (x\<lparr>x_r := reset_data (x_r x)\<rparr>)")
      case (Inr x1)
      note d1 = must_merge_D [OF Inr]
      show ?thesis
      proof (cases "must_merge env report x1")
        case (Inr x2)
        with must_merge_D [OF Inr] d1 absorb_started [of x2 cur env reports] Cons.prems True \<open>must_merge env cur _ = Inr x1\<close>
        show ?thesis by (simp add: thread_other_fresh Let_def) (simp add: bindR_def split: sum.splits)
      qed (use True Cons.prems Inr in \<open>simp add: thread_other_fresh Let_def\<close>)
    qed (use True Cons.prems in \<open>simp add: thread_other_fresh Let_def\<close>)
  next
    case False
    with Cons.prems Cons.IH [OF Cons.prems] show ?thesis
      by (simp add: thread_other_fresh Let_def) (simp add: bindR_def split: sum.splits)
  qed
qed simp

lemma groups_by_pid:
  assumes "x_merged x = 0"
  shows "bindR (groups thread_first (thread_other env) (thread_finish env) reports x) (\<lambda>(gs, x'). Inr x') =
    foldR (merge_process env) (by_pid reports) x"
  using assms
proof (induction reports arbitrary: x rule: by_pid.induct)
  case (2 report reports)
  let ?x0 = "x\<lparr>x_pid := get_pid_report report\<rparr>"
  let ?same = "filter (\<lambda>n. get_pid_report n = get_pid_report report) reports"
  let ?rest = "filter (\<lambda>n. get_pid_report n \<noteq> get_pid_report report) reports"
  let ?G = "groups thread_first (thread_other env) (thread_finish env)"
  define w where "w = (if ?same = [] then Inr ?x0 else foldR (must_merge env) (report # ?same) (?x0\<lparr>x_r := reset_data (x_r ?x0)\<rparr>))"
  have a: "absorb (thread_other env) report reports ?x0 = bindR w (\<lambda>x'. Inr (x', ?same, ?rest))"
    using absorb_process [of ?x0 report env reports] 2(2) by (simp add: Let_def w_def)
  have p: "merge_process env (report # ?same) x = bindR w (thread_finish env report)"
    by (simp add: merge_process_def Let_def w_def del: foldR.simps)
  have tf: "thread_first report x = Inr ?x0" by (simp add: thread_first_def)
  have g: "?G (report # reports) x = bindR w (\<lambda>x'. bindR (thread_finish env report x') (\<lambda>x3.
      bindR (?G ?rest x3) (\<lambda>(gs, x4). Inr ((report # ?same) # gs, x4))))"
    by (simp add: tf a bindR_assoc)
  show ?case
  proof (cases "bindR w (thread_finish env report)")
    case (Inl e)
    then have "?G (report # reports) x = Inl e" unfolding g by (cases w) auto
    then show ?thesis using Inl p by simp
  next
    case (Inr x3)
    then have x3: "?G (report # reports) x = bindR (?G ?rest x3) (\<lambda>(gs, x4). Inr ((report # ?same) # gs, x4))"
      unfolding g by (cases w) auto
    from Inr have "x_merged x3 = 0" by (cases w) (auto dest: thread_finish_D)
    from 2(1) [OF this] show ?thesis unfolding x3 using Inr p
      by (cases "?G ?rest x3") auto
  qed
qed simp

lemma merge_by_thread_eq:
  "merge_by_thread env list r fs =
     (case list of
        [] \<Rightarrow> Inr ([], r, fs)
      | report # _ \<Rightarrow>
          bindR (sprintf_buf 1024 report) (\<lambda>buf.
          bindR (make_dir env (dirname buf @ ''/'' @ DIR_MERGE_THREAD)) (\<lambda>_.
          bindR (foldR (merge_process env) (by_pid list) (start_scan r fs)) (\<lambda>x.
            Inr (x_post x, x_r x, x_files x)))))"
proof (cases list)
  case (Cons report reports)
  have m: "x_merged (start_scan r fs) = 0" by (simp add: start_scan_def)
  from scan_groups [of list thread_first "thread_other env" "thread_finish env" "start_scan r fs"] groups_by_pid [OF m, of env list] Cons
  show ?thesis by (simp add: merge_by_thread_def)
qed (simp add: merge_by_thread_def)

text \<open>What every round of the scan keeps: a closed group adds one report, under the name its first report
  has, and a report once written is there.\<close>

definition written :: "Scan \<Rightarrow> bool" where
  "written x \<longleftrightarrow> (\<forall>n \<in> set (x_post x). x_files x n \<noteq> None)"

lemma basename_last: "basename (d @ ''/'' @ basename path) = basename path"
proof -
  have b: "basename (d @ ''/'' @ b) = b" if "CHR ''/'' \<notin> set b" for b
    using that by (simp add: basename_def until_sep)
  show ?thesis by (rule b [OF basename_no_slash])
qed

lemma must_merge_post: "must_merge env report x = Inr x' \<Longrightarrow> x_post x' = x_post x \<and> x_files x' = x_files x"
  by (auto simp: must_merge_def res_simps)

lemma save_report_post:
  "save_report env n x = Inr x' \<Longrightarrow> x_post x' = x_post x @ [n] \<and> (written x \<longrightarrow> written x')"
  by (auto simp: save_report_def written_def res_simps)

lemma run_first_post: "run_first env report x = Inr x' \<Longrightarrow> x_post x' = x_post x \<and> (written x \<longrightarrow> written x')"
  unfolding run_first_def by (drule must_merge_post) (simp add: written_def)

lemma run_other_post: "run_other env cur report x = Inr (x', t) \<Longrightarrow> x_post x' = x_post x \<and> (written x \<longrightarrow> written x')"
  by (auto simp: run_other_def written_def Let_def res_simps split: if_splits)

lemma run_finish_post:
  assumes "run_finish env cur x = Inr x'"
  shows "map basename (x_post x') = map basename (x_post x) @ [basename cur] \<and> (written x \<longrightarrow> written x')"
proof -
  from assms obtain d where "save_report env (d @ ''/'' @ basename cur) x = Inr x'"
    by (auto simp: run_finish_def sprintf_buf_def res_simps split: if_splits)
      (metis append.assoc append_Cons append_Nil)
  from save_report_post [OF this] show ?thesis using basename_last [of d cur] by simp
qed

lemma absorb_post:
  assumes "\<And>cur report x x' t. other cur report x = Inr (x', t) \<Longrightarrow> x_post x' = x_post x \<and> (written x \<longrightarrow> written x')"
    "absorb other cur reports x = Inr (x', ms, rest)"
  shows "x_post x' = x_post x \<and> (written x \<longrightarrow> written x')"
  using assms(2)
proof (induction reports arbitrary: x x' ms rest)
  case (Cons report reports)
  then obtain x1 t ms' rest' where "other cur report x = Inr (x1, t)" "absorb other cur reports x1 = Inr (x', ms', rest')"
    by (auto simp: res_simps)
  with Cons.IH [OF this(2)] assms(1) [OF this(1)] show ?case by simp
qed simp

lemma groups_run_post:
  "groups (run_first env) (run_other env) (run_finish env) reports x = Inr (gs, x') \<Longrightarrow>
    map basename (x_post x') = map basename (x_post x) @ map (\<lambda>g. basename (hd g)) gs \<and> (written x \<longrightarrow> written x')"
proof (induction "run_first env" "run_other env" "run_finish env" reports x arbitrary: gs x' rule: groups.induct)
  case (2 cur reports x)
  from 2(2) obtain x1 x2 ms rest x3 gs' where
    a: "run_first env cur x = Inr x1" "absorb (run_other env) cur reports x1 = Inr (x2, ms, rest)" "run_finish env cur x2 = Inr x3"
      "groups (run_first env) (run_other env) (run_finish env) rest x3 = Inr (gs', x')" "gs = (cur # ms) # gs'"
    by (auto simp: res_simps)
  from 2(1) [OF a(1,2) _ _ a(3,4)] run_first_post [OF a(1)] absorb_post [OF run_other_post a(2)] run_finish_post [OF a(3)] a(5)
  show ?case by simp
qed simp

lemma merge_by_run_groups:
  assumes "merge_by_run env list r fs = Inr (post, r', fs')"
  shows "\<exists>gs. mset (concat gs) = mset list \<and> [] \<notin> set gs \<and> map basename post = map (\<lambda>g. basename (hd g)) gs \<and>
    (\<forall>n \<in> set post. fs' n \<noteq> None)"
proof (cases list)
  case Nil
  then show ?thesis using assms by (intro exI [of _ "[]"]) (simp add: merge_by_run_def)
next
  case (Cons report reports)
  with assms scan_groups [of list "run_first env" "run_other env" "run_finish env" "start_scan r fs"]
  obtain gs x where g: "groups (run_first env) (run_other env) (run_finish env) list (start_scan r fs) = Inr (gs, x)"
    "post = x_post x" "fs' = x_files x"
    by (auto simp: merge_by_run_def res_simps)
  have "written (start_scan r fs)" by (simp add: written_def start_scan_def)
  with groups_run_post [OF g(1)] groups_partition [OF g(1)] g(2,3) show ?thesis
    by (intro exI [of _ gs]) (simp add: written_def start_scan_def)
qed

section \<open>One report for each process\<close>

lemma by_pid_partition: "mset (concat (by_pid reports)) = mset reports"
proof (induction reports rule: by_pid.induct)
  case (2 report reports)
  then show ?case using multiset_partition [of "mset reports" "\<lambda>n. get_pid_report n = get_pid_report report"] by simp
qed simp

definition pid_of :: "string list \<Rightarrow> u32" where
  "pid_of g = get_pid_report (hd g)"

lemma by_pid_heads: "pid_of ` set (by_pid reports) = get_pid_report ` set reports \<and> distinct (map pid_of (by_pid reports))"
proof (induction reports rule: by_pid.induct)
  case (2 report reports)
  let ?p = "get_pid_report report" and ?R = "filter (\<lambda>n. get_pid_report n \<noteq> get_pid_report report) reports"
  have "insert ?p (get_pid_report ` set ?R) = get_pid_report ` set (report # reports)" by auto
  moreover have "?p \<notin> get_pid_report ` set ?R" by auto
  moreover have "pid_of (report # g) = ?p" for g by (simp add: pid_of_def)
  ultimately show ?case using 2 by simp
qed simp

lemma by_pid_class: "g \<in> set (by_pid reports) \<Longrightarrow> g \<noteq> [] \<and> (\<forall>n \<in> set g. get_pid_report n = pid_of g)"
proof (induction reports rule: by_pid.induct)
  case (2 report reports)
  let ?R = "filter (\<lambda>n. get_pid_report n \<noteq> get_pid_report report) reports"
  show ?case
  proof (cases "g \<in> set (by_pid ?R)")
    case True
    from 2(1) [OF this] show ?thesis .
  next
    case False
    with 2(2) show ?thesis by (simp add: pid_of_def)
  qed
qed simp

lemma foldR_must_merge_post:
  "foldR (must_merge env) reports x = Inr x' \<Longrightarrow> x_post x' = x_post x"
proof (induction reports arbitrary: x)
  case (Cons report reports)
  then obtain x1 where "must_merge env report x = Inr x1" "foldR (must_merge env) reports x1 = Inr x'" by (auto simp: res_simps)
  with Cons.IH [OF this(2)] must_merge_post [OF this(1)] show ?case by simp
qed simp

lemma thread_finish_post:
  assumes "thread_finish env cur x = Inr x'"
  shows "map basename (x_post x') = map basename (x_post x) @ [basename cur]"
proof -
  define n where "n = dirname cur @ ''/'' @ DIR_MERGE_THREAD @ ''/'' @ basename cur"
  have b: "basename n = basename cur"
    using basename_last [of "dirname cur @ ''/'' @ DIR_MERGE_THREAD" cur] by (simp add: n_def)
  from assms have "save_report env n x = Inr x' \<or> x_post x' = x_post x @ [n]"
    by (auto simp: thread_finish_def sprintf_buf_def n_def res_simps split: if_splits option.splits)
  then show ?thesis using save_report_post [of env n x x'] b by auto
qed

lemma merge_process_post:
  assumes "merge_process env g x = Inr x'"
  shows "map basename (x_post x') = map basename (x_post x) @ [basename (hd g)]"
proof -
  from assms obtain x1 where x1: "x_post x1 = x_post x" "thread_finish env (hd g) x1 = Inr x'"
  proof (cases "length g = 1")
    case True
    with assms show ?thesis by (intro that [of "x\<lparr>x_pid := get_pid_report (hd g)\<rparr>"]) (simp_all add: merge_process_def)
  next
    case False
    with assms obtain x1 where "foldR (must_merge env) g (x\<lparr>x_pid := get_pid_report (hd g), x_r := reset_data (x_r x)\<rparr>) = Inr x1"
      "thread_finish env (hd g) x1 = Inr x'" by (auto simp: merge_process_def Let_def res_simps)
    with foldR_must_merge_post [OF this(1)] show ?thesis by (intro that [of x1]) simp_all
  qed
  from thread_finish_post [OF x1(2)] x1(1) show ?thesis by simp
qed

lemma foldR_merge_process_post:
  "foldR (merge_process env) gs x = Inr x' \<Longrightarrow>
    map basename (x_post x') = map basename (x_post x) @ map (\<lambda>g. basename (hd g)) gs"
proof (induction gs arbitrary: x)
  case (Cons g gs)
  then obtain x1 where "merge_process env g x = Inr x1" "foldR (merge_process env) gs x1 = Inr x'" by (auto simp: res_simps)
  with Cons.IH [OF this(2)] merge_process_post [OF this(1)] show ?case by simp
qed simp

lemma merge_by_thread_post:
  assumes "merge_by_thread env list r fs = Inr (post, r', fs')"
  shows "map basename post = map (\<lambda>g. basename (hd g)) (by_pid list)"
proof (cases list)
  case Nil
  with assms show ?thesis by (simp add: merge_by_thread_def)
next
  case (Cons report reports)
  with assms obtain x where x: "foldR (merge_process env) (by_pid list) (start_scan r fs) = Inr x" "post = x_post x"
    by (auto simp: merge_by_thread_eq res_simps simp del: by_pid.simps)
  from foldR_merge_process_post [OF x(1)] x(2) show ?thesis by (simp add: start_scan_def)
qed

section \<open>The options\<close>

text \<open>What the letters of the option string can set.\<close>

lemma helper_options_flags:
  assumes "helper_options opts ho = Inr (Some ho')" "\<forall>(opt, optarg) \<in> set opts. opt \<in> set ''rtkiad?''"
  shows "ho_compare ho' = ho_compare ho \<and> ho_log1 ho' = ho_log1 ho"
  using assms
proof (induction opts arbitrary: ho)
  case (Cons y opts)
  obtain opt optarg where o: "y = (opt, optarg)" by force
  with Cons.prems(1) obtain ho1 where h: "helper_option opt optarg ho = Inr (Some ho1)" "helper_options opts ho1 = Inr (Some ho')"
    by (auto simp: res_simps split: option.splits)
  have "opt \<in> set ''rtkiad?''" using Cons.prems(2) o by simp
  then have "ho_compare ho1 = ho_compare ho \<and> ho_log1 ho1 = ho_log1 ho" using h(1)
    by (auto simp: helper_option_def res_simps split: if_splits)
  with Cons.IH [OF h(2)] Cons.prems(2) show ?case by simp
qed simp

lemma helper_checks_ok:
  assumes "helper_checks ho = Inr (Some ho')" "\<not> ho_compare ho" "ho_log1 ho = None"
  shows "\<not> ho_compare ho' \<and> ho_log1 ho' = None \<and>
    (ho_consistency ho' \<longleftrightarrow> \<not> (ho_merge_all ho' \<or> ho_merge_threads ho' \<or> ho_merge_runs ho')) \<and>
    \<not> (ho_merge_all ho' \<and> (ho_merge_threads ho' \<or> ho_merge_runs ho')) \<and>
    \<not> (ho_log0 ho' \<noteq> None \<and> ho_directory ho' \<noteq> None)"
  using assms by (auto simp: helper_checks_def res_simps Let_def split: if_splits)

section \<open>Properties\<close>

text \<open>An environment in which everything works, for the examples.\<close>

definition plain_env :: HEnv where
  "plain_env = \<lparr>h_merge = (\<lambda>fs report r. Inr (r\<lparr>h_extra_cost := h_extra_cost r + 1\<rparr>, True)), h_print = (\<lambda>r cost. Inr (''k'' @ fmt_llu cost, r)),
     h_mkdir = (\<lambda>_. Created), h_fopen = (\<lambda>_. True), h_system = (\<lambda>cmd fs. Some fs)\<rparr>"

definition plain_opts :: HOpts where
  "plain_opts = no_opts\<lparr>ho_merge_runs := True, ho_merge_threads := True\<rparr>"

lemmas name_eval = get_pid_report_def get_tid_report_def basename_def before_tid_def skip_field_def libc_strtoll_def is_dec_digit_def isspace_def Let_def

lemmas helper_eval = plain_env_def sprintf_buf_def make_dir_def must_merge_def save_report_def start_scan_def

lemma example_names:
  "get_pid_report ''d/p_1_0_4.aprof'' = 1" "get_pid_report ''d/p_2_0_4.aprof'' = 2" "get_pid_report ''d/p_1_1_4.aprof'' = 1"
  "get_pid_report ''d/p_2_1_4.aprof'' = 2" "get_tid_report ''d/p_1_0_4.aprof'' = 0" "get_tid_report ''d/p_2_1_4.aprof'' = 0"
  "basename ''d/p_1_0_4.aprof'' = ''p_1_0_4.aprof''" "dirname ''d/p_1_0_4.aprof'' = ''d''"
  "basename ''d/p_2_0_4.aprof'' = ''p_2_0_4.aprof''" "dirname ''d/p_2_0_4.aprof'' = ''d''"
  by (simp_all add: name_eval dirname_def strip_slashes_def)

lemma thread_example:
  "map_sum id fst (merge_by_thread plain_env [''d/p_1_0_4.aprof'', ''d/p_2_0_4.aprof'', ''d/p_1_1_4.aprof''] (helper_runtime plain_opts) (\<lambda>_. None)) =
      Inr [''d/merge_by_pid/p_1_0_4.aprof'', ''d/merge_by_pid/p_2_0_4.aprof'']"
  by (simp add: merge_by_thread_eq helper_eval example_names merge_process_def thread_finish_def DIR_MERGE_THREAD_def)

lemma run_example:
  "map_sum id fst (merge_by_run plain_env [''d/p_1_0_4.aprof'', ''d/p_2_1_4.aprof''] (helper_runtime plain_opts) (\<lambda>_. None)) =
      Inr [''d/merge_by_cmd/p_1_0_4.aprof'']"
  by (simp add: merge_by_run_def scan_groups helper_eval example_names run_first_def run_other_def run_finish_def run_dir_def
     DIR_MERGE_RUNS_def helper_runtime_def plain_opts_def no_opts_def reset_data_keeps Let_def)

text \<open>C35. The helper reads the process out of the name a report was given, but never the thread: for
  every report that the profiler writes the thread read is zero, so that without \<open>-t\<close> reports of
  different threads are merged.\<close>

theorem helper_reads_pid_and_no_tid:
  "get_pid_report (dir @ ''/'' @ report_name pid res tid attempt prog) = pid \<and>
   get_tid_report (dir @ ''/'' @ report_name pid res tid attempt prog) = 0"
  by (rule conjI [OF get_pid_of_report_name get_tid_of_report_name])

text \<open>C32. Merging by process, which goes round the list with its holes until a round finds nothing, comes
  to this: the reports are put into classes by the process in their name, the classes are handled one
  after the other, a class of one is copied, and of a larger one all members are merged, in their
  order, into a fresh table which is then saved.\<close>

theorem merge_by_thread_by_process:
  "merge_by_thread env list r fs =
     (case list of
        [] \<Rightarrow> Inr ([], r, fs)
      | report # _ \<Rightarrow>
          bindR (sprintf_buf 1024 report) (\<lambda>buf.
          bindR (make_dir env (dirname buf @ ''/'' @ DIR_MERGE_THREAD)) (\<lambda>_.
          bindR (foldR (merge_process env) (by_pid list) (start_scan r fs)) (\<lambda>x.
            Inr (x_post x, x_r x, x_files x)))))"
  by (rule merge_by_thread_eq)





text \<open>C36. The letters of the option string and the checks after them leave one action: either only the
  consistency of reports, or merging, by process and by command or without criteria but not both; and the
  reports are given by name or by directory, not both.\<close>

theorem helper_options_leave_one_action:
  assumes "\<forall>(opt, optarg) \<in> set opts. opt \<in> set ''rtkiad?''"
    "helper_options opts no_opts = Inr (Some ho)" "helper_checks ho = Inr (Some ho')"
  shows "\<not> ho_compare ho' \<and> ho_log1 ho' = None \<and>
    (ho_consistency ho' \<longleftrightarrow> \<not> (ho_merge_all ho' \<or> ho_merge_threads ho' \<or> ho_merge_runs ho')) \<and>
    \<not> (ho_merge_all ho' \<and> (ho_merge_threads ho' \<or> ho_merge_runs ho')) \<and>
    \<not> (ho_log0 ho' \<noteq> None \<and> ho_directory ho' \<noteq> None)"
  using helper_options_flags [OF assms(2,1)] helper_checks_ok [OF assms(3)] by (simp add: no_opts_def)

theorem helper_options_leave_one_action_witness:
  "\<not> ho_compare plain_opts \<and> \<not> (ho_merge_all plain_opts \<and> (ho_merge_threads plain_opts \<or> ho_merge_runs plain_opts))"
  using helper_options_leave_one_action [of "[(CHR ''r'', []), (CHR ''k'', []), (CHR ''t'', [])]" "plain_opts\<lparr>ho_consistency := True\<rparr>" plain_opts]
  by (simp add: helper_option_def helper_checks_def bad_log_def plain_opts_def no_opts_def Let_def)

section \<open>The costs of processes\<close>

lemma must_merge_cost:
  assumes "\<And>fs n r r'. h_merge env fs n r = Inr (r', True) \<Longrightarrow> h_extra_cost r' = h_extra_cost r + k n"
  shows "foldR (must_merge env) g x = Inr x' \<Longrightarrow>
    h_extra_cost (x_r x') = h_extra_cost (x_r x) + sum_list (map k g) \<and> x_merged x' = x_merged x + length g \<and> x_files x' = x_files x"
proof (induction g arbitrary: x)
  case (Cons n g)
  then obtain x1 where x1: "must_merge env n x = Inr x1" "foldR (must_merge env) g x1 = Inr x'" by (auto simp: res_simps)
  from x1(1) obtain r' where r: "h_merge env (x_files x) n (x_r x) = Inr (r', True)" "x1 = x\<lparr>x_r := r', x_merged := x_merged x + 1\<rparr>"
    by (auto simp: must_merge_def res_simps)
  from Cons.IH [OF x1(2)] assms [OF r(1)] r(2) show ?case by (simp add: add.assoc)
qed simp

lemma merge_process_cost:
  assumes m: "\<And>fs n r r'. h_merge env fs n r = Inr (r', True) \<Longrightarrow> h_extra_cost r' = h_extra_cost r + k n"
    and p: "\<And>r c s r'. h_print env r c = Inr (s, r') \<Longrightarrow> h_extra_cost r' = h_extra_cost r"
    and g: "1 < length g" "merge_process env g x = Inr x'"
  shows "\<exists>r r' s new. h_print env r (h_extra_cost (x_r x) + sum_list (map k g)) = Inr (s, r') \<and>
    x_files x' = (x_files x)(new := Some s) \<and> h_extra_cost (x_r x') = h_extra_cost (x_r x) + sum_list (map k g)"
proof -
  let ?x0 = "x\<lparr>x_pid := get_pid_report (hd g), x_r := reset_data (x_r x)\<rparr>"
  from g obtain x1 where x1: "foldR (must_merge env) g ?x0 = Inr x1" "thread_finish env (hd g) x1 = Inr x'"
    by (auto simp: merge_process_def Let_def res_simps)
  from must_merge_cost [OF m x1(1)] have c: "h_extra_cost (x_r x1) = h_extra_cost (x_r x) + sum_list (map k g)"
    "0 < x_merged x1" "x_files x1 = x_files x" using g(1) by (auto simp: reset_data_keeps)
  from x1(2) c(2) obtain new s r' where
    "h_print env (x_r x1) (h_extra_cost (x_r x1)) = Inr (s, r')" "x_files x' = (x_files x1)(new := Some s)" "x_r x' = r'"
    by (auto simp: thread_finish_def save_report_def res_simps split: if_splits)
  with p [OF this(1)] c show ?thesis by auto
qed



end
