(* ===== verification/Exits.thy ===== *)
theory Exits
  imports Profile
begin

text \<open>
  The end of a thread: \<open>unwind_stack\<close> of \<open>callstack.c\<close> files the calls that are still pending, and
  \<open>thread_exit\<close> of \<open>thread.c\<close> has the report written.  The simulation of theory Profile is carried
  on through both, down to the content of the file.
\<close>

section \<open>Unwinding\<close>

lemma height_Exit: "height (spec_step F sh Exit w) = height w - 1"
  by (cases "ignored w") (auto simp: spec_return_def height_def Let_def add_children_simps split: prod.splits)

lemma unwind_loop_sim:
  assumes "sim F t sh rt w" "height w \<le> fuel"
  shows "\<exists>rt'. unwind_loop fuel rt t = Inr rt' \<and> sim F t sh rt' (spec_run F sh (replicate (height w) Exit) w)"
  using assms
proof (induction fuel arbitrary: rt w)
  case 0
  from "0.prems"(1) obtain td where td: "threads rt t = Some td" "thread_sim F td w" unfolding sim_def by blast
  have "unat (stack_depth td) = 0" using thread_simD(3) [OF td(2)] "0.prems"(2) by simp
  then have "stack_depth td = 0" by (metis unat_eq_zero)
  then show ?case using 0 td(1) by (simp add: unwind_loop.simps get_td_def)
next
  case (Suc fuel)
  from Suc.prems(1) obtain td where td: "threads rt t = Some td" "thread_sim F td w" unfolding sim_def by blast
  note d = thread_simD(3) [OF td(2)]
  show ?case
  proof (cases "height w")
    case 0
    with d have "stack_depth td = 0" by (metis unat_eq_zero)
    then show ?thesis using 0 td(1) Suc.prems(1) by (simp add: unwind_loop.simps get_td_def)
  next
    case (Suc h)
    then have "event_ok F Exit w" by simp
    from step_ok [OF Suc.prems(1) this] obtain rt1 where
      r: "step t Exit rt = Inr rt1" "sim F t sh rt1 (spec_step F sh Exit w)" by blast
    have h: "height (spec_step F sh Exit w) = h" using Suc by (simp add: height_Exit del: spec_step.simps)
    with Suc.IH [OF r(2)] Suc.prems(2) Suc obtain rt' where
      "unwind_loop fuel rt1 t = Inr rt'" "sim F t sh rt' (spec_run F sh (replicate h Exit) (spec_step F sh Exit w))" by auto
    moreover have "stack_depth td \<noteq> 0" using d Suc by auto
    ultimately show ?thesis using r(1) td(1) Suc by (simp add: unwind_loop.simps [of "Suc fuel"] get_td_def del: spec_step.simps)
  qed
qed

lemma unwind_stack_sim:
  assumes "sim F t sh rt w"
  shows "\<exists>rt'. unwind_stack rt t = Inr rt' \<and> sim F t sh rt' (spec_run F sh (replicate (height w) Exit) w)"
proof -
  from assms obtain td where td: "threads rt t = Some td" "thread_sim F td w" unfolding sim_def by blast
  then show ?thesis using unwind_loop_sim [OF assms, of "unat (stack_depth td)"] thread_simD(3) [OF td(2)]
    by (simp add: unwind_stack_def get_td_def)
qed

lemma height_replicate: "n \<le> height w \<Longrightarrow> height (spec_run F sh (replicate n Exit) w) = height w - n"
  by (induction n arbitrary: w) (simp_all add: height_Exit del: spec_step.simps)

lemma spec_run_app: "spec_run F sh (es @ es') w = spec_run F sh es' (spec_run F sh es w)"
  by (induction es arbitrary: w) simp_all

section \<open>The report of a thread\<close>

lemma foldR_append:
  assumes "\<And>n ls. n \<in> set ns \<Longrightarrow> g n ls = Inr (ls @ b n)"
  shows "foldR g ns ls = Inr (ls @ concat (map b ns))"
  using assms by (induction ns arbitrary: ls) simp_all

definition object_name :: "Runtime \<Rightarrow> Function \<Rightarrow> string" where
  "object_name r fn = (case fn_obj fn of None \<Rightarrow> ''NONE'' | Some i \<Rightarrow> o_name (objs r ! i))"

definition objects_known :: "Runtime \<Rightarrow> bool" where
  "objects_known r \<longleftrightarrow> (\<forall>f fn i. fns r f = Some fn \<longrightarrow> fn_obj fn = Some i \<longrightarrow> i < length (objs r))"

text \<open>The lines of one function: its name, and a line for each of its tuples.\<close>

definition block_text :: "Runtime \<Rightarrow> u64 \<times> u32 \<times> Input list \<Rightarrow> string list" where
  "block_text r = (\<lambda>(f, rid, tuples). let fn = the (fns r f) in
     routine_lines fn (object_name r fn) rid @ concat (map (tuple_text (cfg r) rid) tuples))"

definition tuples_in :: "Input HashTable \<Rightarrow> Input list" where
  "tuples_in m = map val (concat (chains m))"

lemma routine_text_ok:
  assumes "objects_known r" "fns r f = Some fn" "ht_inv m"
  shows "routine_text r fn rid (Inr m) = Inr (if discard fn then [] else block_text r (f, rid, tuples_in m))"
proof (cases "discard fn")
  case False
  obtain t' where "ht_drain (HT_ResetIter m) = Inr (t', concat (chains m))"
    using ht_drain_ok [OF iter_inv_ResetIter [OF assms(3)]] by (auto simp: HT_ResetIter_def)
  moreover have "i < length (objs r)" if "fn_obj fn = Some i" for i using assms(1,2) that by (auto simp: objects_known_def)
  ultimately show ?thesis using False assms(2)
    by (auto simp: routine_text_def block_text_def object_name_def tuples_in_def comp_def split: option.splits)
qed (simp add: routine_text_def)

lemma mset_tuples_in:
  assumes "map_rel False m (samples_of l f)"
  shows "mset (tuples_in m) = image_mset (\<lambda>sz. tuple_of (ucast sz) 0 (entries l f sz)) (mset_set {sz. entries l f sz \<noteq> []})"
proof -
  let ?S = "{sz. entries l f sz \<noteq> []}"
  have e: "samples_of l f (None, sz) = entries l f sz" for sz by (simp add: entries_def samples_of_def)
  have p: "observed_pairs (samples_of l f) = Pair None ` ?S"
    using e by (auto simp: observed_pairs_def samples_of_def entries_def split: if_splits)
  have "mset (tuples_in m) = image_mset val (ht_nodes m)"
    by (simp add: tuples_in_def ht_nodes_def flip: mset_map)
  also have "ht_nodes m = image_mset (tuple_node (samples_of l f)) (mset_set (Pair None ` ?S))"
    using assms p by (simp add: map_rel_def)
  also have "mset_set (Pair None ` ?S) = image_mset (Pair None) (mset_set ?S)"
    by (rule image_mset_mset_set [symmetric]) (simp add: inj_on_def)
  finally show ?thesis by (simp add: image_mset.compositionality comp_def tuple_node_def e)
qed

lemma ht_uniq_mem:
  assumes "ht_inv t" "ht.uniq t" "n \<in> set (concat (chains t))"
  shows "HT_lookup t (key n) = Some n"
  using ht.lookup_memI [OF assms(1,2), of n] assms(3) by (simp add: ht_nodes_def)

lemma ht_uniq_distinct:
  assumes "ht_inv t" "ht.uniq t"
  shows "distinct (map key (concat (chains t)))"
proof -
  have le: "length (filter (\<lambda>n. key n = k) (concat (chains t))) \<le> 1" for k
    using assms(2) unfolding ht.uniq_def ht_nodes_def by (metis mset_filter size_mset)
  have "distinct (map key ns)" if "\<And>k. length (filter (\<lambda>n. key n = k) ns) \<le> 1" for ns :: "'a HashNode list"
    using that
  proof (induction ns)
    case (Cons n ns)
    have "filter (\<lambda>m. key m = key n) ns = []" using Cons.prems [of "key n"] by simp
    then have "key n \<notin> key ` set ns" by (auto simp: filter_empty_conv)
    moreover have "length (filter (\<lambda>m. key m = k) ns) \<le> 1" for k
      using Cons.prems [of k] by (simp split: if_splits)
    ultimately show ?case using Cons.IH by simp
  qed simp
  from this [OF le] show ?thesis .
qed

definition block_of :: "RoutineInfo HashNode \<Rightarrow> u64 \<times> u32 \<times> Input list" where
  "block_of n = (key n, ucast (routine_id (val n)), case input_map (val n) of OwnMap m \<Rightarrow> tuples_in m | _ \<Rightarrow> [])"

definition kept :: "Runtime \<Rightarrow> u64 \<Rightarrow> bool" where
  "kept r f \<longleftrightarrow> (case fns r f of Some fn \<Rightarrow> \<not> discard fn | None \<Rightarrow> False)"

definition report_blocks :: "Runtime \<Rightarrow> ThreadData \<Rightarrow> (u64 \<times> u32 \<times> Input list) list" where
  "report_blocks r td = map block_of (filter (\<lambda>n. kept r (key n)) (concat (chains (rtn_ht td))))"

lemma thread_routine_text_sim:
  assumes S: "sim F t sh rt w" "threads rt t = Some td" and k: "objects_known rt" and n: "n \<in> set (concat (chains (rtn_ht td)))"
  shows "thread_routine_text rt n ls = Inr (ls @ (if kept rt (key n) then block_text rt (block_of n) else []))"
    "kept rt (key n) \<Longrightarrow> mset (snd (snd (block_of n))) =
      image_mset (\<lambda>sz. tuple_of (ucast sz) 0 (entries (log w) (key n) sz)) (mset_set {sz. entries (log w) (key n) sz \<noteq> []})"
proof -
  from S have T: "thread_sim F td w" unfolding sim_def by auto
  note fF = simD(2) [OF S(1)]
  have "get_ri td (key n) = Inr (val n)"
    using ht_uniq_mem [OF _ _ n] thread_simD(1) [OF T] by (simp add: get_ri_def routines_inv_def)
  with thread_simD(11) [OF T, of "key n"] obtain fn where r: "ri_fn (val n) = key n" "F (key n) = Some fn"
    "\<not> discard fn \<longrightarrow> (\<exists>m. input_map (val n) = OwnMap m \<and> map_rel False m (samples_of (log w) (key n)))"
    by (auto simp: routine_sim_def)
  have c: "thread_routine_text rt n ls = Inr (ls @ (if kept rt (key n) then block_text rt (block_of n) else [])) \<and>
    (kept rt (key n) \<longrightarrow> mset (snd (snd (block_of n))) =
      image_mset (\<lambda>sz. tuple_of (ucast sz) 0 (entries (log w) (key n) sz)) (mset_set {sz. entries (log w) (key n) sz \<noteq> []}))"
  proof (cases "discard fn")
    case True
    then show ?thesis using r fF
      by (simp add: thread_routine_text_def Let_def get_fn_def routine_text_def kept_def)
  next
    case False
    with r(3) obtain m where m: "input_map (val n) = OwnMap m" "map_rel False m (samples_of (log w) (key n))" by blast
    then have "ht_inv m" by (simp add: map_rel_def)
    from routine_text_ok [OF k _ this, of "key n" fn] r(1,2) fF False m(1) mset_tuples_in [OF m(2)] show ?thesis
      by (simp add: thread_routine_text_def Let_def get_fn_def kept_def block_of_def)
  qed
  then show "thread_routine_text rt n ls = Inr (ls @ (if kept rt (key n) then block_text rt (block_of n) else []))"
    "kept rt (key n) \<Longrightarrow> mset (snd (snd (block_of n))) =
      image_mset (\<lambda>sz. tuple_of (ucast sz) 0 (entries (log w) (key n) sz)) (mset_set {sz. entries (log w) (key n) sz \<noteq> []})"
    by blast+
qed

lemma concat_map_filter: "concat (map (\<lambda>n. if P n then g n else []) ns) = concat (map g (filter P ns))"
  by (induction ns) auto

lemma print_report_sim:
  assumes S: "sim F t sh rt w" "threads rt t = Some td" and k: "objects_known rt"
  shows "\<exists>h'. print_report_thread rt (rtn_ht td) cost root =
    Inr (report_header rt cost @ concat (map (block_text rt) (report_blocks rt td)), h')"
proof -
  from S have T: "thread_sim F td w" unfolding sim_def by auto
  then have inv: "ht_inv (rtn_ht td)" using thread_simD(1) [OF T] by (simp add: routines_inv_def)
  obtain h' where h': "ht_drain (HT_ResetIter (rtn_ht td)) = Inr (h', concat (chains (rtn_ht td)))"
    using ht_drain_ok [OF iter_inv_ResetIter [OF inv]] by (auto simp: HT_ResetIter_def)
  have "foldR (thread_routine_text rt) (concat (chains (rtn_ht td))) (report_header rt cost) =
      Inr (report_header rt cost @ concat (map (\<lambda>n. if kept rt (key n) then block_text rt (block_of n) else []) (concat (chains (rtn_ht td)))))"
    by (rule foldR_append) (rule thread_routine_text_sim(1) [OF S k])
  moreover have "concat (map (\<lambda>n. if kept rt (key n) then block_text rt (block_of n) else []) (concat (chains (rtn_ht td)))) =
      concat (map (block_text rt) (report_blocks rt td))"
    unfolding report_blocks_def concat_map_filter by (simp add: comp_def)
  ultimately show ?thesis using h' simD(4) [OF S(1)] by (simp add: print_report_thread_def cct_text_def)
qed

lemma report_blocks_sim:
  assumes S: "sim F t sh rt w" "threads rt t = Some td" and k: "objects_known rt"
  shows "distinct (map fst (report_blocks rt td))"
    "(f, rid, tuples) \<in> set (report_blocks rt td) \<Longrightarrow> kept rt f \<and> mset tuples =
      image_mset (\<lambda>sz. tuple_of (ucast sz) 0 (entries (log w) f sz)) (mset_set {sz. entries (log w) f sz \<noteq> []})"
    "kept rt f \<Longrightarrow> entries (log w) f sz \<noteq> [] \<Longrightarrow> f \<in> fst ` set (report_blocks rt td)"
proof -
  from S have T: "thread_sim F td w" unfolding sim_def by auto
  then have inv: "ht_inv (rtn_ht td)" "ht.uniq (rtn_ht td)" using thread_simD(1) [OF T] by (simp_all add: routines_inv_def)
  have "map fst (report_blocks rt td) = map key (filter (\<lambda>n. kept rt (key n)) (concat (chains (rtn_ht td))))"
    by (simp add: report_blocks_def block_of_def comp_def)
  then show "distinct (map fst (report_blocks rt td))"
    using ht_uniq_distinct [OF inv] by (simp add: distinct_map_filter)
next
  assume "(f, rid, tuples) \<in> set (report_blocks rt td)"
  then obtain n where n: "n \<in> set (concat (chains (rtn_ht td)))" "kept rt (key n)" "(f, rid, tuples) = block_of n"
    unfolding report_blocks_def set_map set_filter by blast
  have "f = key n" using n(3) by (simp add: block_of_def)
  then show "kept rt f \<and> mset tuples =
      image_mset (\<lambda>sz. tuple_of (ucast sz) 0 (entries (log w) f sz)) (mset_set {sz. entries (log w) f sz \<noteq> []})"
    using thread_routine_text_sim(2) [OF S k n(1,2)] n(2) by (simp flip: n(3))
next
  assume f: "kept rt f" "entries (log w) f sz \<noteq> []"
  from S have T: "thread_sim F td w" unfolding sim_def by auto
  have "samples_of (log w) f (None, sz) \<noteq> []" using f(2) by (simp add: entries_def samples_of_def)
  then have "samples_of (log w) f \<noteq> (\<lambda>_. [])" by auto
  with thread_simD(11) [OF T, of f] obtain ri where "get_ri td f = Inr ri"
    by (cases "get_ri td f") (auto simp: routine_sim_def)
  then obtain n where "HT_lookup (rtn_ht td) f = Some n" by (auto simp: get_ri_Inr)
  then have "n \<in> set (concat (chains (rtn_ht td)))" "key n = f"
    using ht.lookup_Some [of "rtn_ht td" f n] thread_simD(1) [OF T] by (auto simp: routines_inv_def ht_nodes_def)
  with f(1) show "f \<in> fst ` set (report_blocks rt td)" by (force simp: report_blocks_def block_of_def)
qed

section \<open>What a run leaves alone\<close>

definition statics :: "Runtime \<Rightarrow> Config \<times> Object list \<times> string \<times> string \<times> u64" where
  "statics rt = (cfg rt, objs rt, application rt, cmd_line rt, binary_mtime rt)"

lemma statics_put_td [simp]: "statics (put_td rt t td) = statics rt"
  by (simp add: statics_def put_td_def)

lemma statics_fields [simp]:
  "statics (rt\<lparr>ccts := c\<rparr>) = statics rt" "statics (rt\<lparr>fns := g\<rparr>) = statics rt" "statics (rt\<lparr>threads := h\<rparr>) = statics rt"
  "statics (rt\<lparr>running_threads := n\<rparr>) = statics rt" "statics (rt\<lparr>current_TID := d\<rparr>) = statics rt"
  "statics (rt\<lparr>current_tdata := p\<rparr>) = statics rt" "statics (rt\<lparr>last_exit := e\<rparr>) = statics rt"
  by (simp_all add: statics_def)

lemma statics_upd_act: "upd_act rt t p f = Inr rt' \<Longrightarrow> statics rt' = statics rt"
  by (auto simp: upd_act_def res_simps)

lemma statics_enter:
  "enter_id_rms rt t p = Inr rt' \<Longrightarrow> statics rt' = statics rt"
  "enter_reset rt t p = Inr rt' \<Longrightarrow> statics rt' = statics rt"
  "enter_cct rt t p ri = Inr rt' \<Longrightarrow> statics rt' = statics rt"
  by (auto simp: enter_id_rms_def overflow_handler_rms_def enter_reset_def enter_cct_def Let_def res_simps
      split: if_splits option.splits dest!: statics_upd_act)

lemma statics_function_enter:
  "function_enter rt t p = Inr rt' \<Longrightarrow> input_metric (cfg rt) = RMS \<Longrightarrow> statics rt' = statics rt"
  by (auto simp: function_enter_def Let_def res_simps split: if_splits dest!: statics_enter)

lemma statics_cfg: "statics rt' = statics rt \<Longrightarrow> cfg rt' = cfg rt"
  by (simp add: statics_def)

lemma statics_new_routine: "new_routine_info rt t f k = Inr rt' \<Longrightarrow> statics rt' = statics rt"
  by (auto simp: new_routine_info_def add_routine_def Let_def res_simps split: if_splits)

lemma statics_push_stack:
  assumes "push_stack rt t csp f = Inr rt'" "input_metric (cfg rt) = RMS"
  shows "statics rt' = statics rt"
proof -
  from assms(1) obtain td p rt2 rt3 where
    p: "(if HT_lookup (rtn_ht td) f = None then new_routine_info (put_td rt t td) t f f else Inr (put_td rt t td)) = Inr rt2"
    "upd_act rt2 t p (\<lambda>a. a\<lparr>sp := csp, routine_info := f, ret_addr := 0\<rparr>) = Inr rt3" "function_enter rt3 t p = Inr rt'"
    by (auto simp: push_stack_def Let_def res_simps)
  have "statics rt2 = statics rt" using p(1) statics_new_routine by (fastforce split: if_splits)
  with statics_upd_act [OF p(2)] have s: "statics rt3 = statics rt" by simp
  with statics_function_enter [OF p(3)] assms(2) statics_cfg [OF s] show ?thesis by simp
qed

lemma statics_exit_tuple: "exit_tuple rt t act ri c s = Inr rt' \<Longrightarrow> statics rt' = statics rt"
  by (cases "input_map ri") (auto simp: exit_tuple_def put_routine_map_def res_simps split: if_splits)

lemma statics_exit_parent: "exit_parent rt t act c = Inr rt' \<Longrightarrow> statics rt' = statics rt"
  by (auto simp: exit_parent_def res_simps split: if_splits dest!: statics_upd_act)

lemma statics_function_exit: "function_exit rt t p = Inr rt' \<Longrightarrow> statics rt' = statics rt"
  by (auto simp: function_exit_def Let_def res_simps split: if_splits dest!: statics_exit_tuple statics_exit_parent)

lemma statics_pop_one: "pop_one rt t p = Inr rt' \<Longrightarrow> statics rt' = statics rt"
  by (auto simp: pop_one_def res_simps dest!: statics_function_exit)

lemma statics_step: "step t e rt = Inr rt' \<Longrightarrow> input_metric (cfg rt) = RMS \<Longrightarrow> statics rt' = statics rt"
  by (cases e) (auto simp: res_simps trace_access_rms_def increase_cost_def Let_def split: if_splits prod.splits
      dest: statics_push_stack statics_pop_one)

lemma statics_run: "run t es rt = Inr rt' \<Longrightarrow> input_metric (cfg rt) = RMS \<Longrightarrow> statics rt' = statics rt"
proof (induction es arbitrary: rt)
  case (Cons e es)
  then obtain rt1 where r: "step t e rt = Inr rt1" "run t es rt1 = Inr rt'" by (auto simp: res_simps)
  from statics_step [OF r(1) Cons.prems(2)] have s: "statics rt1 = statics rt" .
  with Cons.IH [OF r(2)] Cons.prems(2) statics_cfg [OF s] show ?case by simp
qed simp

lemma statics_unwind_loop: "unwind_loop fuel rt t = Inr rt' \<Longrightarrow> statics rt' = statics rt"
proof (induction fuel arbitrary: rt)
  case 0
  then show ?case by (auto simp: unwind_loop.simps res_simps split: if_splits)
next
  case (Suc fuel)
  from Suc.prems Suc.IH show ?case
    by (subst (asm) unwind_loop.simps) (fastforce simp: res_simps split: if_splits dest!: statics_pop_one)
qed

lemma statics_unwind_stack: "unwind_stack rt t = Inr rt' \<Longrightarrow> statics rt' = statics rt"
  by (auto simp: unwind_stack_def res_simps dest!: statics_unwind_loop)

lemma statics_thread_switch:
  "thread_switch rt tid = Inr rt' \<Longrightarrow> input_metric (cfg rt) = RMS \<Longrightarrow> statics rt' = statics rt"
  by (auto simp: thread_switch_def thread_start_def Let_def res_simps split: if_splits option.splits)

section \<open>Exit of a thread\<close>

definition candidate :: "Env \<Rightarrow> Runtime \<Rightarrow> u32 \<Rightarrow> nat \<Rightarrow> string" where
  "candidate env rt tid i = report_filename (env_expand env) (cfg rt)
     (report_name (env_pid env) (memory_resolution (cfg rt)) tid (of_nat i) (application rt))"

lemma create_report_some:
  assumes "i < 1024" "env_opn env (candidate env rt tid i)"
  shows "\<exists>f name. create_report (env_opn env) (env_expand env) (env_pid env) (cfg rt) (application rt) tid = (Some f, Some name) \<and>
    file_ok f \<and> file_text f = []"
proof -
  have "find (\<lambda>i. env_opn env (candidate env rt tid i)) [0..<1024] \<noteq> None"
    unfolding find_None_iff using assms by auto
  then show ?thesis
    using create_report_loop_ok [of 1024 "env_opn env"
      "\<lambda>attempt. report_filename (env_expand env) (cfg rt) (report_name (env_pid env) (memory_resolution (cfg rt)) tid attempt (application rt))" 0]
    by (auto simp: create_report_def Let_def candidate_def split: option.splits)
qed

lemma report_text_cong:
  assumes "statics rt' = statics rt" "fns rt' = fns rt"
  shows "report_header rt' cost = report_header rt cost" "block_text rt' = block_text rt" "kept rt' = kept rt"
    "objects_known rt' = objects_known rt" "candidate env rt' tid = candidate env rt tid"
  using assms
  by (auto simp: statics_def report_header_def block_text_def object_name_def kept_def objects_known_def candidate_def
      fun_eq_iff Let_def cong: option.case_cong)

definition file_content :: "Runtime \<Rightarrow> u64 \<Rightarrow> (u64 \<times> u32 \<times> Input list) list \<Rightarrow> string" where
  "file_content rt cost blocks = concat (map (vsnprintf 4096) (report_header rt cost @ concat (map (block_text rt) blocks)))"

lemma thread_exit_sim:
  assumes S: "sim F (tid_slot tid) sh rt w" and k: "objects_known rt"
    and tid: "tid_slot tid < VG_N_THREADS" and wr: "writes_ok (env_write env)"
    and nm: "i < 1024" "env_opn env (candidate env rt tid i)"
  shows "\<exists>rt1 td rt' name. unwind_stack rt (tid_slot tid) = Inr rt1 \<and> threads rt1 (tid_slot tid) = Some td \<and>
    sim F (tid_slot tid) sh rt1 (spec_run F sh (replicate (height w) Exit) w) \<and> objects_known rt1 \<and> kept rt1 = kept rt \<and>
    thread_exit env rt tid = Inr (rt', Some (name, file_content rt (report_cost td) (report_blocks rt1 td)), []) \<and>
    threads rt' (tid_slot tid) = None"
proof -
  let ?t = "tid_slot tid"
  from S obtain td0 where td0: "threads rt ?t = Some td0" unfolding sim_def by blast
  from unwind_stack_sim [OF S] obtain rt1 where
    u: "unwind_stack rt ?t = Inr rt1" "sim F ?t sh rt1 (spec_run F sh (replicate (height w) Exit) w)" by blast
  from u(2) obtain td where td: "threads rt1 ?t = Some td" unfolding sim_def by blast
  note s = statics_unwind_stack [OF u(1)]
  have f: "fns rt1 = fns rt" using simD(2) [OF u(2)] simD(2) [OF S] by simp
  note C = report_text_cong [OF s f]
  have k1: "objects_known rt1" using k C(4) by simp
  from nm C(5) have "env_opn env (candidate env rt1 tid i)" by simp
  from create_report_some [OF nm(1) this] obtain fl name where
    c: "create_report (env_opn env) (env_expand env) (env_pid env) (cfg rt1) (application rt1) tid = (Some fl, Some name)"
      "file_ok fl" "file_text fl = []" by blast
  from print_report_sim [OF u(2) td k1] obtain h' where
    p: "print_report_thread rt1 (rtn_ht td) (report_cost td) (t_root td) =
      Inr (report_header rt1 (report_cost td) @ concat (map (block_text rt1) (report_blocks rt1 td)), h')" by blast
  have "generate_report env rt1 ?t tid =
      Inr (put_td rt1 ?t (td\<lparr>rtn_ht := h'\<rparr>), Some (name, file_content rt (report_cost td) (report_blocks rt1 td)))"
    using td simD(5) [OF u(2)] c p print_all_ok [OF wr c(2)]
    by (simp add: generate_report_def get_td_def Let_def file_content_def C(1,2))
  then have "\<exists>rt'. thread_exit env rt tid = Inr (rt', Some (name, file_content rt (report_cost td) (report_blocks rt1 td)), []) \<and>
      threads rt' ?t = None"
    using tid td0 u(1) simD(4) [OF u(2)]
    by (simp add: thread_exit_def slot_ok_def get_td_def Let_def)
  with u td k1 C(3) show ?thesis by blast
qed

section \<open>Properties\<close>

text \<open>A run up to the exit of the thread, as a specification: the events, and then a return from every
  call that is pending.\<close>

definition ended :: "(u64 \<Rightarrow> Function option) \<Rightarrow> u32 \<Rightarrow> event list \<Rightarrow> world" where
  "ended F sh es = (let w = spec_run F sh es world0 in spec_run F sh (replicate (height w) Exit) w)"

lemma height_ended: "height (ended F sh es) = 0"
  by (simp add: ended_def Let_def height_replicate)

lemma sim_depth:
  assumes "sim F t sh rt w" "height w = 0"
  shows "\<exists>td. threads rt t = Some td \<and> stack_depth td = 0"
proof -
  from assms(1) obtain td where td: "threads rt t = Some td" "thread_sim F td w" unfolding sim_def by blast
  from thread_simD(3) [OF td(2)] assms(2) have "unat (stack_depth td) = 0" by simp
  with td(1) show ?thesis by (metis unat_eq_zero)
qed

lemma sim_report_cost:
  assumes "sim F t sh rt w" "threads rt t = Some td"
  shows "report_cost td = now w - w_skip w"
  using assms thread_simD(9,10) [of F td w] by (auto simp: sim_def report_cost_def aprof_time_def now_def)

text \<open>Examples: a thread with two pending calls, and an environment in which every file can be created.\<close>

definition pending_events :: "event list" where
  "pending_events = [Enter 1 4096, Tick, Access STORE 64 8, Enter 2 4080, Tick, Tick, Access LOAD 64 8]"

lemma pending_log:
  "entries (log (ended sample_fns 2 pending_events)) 2 2 = [plain_sample 2]"
  "entries (log (ended sample_fns 2 pending_events)) 1 0 = [\<lparr>s_cumul = 3, s_self = 1, s_real = True, s_cumul_syscall = 0,
     s_cumul_thread = 0, s_self_syscall = 0, s_self_thread = 0\<rparr>]"
  "run_ok sample_fns 2 pending_events world0"
  by (simp_all add: sample_eval pending_events_def ended_def height_def MAX_STACK_SIZE_def)

definition plain_os :: Env where
  "plain_os = \<lparr>env_opn = (\<lambda>_. True), env_expand = (\<lambda>s. s), env_pid = 7, env_write = (\<lambda>_ _. 1), env_load = Inr\<rparr>"

lemma plain_os: "writes_ok (env_write plain_os)" "env_opn plain_os s"
  by (auto simp: writes_ok_def plain_os_def neq_Nil_conv)

lemma sample_objects: "objects_known sample_runtime"
  by (auto simp: objects_known_def sample_fns sample_fns_def sample_fn_def split: if_splits)

text \<open>C8. No call is lost.  Whatever a thread has done, however many calls are pending (of skipped
  functions too), unwinding its stack ends without an error with an empty stack, and the tables
  then summarise every call the thread has made: those that had returned, and the pending ones as if
  they returned now, the innermost first.\<close>

theorem pending_calls_are_filed:
  assumes "plain_rms sh rt" "tid \<noteq> 0" "tid \<noteq> current_TID rt" "tid_slot tid < VG_N_THREADS"
    and "threads rt (tid_slot tid) = None" "\<forall>t. current_tdata rt = Some t \<longrightarrow> threads rt t \<noteq> None"
    and "run_ok (fns rt) sh es world0"
  shows "\<exists>rt' td. bindR (bindR (thread_switch rt tid) (run (tid_slot tid) es)) (\<lambda>rt1. unwind_stack rt1 (tid_slot tid)) = Inr rt' \<and>
    threads rt' (tid_slot tid) = Some td \<and> stack_depth td = 0 \<and>
    (\<forall>f fn sz. fns rt f = Some fn \<longrightarrow> \<not> discard fn \<longrightarrow>
      profile rt' (tid_slot tid) f sz =
        (let ss = entries (log (ended (fns rt) sh es)) f sz
         in if ss = [] then None else Some (tuple_of (ucast sz) 0 ss)))"
proof -
  from thread_switch_new [OF assms(1-6)] obtain rt1 where
    r1: "thread_switch rt tid = Inr rt1" "sim (fns rt) (tid_slot tid) sh rt1 world0" by blast
  from run_sim [OF r1(2) assms(7)] obtain rt2 where
    r2: "run (tid_slot tid) es rt1 = Inr rt2" "sim (fns rt) (tid_slot tid) sh rt2 (spec_run (fns rt) sh es world0)" by blast
  from unwind_stack_sim [OF r2(2)] obtain rt' where
    r3: "unwind_stack rt2 (tid_slot tid) = Inr rt'" "sim (fns rt) (tid_slot tid) sh rt' (ended (fns rt) sh es)"
    by (auto simp: ended_def Let_def)
  from sim_depth [OF r3(2) height_ended] r1(1) r2(1) r3(1) sim_profile [OF r3(2)] show ?thesis by (auto simp: Let_def)
qed

theorem pending_calls_are_filed_witness:
  "\<exists>rt' td. bindR (bindR (thread_switch sample_runtime 1) (run 0 pending_events)) (\<lambda>rt1. unwind_stack rt1 0) = Inr rt' \<and>
     threads rt' 0 = Some td \<and> stack_depth td = 0 \<and> profile rt' 0 2 2 = Some (tuple_of 2 0 [plain_sample 2])"
proof -
  have slot: "tid_slot 1 = 0" by (simp add: tid_slot_def)
  from pending_calls_are_filed [of 2 sample_runtime 1 pending_events] obtain rt' td where
    "bindR (bindR (thread_switch sample_runtime 1) (run 0 pending_events)) (\<lambda>rt1. unwind_stack rt1 0) = Inr rt'"
    "threads rt' 0 = Some td" "stack_depth td = 0"
    and p: "\<And>sz. profile rt' 0 2 sz =
        (let ss = entries (log (ended sample_fns 2 pending_events)) 2 sz
         in if ss = [] then None else Some (tuple_of (ucast sz) 0 ss))"
    by (auto simp: sample_start sample_fns pending_log slot VG_N_THREADS_def sample_fns_def [symmetric])
      (simp add: sample_fns_def sample_fn_def)
  then show ?thesis by (simp add: p pending_log)
qed

text \<open>C1. From the events of a thread to its report.  When the thread exits, one of the candidate names
  being free and every write taking at least one byte, the tool writes a file whose content is known: the
  header with the cost of the thread (the blocks executed less, twice, those of skipped calls), and one
  block of lines for each function that was called and is not discarded, with one line for each input size
  its calls had, which carries the summary of those calls.\<close>

theorem report_of_a_thread:
  assumes "plain_rms sh rt" "tid \<noteq> 0" "tid \<noteq> current_TID rt" "tid_slot tid < VG_N_THREADS"
    and "threads rt (tid_slot tid) = None" "\<forall>t. current_tdata rt = Some t \<longrightarrow> threads rt t \<noteq> None"
    and "run_ok (fns rt) sh es world0" "objects_known rt"
    and "writes_ok (env_write env)" "i < 1024" "env_opn env (candidate env rt tid i)"
  shows "\<exists>rt' name blocks. bindR (bindR (thread_switch rt tid) (run (tid_slot tid) es)) (\<lambda>rt1. thread_exit env rt1 tid) =
      Inr (rt', Some (name, file_content rt (now (ended (fns rt) sh es) - w_skip (ended (fns rt) sh es)) blocks), []) \<and>
    threads rt' (tid_slot tid) = None \<and> distinct (map fst blocks) \<and>
    (\<forall>f rid tuples. (f, rid, tuples) \<in> set blocks \<longrightarrow> kept rt f \<and> mset tuples =
       image_mset (\<lambda>sz. tuple_of (ucast sz) 0 (entries (log (ended (fns rt) sh es)) f sz))
         (mset_set {sz. entries (log (ended (fns rt) sh es)) f sz \<noteq> []})) \<and>
    (\<forall>f sz. kept rt f \<longrightarrow> entries (log (ended (fns rt) sh es)) f sz \<noteq> [] \<longrightarrow> f \<in> fst ` set blocks)"
proof -
  let ?t = "tid_slot tid" and ?F = "fns rt"
  have rms: "input_metric (cfg rt) = RMS" using assms(1) by (simp add: plain_rms_def)
  from thread_switch_new [OF assms(1-6)] obtain rt1 where
    r1: "thread_switch rt tid = Inr rt1" "sim ?F ?t sh rt1 world0" by blast
  from run_sim [OF r1(2) assms(7)] obtain rt2 where
    r2: "run ?t es rt1 = Inr rt2" "sim ?F ?t sh rt2 (spec_run ?F sh es world0)" by blast
  note s1 = statics_thread_switch [OF r1(1) rms]
  have s: "statics rt2 = statics rt" using statics_run [OF r2(1)] s1 rms statics_cfg [OF s1] by simp
  note C = report_text_cong [OF s simD(2) [OF r2(2)]]
  have "objects_known rt2" "env_opn env (candidate env rt2 tid i)" using assms(8,11) C(4,5) by simp_all
  from thread_exit_sim [OF r2(2) this(1) assms(4,9,10) this(2)] obtain rt3 td rt' name where
    e: "threads rt3 ?t = Some td" "sim ?F ?t sh rt3 (ended ?F sh es)" "objects_known rt3" "kept rt3 = kept rt2"
      "thread_exit env rt2 tid = Inr (rt', Some (name, file_content rt2 (report_cost td) (report_blocks rt3 td)), [])"
      "threads rt' ?t = None" by (auto simp: ended_def Let_def)
  have "file_content rt2 = file_content rt" by (simp add: file_content_def fun_eq_iff C(1,2))
  moreover note sim_report_cost [OF e(2,1)] report_blocks_sim [OF e(2,1,3)] e(4) C(3)
  ultimately show ?thesis using r1(1) r2(1) e(5,6)
    by (intro exI [of _ rt'] exI [of _ name] exI [of _ "report_blocks rt3 td"]) auto
qed

theorem report_of_a_thread_witness:
  "\<exists>rt' name cost blocks. bindR (bindR (thread_switch sample_runtime 1) (run 0 pending_events)) (\<lambda>rt1. thread_exit plain_os rt1 1) =
      Inr (rt', Some (name, file_content sample_runtime cost blocks), []) \<and> threads rt' 0 = None \<and> 2 \<in> fst ` set blocks"
proof -
  have slot: "tid_slot 1 = 0" by (simp add: tid_slot_def)
  have kept: "kept sample_runtime 2" by (simp add: kept_def sample_fns sample_fns_def sample_fn_def)
  from report_of_a_thread [of 2 sample_runtime 1 pending_events plain_os 0] obtain rt' name blocks where
    "bindR (bindR (thread_switch sample_runtime 1) (run 0 pending_events)) (\<lambda>rt1. thread_exit plain_os rt1 1) =
      Inr (rt', Some (name, file_content sample_runtime (now (ended sample_fns 2 pending_events) - w_skip (ended sample_fns 2 pending_events)) blocks), [])"
    "threads rt' 0 = None"
    and p: "\<forall>f sz. kept sample_runtime f \<longrightarrow> entries (log (ended sample_fns 2 pending_events)) f sz \<noteq> [] \<longrightarrow> f \<in> fst ` set blocks"
    by (auto simp: sample_start sample_fns pending_log slot VG_N_THREADS_def sample_objects plain_os)
  moreover have "2 \<in> fst ` set blocks" using p [rule_format, OF kept, of 2] by (simp add: pending_log)
  ultimately show ?thesis by blast
qed

end
