(* ===== verification/Resolved.thy ===== *)
theory Resolved
  imports Merge BBStart Threads
begin

text \<open>
  The references between the tables of symbols - blocks, functions, objects (theory Symbols) - are
  typed: every one of them leads to something that exists.  \<open>symbols_typed\<close> holds initially and every
  operation on the symbols succeeds in such a state and keeps it.
\<close>

section \<open>Well-formed symbols\<close>

text \<open>Everything the tables refer to is there: blocks, functions and objects.\<close>

definition bb_typed :: "Runtime \<Rightarrow> BB \<Rightarrow> bool" where
  "bb_typed rt bb \<longleftrightarrow> (\<forall>f. bb_fn bb = Some f \<longrightarrow> fns rt f \<noteq> None)"

definition fn_typed :: "Runtime \<Rightarrow> Function \<Rightarrow> bool" where
  "fn_typed rt fn \<longleftrightarrow> (\<forall>i. fn_obj fn = Some i \<longrightarrow> i < length (objs rt))"

definition symbols_typed :: "Runtime \<Rightarrow> bool" where
  "symbols_typed rt \<longleftrightarrow>
     (\<exists>h. bb_ht rt = Some h \<and> ht_inv h \<and> (\<forall>n. n \<in># ht_nodes h \<longrightarrow> val n < length (bbs rt))) \<and>
     ht_inv (fn_ht rt) \<and> (\<forall>n. n \<in># ht_nodes (fn_ht rt) \<longrightarrow> fns rt (val n) \<noteq> None) \<and>
     ht_inv (obj_ht rt) \<and> (\<forall>n. n \<in># ht_nodes (obj_ht rt) \<longrightarrow> val n < length (objs rt)) \<and>
     (\<forall>bb \<in> set (bbs rt). bb_typed rt bb) \<and> (\<forall>f fn. fns rt f = Some fn \<longrightarrow> fn_typed rt fn)"

lemma symbols_typedD:
  assumes "symbols_typed rt"
  shows "\<exists>h. bb_ht rt = Some h \<and> ht_inv h \<and> (\<forall>n. n \<in># ht_nodes h \<longrightarrow> val n < length (bbs rt))"
    "ht_inv (fn_ht rt)" "\<And>n. n \<in># ht_nodes (fn_ht rt) \<Longrightarrow> fns rt (val n) \<noteq> None"
    "ht_inv (obj_ht rt)" "\<And>n. n \<in># ht_nodes (obj_ht rt) \<Longrightarrow> val n < length (objs rt)"
    "\<And>bb. bb \<in> set (bbs rt) \<Longrightarrow> bb_typed rt bb" "\<And>f fn. fns rt f = Some fn \<Longrightarrow> fn_typed rt fn"
  using assms unfolding symbols_typed_def by blast+

text \<open>What the lookups of a new block may change: the resolver's address, and objects are added.\<close>

definition grown :: "Runtime \<Rightarrow> Runtime \<Rightarrow> bool" where
  "grown rt rt' \<longleftrightarrow> symbols_typed rt' \<and> fns rt' = fns rt \<and> fn_ht rt' = fn_ht rt \<and> bbs rt' = bbs rt \<and> bb_ht rt' = bb_ht rt \<and>
     length (objs rt) \<le> length (objs rt')"

lemma grown_refl: "symbols_typed rt \<Longrightarrow> grown rt rt"
  by (simp add: grown_def)

lemma grown_trans: "grown rt rt1 \<Longrightarrow> grown rt1 rt2 \<Longrightarrow> grown rt rt2"
  by (auto simp: grown_def)

lemma symbols_typed_dl [simp]:
  "symbols_typed (rt\<lparr>dl_runtime_resolve_addr := a\<rparr>) = symbols_typed rt"
  "symbols_typed (rt\<lparr>dl_runtime_resolve_addr := a, dl_runtime_resolve_length := l\<rparr>) = symbols_typed rt"
  "symbols_typed (rt\<lparr>next_function_id := i\<rparr>) = symbols_typed rt"
  by (simp_all add: symbols_typed_def bb_typed_def fn_typed_def)

lemma obj_of_typed:
  assumes "symbols_typed rt"
  shows "\<exists>rt' i. obj_of rt name = Inr (rt', i) \<and> grown rt rt' \<and> i < length (objs rt')"
proof (cases "find_obj rt name")
  case (Some i)
  then have "i < length (objs rt)" by (auto simp: find_obj_def find_Some_iff)
  with Some grown_refl [OF assms] show ?thesis by (simp add: obj_of_def)
next
  case None
  note D = symbols_typedD [OF assms]
  let ?n = "\<lparr>key = ucast (str_hash name), val = length (objs rt)\<rparr>"
  from ht.add_ok [OF D(4), of ?n] obtain h where
    h: "HT_add_node (obj_ht rt) (ucast (str_hash name)) ?n = Inr h" "ht_inv h" "ht_nodes h = add_mset ?n (ht_nodes (obj_ht rt))" by auto
  let ?rt = "rt\<lparr>obj_ht := h, objs := objs rt @ [\<lparr>o_name = name, o_filename = None\<rparr>]\<rparr>"
  have "symbols_typed ?rt"
    unfolding symbols_typed_def
    using D h by (auto simp: bb_typed_def fn_typed_def less_SucI)
  then have "grown rt ?rt" by (simp add: grown_def)
  with None h(1) show ?thesis by (simp add: obj_of_def Let_def)
qed

lemma find_fn_typed: "find_fn rt name = Some f \<Longrightarrow> fns rt f \<noteq> None"
  using find_fn_Some [of rt name f] by auto

section \<open>The search for the resolver\<close>

lemma check_chunks_total:
  "\<exists>st. (st, 0) \<in> set cs \<Longrightarrow> \<forall>(st, len) \<in> set cs. len = 0 \<or> len > 2 \<Longrightarrow> \<exists>b. check_chunks memory addr code cs = Inr b"
proof (induction memory addr code cs rule: check_chunks.induct)
  case (2 memory addr code st len cs)
  show ?case
  proof (cases "len = 0")
    case False
    with 2(2) have "\<exists>st. (st, 0) \<in> set cs" by auto
    with 2(1,3) False show ?thesis by auto
  qed auto
qed simp

lemma check_code_loop_total:
  assumes "\<exists>st. (st, 0) \<in> set (tl (pat_chunk pat))" "\<forall>(st, len) \<in> set (tl (pat_chunk pat)). len = 0 \<or> len > 2"
  shows "(addr < end_addr \<Longrightarrow> unat end_addr - unat addr < fuel) \<Longrightarrow> 0 < fuel \<Longrightarrow>
    \<exists>r. check_code_loop fuel memory addr end_addr code pat = Inr r"
proof (induction fuel arbitrary: addr)
  case (Suc fuel)
  show ?case
  proof (cases "addr < end_addr")
    case True
    have "\<exists>b. (if code_at memory addr (snd (hd (pat_chunk pat))) = take (snd (hd (pat_chunk pat))) code
        then check_chunks memory addr code (tl (pat_chunk pat)) else Inr False) = Inr b"
      using check_chunks_total [OF assms, of memory addr code] by auto
    then obtain b where b: "(if code_at memory addr (snd (hd (pat_chunk pat))) = take (snd (hd (pat_chunk pat))) code
        then check_chunks memory addr code (tl (pat_chunk pat)) else Inr False) = Inr b" by blast
    have lt: "unat addr < unat end_addr" using True by (simp add: word_less_nat_alt)
    have u: "unat end_addr < 2 ^ 64" by (rule order_less_le_trans [OF unsigned_less]) simp
    from lt have s: "unat (addr + 1) = Suc (unat addr)"
      using u by (simp add: unat_word_ariths)
    have "\<exists>r. check_code_loop fuel memory (addr + 1) end_addr code pat = Inr r"
    proof (rule Suc.IH)
      show "addr + 1 < end_addr \<Longrightarrow> unat end_addr - unat (addr + 1) < fuel" using Suc.prems(1) [OF True] lt s by simp
      show "0 < fuel" using Suc.prems(1) [OF True] lt by simp
    qed
    with b True show ?thesis by (cases b) auto
  qed simp
qed simp

lemma search_runtime_resolve_typed:
  assumes "symbols_typed rt"
  shows "\<exists>rt' found. search_runtime_resolve memory rt obj_name st sz = Inr (rt', found) \<and> grown rt rt'"
proof -
  let ?e = "st + sz - of_nat (pat_len resolve_pat) :: u64"
  have "\<exists>r. check_code_loop (unat (?e - st) + 1) memory st ?e resolve_code resolve_pat = Inr r"
  proof (rule check_code_loop_total)
    show "st < ?e \<Longrightarrow> unat ?e - unat st < unat (?e - st) + 1" using unat_sub [of st ?e] by simp
  qed (auto simp: resolve_pat_def)
  then obtain r where "check_code_loop (unat (?e - st) + 1) memory st ?e resolve_code resolve_pat = Inr r" by blast
  note r = this
  have a: "fst (hd (pat_chunk resolve_pat)) = 0 \<and> snd (hd (pat_chunk resolve_pat)) > 2" by (simp add: resolve_pat_def)
  have "check_code memory rt st sz resolve_code resolve_pat = Inr (case r of
      Some addr \<Rightarrow> (rt\<lparr>dl_runtime_resolve_addr := addr, dl_runtime_resolve_length := int (pat_len resolve_pat)\<rparr>, True)
    | None \<Rightarrow> (rt, False))"
    unfolding check_code_def Let_def r using a by simp
  with assms show ?thesis by (cases r) (auto simp: search_runtime_resolve_def grown_def)
qed

section \<open>The creation of a block\<close>

lemma bb_object_typed:
  assumes "symbols_typed rt"
  shows "\<exists>rt' obj name. bb_object di rt target = Inr (rt', obj, name) \<and> grown rt rt' \<and> (\<forall>i. obj = Some i \<longrightarrow> i < length (objs rt'))"
proof (cases "di_object di target")
  case None
  with grown_refl [OF assms] show ?thesis by (simp add: bb_object_def)
next
  case (Some x)
  obtain o_n r where x: "x = (o_n, r)" by (cases x)
  show ?thesis
  proof (cases o_n)
    case None
    with Some x grown_refl [OF assms] show ?thesis by (simp add: bb_object_def)
  next
    case (Some n)
    from obj_of_typed [OF assms, of n] Some x \<open>di_object di target = _\<close> show ?thesis by (auto simp: bb_object_def)
  qed
qed

lemma bb_search_resolve_typed:
  assumes "symbols_typed rt" "\<And>l. b_last = Some l \<Longrightarrow> l < length (bbs rt) \<and> bb_fn (bbs rt ! l) \<noteq> None"
  shows "\<exists>rt' found. bb_search_resolve di rt target bb b_last obj obj_name = Inr (rt', found) \<and> grown rt rt'"
proof (cases "dl_runtime_resolve_addr rt = 0 \<and> \<not> is_dl_runtime_resolve bb \<and> obj_name \<noteq> None \<and> b_last \<noteq> None")
  case True
  then obtain l where l: "b_last = Some l" by blast
  with assms(2) obtain f where f: "l < length (bbs rt)" "bb_fn (bbs rt ! l) = Some f" by blast
  then have "bb_typed rt (bbs rt ! l)" using symbols_typedD(6) [OF assms(1)] by simp
  with f obtain fn where fn: "fns rt f = Some fn" by (auto simp: bb_typed_def)
  obtain st sz where s: "(case di_object di target of Some (_, st, sz) \<Rightarrow> (st, sz) | None \<Rightarrow> (0, 0)) = (st, sz)" by force
  show ?thesis
    using True l f fn s search_runtime_resolve_typed [OF assms(1), of "di_memory di" "the obj_name" st sz] grown_refl [OF assms(1)]
    by (auto simp: bb_search_resolve_def get_bb_def get_fn_def)
next
  case False
  then have "bb_search_resolve di rt target bb b_last obj obj_name = Inr (rt, False)" unfolding bb_search_resolve_def by (rule if_not_P)
  with grown_refl [OF assms(1)] show ?thesis by blast
qed

lemma symbols_typed_fns:
  assumes "symbols_typed rt" "fn_typed rt fn"
  shows "symbols_typed (rt\<lparr>fns := (fns rt)(f := Some fn)\<rparr>)"
  using symbols_typedD [OF assms(1)] assms(2) unfolding symbols_typed_def by (auto simp: bb_typed_def fn_typed_def)

lemma new_function_typed:
  assumes "symbols_typed rt" "\<And>i. obj = Some i \<Longrightarrow> i < length (objs rt)"
  shows "\<exists>rt' f. new_function di rt k name unknown obj = Inr (rt', f) \<and> symbols_typed rt' \<and> fns rt' f \<noteq> None \<and>
    bbs rt' = bbs rt \<and> bb_ht rt' = bb_ht rt"
proof -
  define f where "f = di_new_fn di (fns rt)"
  define rt1 where "rt1 = (if unknown then rt else rt\<lparr>next_function_id := next_function_id rt + 1\<rparr>)"
  let ?hash = "ucast (str_hash name) :: u64"
  have t1: "symbols_typed rt1" using assms(1) by (simp add: rt1_def)
  have e1: "fns rt1 = fns rt" "objs rt1 = objs rt" "bbs rt1 = bbs rt" "bb_ht rt1 = bb_ht rt" by (simp_all add: rt1_def)
  from ht.add_ok [OF symbols_typedD(2) [OF t1], of "\<lparr>key = ?hash, val = f\<rparr>"] obtain h where
    h: "HT_add_node (fn_ht rt1) ?hash \<lparr>key = ?hash, val = f\<rparr> = Inr h" "ht_inv h"
      "ht_nodes h = add_mset \<lparr>key = ?hash, val = f\<rparr> (ht_nodes (fn_ht rt1))" by auto
  obtain fn where fn: "new_function di rt k name unknown obj = Inr (rt1\<lparr>fn_ht := h, fns := (fns rt1)(f := Some fn)\<rparr>, f)"
    "fn_obj fn = obj"
    using h(1) by (auto simp: new_function_def Let_def f_def [symmetric] rt1_def [symmetric])
  have "fn_typed rt1 fn" using assms(2) fn(2) by (simp add: fn_typed_def e1)
  then have t2: "symbols_typed (rt1\<lparr>fns := (fns rt1)(f := Some fn)\<rparr>)" by (rule symbols_typed_fns [OF t1])
  have "symbols_typed (rt1\<lparr>fn_ht := h, fns := (fns rt1)(f := Some fn)\<rparr>)"
    using symbols_typedD [OF t2] h unfolding symbols_typed_def by (auto simp: bb_typed_def fn_typed_def)
  with fn(1) e1 show ?thesis by simp
qed

lemma bb_function_typed:
  assumes "symbols_typed rt" "\<And>i. obj = Some i \<Longrightarrow> i < length (objs rt)"
  shows "\<exists>rt' f. bb_function di rt k hash name unknown obj = Inr (rt', f) \<and> symbols_typed rt' \<and> fns rt' f \<noteq> None \<and>
    bbs rt' = bbs rt \<and> bb_ht rt' = bb_ht rt"
  using new_function_typed [OF assms, where di = di and k = k and name = name and unknown = unknown] assms(1) find_fn_typed [of rt name]
  by (auto simp: bb_function_def split: option.splits)

lemma put_bb_typed:
  assumes "symbols_typed rt" "b < length (bbs rt)" "bb_typed rt bb"
  shows "\<exists>h h'. bb_ht rt = Some h \<and> HT_add_node h (bb_key bb) \<lparr>key = bb_key bb, val = b\<rparr> = Inr h' \<and>
    symbols_typed ((put_bb rt b bb)\<lparr>bb_ht := Some h'\<rparr>)"
proof -
  note D = symbols_typedD [OF assms(1)]
  from D(1) obtain h where h: "bb_ht rt = Some h" "ht_inv h" "\<forall>n. n \<in># ht_nodes h \<longrightarrow> val n < length (bbs rt)" by blast
  from ht.add_ok [OF h(2), of "\<lparr>key = bb_key bb, val = b\<rparr>"] obtain h' where
    h': "HT_add_node h (bb_key bb) \<lparr>key = bb_key bb, val = b\<rparr> = Inr h'" "ht_inv h'"
      "ht_nodes h' = add_mset \<lparr>key = bb_key bb, val = b\<rparr> (ht_nodes h)" by auto
  have "\<forall>x \<in> set ((bbs rt)[b := bb]). bb_typed rt x"
    using set_update_subset_insert [of "bbs rt" b bb] D(6) assms(3) by blast
  then have "symbols_typed ((put_bb rt b bb)\<lparr>bb_ht := Some h'\<rparr>)"
    using D h h' assms(2) unfolding symbols_typed_def put_bb_def by (auto simp: bb_typed_def fn_typed_def)
  with h(1) h'(1) show ?thesis by blast
qed

lemma symbols_typed_bbs:
  assumes "symbols_typed rt"
  shows "symbols_typed (rt\<lparr>bbs := bbs rt @ [new_BB]\<rparr>)"
proof -
  let ?rt = "rt\<lparr>bbs := bbs rt @ [new_BB]\<rparr>"
  note D = symbols_typedD [OF assms]
  from D(1) obtain h where h: "bb_ht rt = Some h" "ht_inv h" "\<forall>n. n \<in># ht_nodes h \<longrightarrow> val n < length (bbs rt)" by blast
  then have "\<exists>h. bb_ht ?rt = Some h \<and> ht_inv h \<and> (\<forall>n. n \<in># ht_nodes h \<longrightarrow> val n < length (bbs ?rt))" by (simp add: less_SucI)
  moreover have "\<forall>bb \<in> set (bbs ?rt). bb_typed ?rt bb" using D(6) by (simp add: bb_typed_def new_BB_def)
  moreover have "\<forall>f fn. fns ?rt f = Some fn \<longrightarrow> fn_typed ?rt fn" using D(7) by (simp add: fn_typed_def)
  ultimately show ?thesis unfolding symbols_typed_def using D(2-5) by simp
qed

lemma get_BB_typed:
  assumes "symbols_typed rt"
  shows "\<exists>rt' b. get_BB rt target = Inr (rt', b) \<and> symbols_typed rt' \<and> b < length (bbs rt')"
proof -
  from symbols_typedD(1) [OF assms] obtain h where h: "bb_ht rt = Some h" "ht_inv h" "\<forall>n. n \<in># ht_nodes h \<longrightarrow> val n < length (bbs rt)" by blast
  show ?thesis
  proof (cases "HT_lookup h target")
    case None
    with h(1) symbols_typed_bbs [OF assms] show ?thesis by (simp add: get_BB_def)
  next
    case (Some n)
    with ht.lookup_Some [OF h(2) Some] h assms show ?thesis by (simp add: get_BB_def)
  qed
qed

lemma bb_fn_name_typed:
  assumes "symbols_typed rt" "bb_fn_name di rt target bb = (rt1, bb1, name)"
  shows "grown rt rt1 \<and> objs rt1 = objs rt \<and> bb_key bb1 = target"
  using assms by (auto simp: bb_fn_name_def grown_def Let_def split: if_splits)

lemma bb_create_typed:
  assumes T: "symbols_typed rt" and b: "b < length (bbs rt)"
    and l: "\<And>l. b_last = Some l \<Longrightarrow> l < length (bbs rt) \<and> bb_fn (bbs rt ! l) \<noteq> None"
  shows "\<exists>rt' bb f. bb_create di rt target b b_last = Inr rt' \<and> symbols_typed rt' \<and> bbs rt' = (bbs rt)[b := bb] \<and>
    bb_key bb = target \<and> bb_fn bb = Some f \<and> fns rt' f \<noteq> None"
proof -
  obtain rt1 bb1 name1 where n1: "bb_fn_name di rt target (bbs rt ! b) = (rt1, bb1, name1)" by (cases "bb_fn_name di rt target (bbs rt ! b)")
  from bb_fn_name_typed [OF T n1] have g1: "grown rt rt1" "symbols_typed rt1" "bb_key bb1 = target" by (auto simp: grown_def)
  have e1: "bbs rt1 = bbs rt" "bb_ht rt1 = bb_ht rt" "fns rt1 = fns rt" using g1(1) by (simp_all add: grown_def)
  define f1 where "f1 = (case name1 of Some n \<Rightarrow> find_fn rt1 n | None \<Rightarrow> None)"
  have f1: "\<And>f. f1 = Some f \<Longrightarrow> fns rt1 f \<noteq> None" using find_fn_typed by (auto simp: f1_def split: option.splits)
  have "\<exists>need. (case f1 of None \<Rightarrow> Inr True | Some f \<Rightarrow> bindR (get_fn rt1 f) (\<lambda>fn. Inr (fn_obj fn = None))) = Inr need"
    using f1 by (cases f1) (auto simp: get_fn_def)
  then obtain need where need: "(case f1 of None \<Rightarrow> Inr True | Some f \<Rightarrow> bindR (get_fn rt1 f) (\<lambda>fn. Inr (fn_obj fn = None))) = Inr need" ..
  have "\<exists>rt3 obj found. (if need
               then bindR (bb_object di rt1 target) (\<lambda>(rt2, obj, obj_name).
                    bindR (bb_search_resolve di rt2 target bb1 b_last obj obj_name) (\<lambda>(rt3, found).
                    Inr (rt3, obj, found)))
               else Inr (rt1, None, False)) = Inr (rt3, obj, found) \<and> grown rt1 rt3 \<and> (\<forall>i. obj = Some i \<longrightarrow> i < length (objs rt3))"
  proof (cases need)
    case True
    from bb_object_typed [OF g1(2), of di target] obtain rt2 obj on where
      o: "bb_object di rt1 target = Inr (rt2, obj, on)" "grown rt1 rt2" "\<forall>i. obj = Some i \<longrightarrow> i < length (objs rt2)" by blast
    then have t2: "symbols_typed rt2" "bbs rt2 = bbs rt" using e1 by (simp_all add: grown_def)
    have "\<And>l. b_last = Some l \<Longrightarrow> l < length (bbs rt2) \<and> bb_fn (bbs rt2 ! l) \<noteq> None" using l t2(2) by simp
    from bb_search_resolve_typed [OF t2(1) this, where di = di and target = target and bb = bb1 and obj = obj and obj_name = on] obtain rt3 found where
      s: "bb_search_resolve di rt2 target bb1 b_last obj on = Inr (rt3, found)" "grown rt2 rt3" by blast
    have "\<forall>i. obj = Some i \<longrightarrow> i < length (objs rt3)" using o(3) s(2) by (auto simp: grown_def)
    with True o(1) s(1) grown_trans [OF o(2) s(2)] show ?thesis by auto
  qed (use grown_refl [OF g1(2)] in auto)
  then obtain rt3 obj found where o: "(if need
               then bindR (bb_object di rt1 target) (\<lambda>(rt2, obj, obj_name).
                    bindR (bb_search_resolve di rt2 target bb1 b_last obj obj_name) (\<lambda>(rt3, found).
                    Inr (rt3, obj, found)))
               else Inr (rt1, None, False)) = Inr (rt3, obj, found)"
    "grown rt1 rt3" "\<And>i. obj = Some i \<Longrightarrow> i < length (objs rt3)" by blast
  have t3: "symbols_typed rt3" "bbs rt3 = bbs rt" "fns rt3 = fns rt1" using o(2) e1 by (simp_all add: grown_def)
  define bb2 where "bb2 = (if found then bb1\<lparr>is_dl_runtime_resolve := True\<rparr> else bb1)"
  define inside where "inside = in_resolve rt3 target bb2"
  define bb3 where "bb3 = (if inside then bb2\<lparr>is_dl_runtime_resolve := True\<rparr> else bb2)"
  define name3 where "name3 = (if inside then Some ''_dl_runtime_resolve'' else if found then Some ''_dl_runtime_resolve'' else name1)"
  define name4 where "name4 = (case name3 of Some n \<Rightarrow> n | None \<Rightarrow> unknown_name bb3)"
  let ?hash = "case name1 of Some n \<Rightarrow> str_hash n | None \<Rightarrow> 0"
  have k3: "bb_key bb3 = target" using g1(3) by (simp add: bb3_def bb2_def)
  have "\<exists>rt4 f. (case f1 of Some f \<Rightarrow> Inr (rt3, f) | None \<Rightarrow> bb_function di rt3 target ?hash name4 (name3 = None) obj) = Inr (rt4, f) \<and>
      symbols_typed rt4 \<and> fns rt4 f \<noteq> None \<and> bbs rt4 = bbs rt3"
    using bb_function_typed [where obj = obj and rt = rt3, OF t3(1) o(3), where di = di and k = target and hash = ?hash and name = name4 and unknown = "name3 = None"] t3 f1 by (cases f1) auto
  then obtain rt4 f fn where r4: "(case f1 of Some f \<Rightarrow> Inr (rt3, f) | None \<Rightarrow> bb_function di rt3 target ?hash name4 (name3 = None) obj) = Inr (rt4, f)"
    "symbols_typed rt4" "fns rt4 f = Some fn" "bbs rt4 = bbs rt" using t3(2) by auto
  define rt5 where "rt5 = (if is_dl_runtime_resolve bb3 then rt4\<lparr>fns := (fns rt4)(f := Some (fn\<lparr>fn_skip := True\<rparr>))\<rparr> else rt4)"
  have "fn_typed rt4 (fn\<lparr>fn_skip := True\<rparr>)" using symbols_typedD(7) [OF r4(2,3)] by (simp add: fn_typed_def)
  then have t5: "symbols_typed rt5" "bbs rt5 = bbs rt" "fns rt5 f \<noteq> None"
    using symbols_typed_fns [OF r4(2)] r4(2,3,4) by (simp_all add: rt5_def)
  let ?bb = "bb3\<lparr>bb_fn := Some f, instr_offset := 0\<rparr>"
  have "bb_typed rt5 ?bb" using t5(3) by (simp add: bb_typed_def)
  from put_bb_typed [OF t5(1) _ this, where b = b] b t5(2) obtain h h' where
    h: "bb_ht rt5 = Some h" "HT_add_node h (bb_key ?bb) \<lparr>key = bb_key ?bb, val = b\<rparr> = Inr h'"
      "symbols_typed ((put_bb rt5 b ?bb)\<lparr>bb_ht := Some h'\<rparr>)" by auto
  have "bb_create di rt target b b_last = Inr ((put_bb rt5 b ?bb)\<lparr>bb_ht := Some h'\<rparr>)"
    unfolding bb_create_def get_bb_def if_P [OF b] bindR_simps n1 Let_def prod.case f1_def [symmetric] need o(1)
      bb2_def [symmetric] inside_def [symmetric] bb3_def [symmetric] name3_def [symmetric] name4_def [symmetric] r4(1)
    using r4(3) h(1,2) by (simp add: get_fn_def rt5_def [symmetric])
  with h(3) k3 t5(2,3) show ?thesis
    by (intro exI [of _ "(put_bb rt5 b ?bb)\<lparr>bb_ht := Some h'\<rparr>"] exI [of _ ?bb] exI [of _ f]) (simp add: put_bb_def)
qed

definition blocks_resolved :: "Runtime \<Rightarrow> bool" where
  "blocks_resolved rt \<longleftrightarrow> (\<forall>bb \<in> set (bbs rt). bb_key bb \<noteq> 0 \<longrightarrow> bb_fn bb \<noteq> None)"

text \<open>The blocks of a run as \<open>instrument\<close> and \<open>BB_start\<close> take them: each is looked up or added, and
  completed the first time it is executed.\<close>

fun block_run :: "DebugInfo \<Rightarrow> u64 list \<Rightarrow> Runtime \<Rightarrow> nat option \<Rightarrow> (Runtime \<times> nat option) res" where
  "block_run di [] rt b_last = Inr (rt, b_last)"
| "block_run di (target # ts) rt b_last =
     bindR (get_BB rt target) (\<lambda>(rt1, b).
     bindR (get_bb rt1 b) (\<lambda>bb.
     bindR (if bb_key bb = 0 then bb_create di rt1 target b b_last else Inr rt1) (\<lambda>rt2.
       block_run di ts rt2 (Some b))))"

definition executed :: "Runtime \<Rightarrow> nat option \<Rightarrow> bool" where
  "executed rt b_last \<longleftrightarrow> (\<forall>l. b_last = Some l \<longrightarrow> l < length (bbs rt) \<and> bb_fn (bbs rt ! l) \<noteq> None)"

lemma get_BB_bbs: "get_BB rt target = Inr (rt1, b) \<Longrightarrow> bbs rt1 = bbs rt \<or> bbs rt1 = bbs rt @ [new_BB]"
  by (auto simp: get_BB_def res_simps split: option.splits)

lemma block_run_typed:
  assumes "symbols_typed rt" "blocks_resolved rt" "executed rt b_last"
  shows "\<exists>rt' b_last'. block_run di ts rt b_last = Inr (rt', b_last') \<and> symbols_typed rt' \<and> blocks_resolved rt' \<and> executed rt' b_last'"
  using assms
proof (induction ts arbitrary: rt b_last)
  case (Cons target ts)
  from get_BB_typed [OF Cons.prems(1), of target] obtain rt1 b where
    g: "get_BB rt target = Inr (rt1, b)" "symbols_typed rt1" "b < length (bbs rt1)" by blast
  from get_BB_bbs [OF g(1)] have r1: "blocks_resolved rt1" and l1: "executed rt1 b_last"
    using Cons.prems(2,3) by (auto simp: blocks_resolved_def executed_def new_BB_def nth_append)
  have "\<exists>rt2. (if bb_key (bbs rt1 ! b) = 0 then bb_create di rt1 target b b_last else Inr rt1) = Inr rt2 \<and>
      symbols_typed rt2 \<and> blocks_resolved rt2 \<and> executed rt2 (Some b)"
  proof (cases "bb_key (bbs rt1 ! b) = 0")
    case True
    have "\<And>l. b_last = Some l \<Longrightarrow> l < length (bbs rt1) \<and> bb_fn (bbs rt1 ! l) \<noteq> None" using l1 by (simp add: executed_def)
    from bb_create_typed [OF g(2,3) this, where di = di and target = target] obtain rt2 bb f where
      c: "bb_create di rt1 target b b_last = Inr rt2" "symbols_typed rt2" "bbs rt2 = (bbs rt1)[b := bb]" "bb_fn bb = Some f" by blast
    have "blocks_resolved rt2"
      unfolding blocks_resolved_def c(3)
      using set_update_subset_insert [of "bbs rt1" b bb] r1 c(4) by (auto simp: blocks_resolved_def)
    with True c g(3) show ?thesis by (simp add: executed_def)
  next
    case False
    with r1 g(3) have "bb_fn (bbs rt1 ! b) \<noteq> None" by (simp add: blocks_resolved_def)
    with False g r1 show ?thesis by (simp add: executed_def)
  qed
  then obtain rt2 where r2: "(if bb_key (bbs rt1 ! b) = 0 then bb_create di rt1 target b b_last else Inr rt1) = Inr rt2"
      "symbols_typed rt2" "blocks_resolved rt2" "executed rt2 (Some b)" by blast
  from Cons.IH [OF r2(2-4)] r2(1) g show ?case by (simp add: get_bb_def)
qed simp

lemma init_typed:
  assumes "init c exename args mtime = Inr rt" "function_tracing c"
  shows "symbols_typed rt" "blocks_resolved rt" "executed rt None"
  using assms
  by (auto simp: init_def res_simps symbols_typed_def blocks_resolved_def executed_def HT_construct_ok)

definition plain_di :: DebugInfo where
  "plain_di = \<lparr>sect_kind = (\<lambda>_. Vg_SectText), fnname_if_entry = (\<lambda>a. if a = 1 then Some ''main'' else None),
     fnname = (\<lambda>_. Some ''main''), fnname_mangled = (\<lambda>_. None), di_object = (\<lambda>_. Some (Some ''prog'', 1, 100)),
     di_memory = (\<lambda>_. 0), di_new_fn = (\<lambda>_. 1)\<rparr>"

text \<open>C9. Nothing refers to what is not there.  From the initial state, for every sequence of blocks and
  whatever the debug information answers, looking up the blocks and completing them at their first
  execution never fails, every completed block has a function, and all references of the
  tables are good: blocks to functions, functions to objects, hash nodes to blocks, functions and objects.\<close>

theorem symbols_stay_typed:
  assumes "init c exename args mtime = Inr rt" "function_tracing c"
  shows "\<exists>rt' b_last. block_run di ts rt None = Inr (rt', b_last) \<and> symbols_typed rt' \<and> blocks_resolved rt'"
  using block_run_typed [OF init_typed [OF assms], of di ts] by blast

theorem symbols_stay_typed_witness:
  "\<exists>rt' b_last. bindR (init default_params ''prog'' [] 0) (\<lambda>rt. block_run plain_di [1, 2, 1] rt None) = Inr (rt', b_last) \<and>
     symbols_typed rt' \<and> blocks_resolved rt'"
proof -
  obtain rt where "init default_params ''prog'' [] 0 = Inr rt" by (simp add: init_def default_params_def)
  from symbols_stay_typed [OF this, of plain_di "[1, 2, 1]"] this show ?thesis by (simp add: default_params_def)
qed

end
