(* ===== verification/Spec2Isabelle.thy ===== *)
theory Spec2Isabelle
  imports Prelude HashTable LookupTable DataModel CCT Util Overflow Functions Memory RMS Files Libc Report Merge Symbols BBStart Threads Blocks Runs Instrument Syscall DRMSProfile Helper Exits Resolved Renumber
    Callstack Profile
begin

text \<open>
  The input-sensitive profiler aprof, a Valgrind tool (\<open>src/valgrind/aprof\<close>), and the program that
  merges its reports (\<open>extra/aprof-helper.c\<close>), as HOL functions.

  \<^bold>\<open>The program.\<close> Valgrind translates the client program block by block.  \<open>instrument\<close> (\<open>main.c\<close>,
  \<open>events.c\<close>) inserts calls of the tool: one at the start of each block (\<open>BB_start\<close>, \<open>callstack.c\<close>)
  and one for each load, store and modify (\<open>memory.c\<close>).  From the stack pointer and the end of the
  last block \<open>BB_start\<close> keeps a shadow stack of activations, whose entry and exit (\<open>function.c\<close>)
  measure costs in blocks; the handlers of accesses consult a three-level shadow memory of timestamps
  (\<open>lookup_table.c\<close>) and count for each activation its input size: the cells it reads before it writes
  them (RMS), or also those written since by the kernel (\<open>syscall.c\<close>) and by other threads (DRMS).
  When a counter of timestamps runs over, the timestamps are renumbered (\<open>overflow.c\<close>).  The exits of a
  routine are summarised per input size in hash tables (\<open>hashtable/\<close>), with a calling context tree
  (\<open>cct.c\<close>) when asked for.  When a thread exits (\<open>thread.c\<close>) its pending calls are filed and a
  report is written (\<open>report.c\<close>, \<open>fwrite.c\<close>); reports can be read back and added up (\<open>merge.c\<close>).

  \<^bold>\<open>The build.\<close> amd64-linux with the defaults of \<open>aprof.h\<close>: \<open>COST\<close> is \<open>BB_COUNT\<close>, \<open>INPUT_STATS\<close>,
  \<open>CHECK_ADDR_OVERFLOW\<close> and \<open>SKIP_DL_RUNTIME\<close> are on, \<open>DEBUG\<close>, \<open>DEBUG_ALLOCATION\<close> and \<open>EVENTCOUNT\<close> off.
  Machine integers are words of their width.  A failed assertion, a null or dangling pointer, an index out
  of bounds and a loop that makes no progress are values of \<open>err\<close> (theory Prelude), so that a
  theorem that an operation is \<open>Inr\<close> excludes all of them.

  \<^bold>\<open>Theories and sources.\<close>
  \<^item> Prelude: failures as values, lemmas on lists and words.  Libc: the functions of Valgrind's C library
    the tool calls (\<open>m_libcbase.c\<close>, \<open>m_libcprint.c\<close>).
  \<^item> HashTable (\<open>hashtable.c\<close>): the table is its list of chains; the locale \<open>hash_map\<close> states what its
    clients rely on and is interpreted on it as \<open>ht\<close>.  LookupTable (\<open>lookup_table.c\<close>): the shadow
    memory, its compression, and the abstraction \<open>LK_sm\<close> to one array of timestamps (locale
    \<open>shadow_memory\<close>, interpreted as \<open>lk\<close>).
  \<^item> DataModel (\<open>data-common.h\<close>, \<open>aprof.h\<close>): the structures as records, the access macros.  Util
    (\<open>util.c\<close>), CCT (\<open>cct.c\<close>), Overflow (\<open>overflow.c\<close>), Functions (\<open>function.c\<close>, \<open>cost.c\<close>), Memory
    (\<open>memory.c\<close>), Callstack, Symbols and BBStart (\<open>callstack.c\<close>), Threads (\<open>thread.c\<close>, \<open>main.c\<close>),
    Syscall (\<open>syscall.c\<close>), Instrument (\<open>events.c\<close>, \<open>main.c\<close>), Files (\<open>fwrite.c\<close>), Report
    (\<open>report.c\<close>), Merge (\<open>merge.c\<close>), Helper (\<open>extra/aprof-helper.c\<close>).
  \<^item> RMS, Profile, Frames, Blocks, Runs, DRMS, DRMSEvents, DRMSProfile, Renumber, Exits and Resolved hold no further
    operations but what those of the components do together.

  A pointer into an array is an index that is checked at each access; the objects the tool allocates once
  (blocks, ELF objects, context nodes) are positions in lists of the runtime; functions have an
  address, which is also a hash key.  Every C function is a definition of its name, its inner loops and
  branches definitions of their own.

  \<^bold>\<open>What is shown.\<close>
  \<^item> Profile: the specification is a list of calls, each with the set of cells it has accessed and of those
    it read first; a return appends an entry (function, input size, costs) to a log.  \<open>sim\<close> relates the
    state of a thread to it; every call, return, access and block preserves it (\<open>step_ok\<close>).  RMS has
    the core of it, the timestamps: the increments and decrements of partial sizes keep the
    sum of sizes from an activation upwards equal to the number of cells its frame read first.  Exits goes on
    to the report: the content of the file is a function of the log.
  \<^item> Blocks and Runs: the heuristics of \<open>BB_start\<close> refine a specification that recognises calls and
    returns by the places on the client's stack.
  \<^item> DRMS, DRMSEvents, DRMSProfile: the same with several threads, the global shadow memory and
    system calls; timestamps are the values of one counter, and the invariant holds in every state the tool
    reaches (\<open>reachable\<close>).
  \<^item> HashTable and LookupTable: insertion, lookup, iteration (which ends), growth; indices in bounds; both
    compressions keep the order of timestamps that the handlers compare.
  \<^item> Renumber: the overflow handler merges the stacks of all threads into the sorted array the compression
    needs; afterwards identifiers and timestamps compare as before, all below the new counter.
  \<^item> Resolved: new blocks always get a function, and no table refers to something that does not exist.
  \<^item> Files, Report, Merge: buffering is invisible, a report does not replace another, a printed tuple is read
    back and merged as it was; and what is lost when a write fails or a line is long.
  \<^item> Instrument: no access of a block is dropped or reordered by the queue of events; accepted options
    lead to a state the tool can run in.
  \<^item> Helper: the cyclic scan over a list with holes is a plain recursion over groups; the classes by
    process; the options.

  \<^bold>\<open>Bounds and fuel.\<close> Loops recurse on their data or have a measure.  The loops with fuel are called with a
  bound that is enough, and the theorems show it by never having \<open>Diverges\<close> as a result: the stack
  depth for \<open>pop_loop\<close> and \<open>unwind_loop\<close> (each round lowers it), the size for \<open>flush_loop\<close>, the number of
  reports squared for \<open>scan_loop\<close>, the number of nodes for the trees, the length of the code for
  \<open>check_code_loop\<close>.  A stack holds fewer than \<open>MAX_STACK_SIZE\<close> activations (the tool asserts
  it); addresses are below \<open>2 ^ 46\<close>; the runs under DRMS end before the counter reaches its maximum,
  the renumbering that follows is shown in theory Renumber to be possible in all of their states.

  \<^bold>\<open>Parameters.\<close> What the tool asks Valgrind for is an argument of the definitions: debug information
  (\<open>DebugInfo\<close>), the stack pointer, files and writes (\<open>Env\<close>), floating point addition (\<open>Libs\<close>), the
  memory of the client in \<open>readv\<close> and \<open>writev\<close>.  In Helper the \<open>EXTERNAL\<close> build of \<open>merge_report\<close> and
  \<open>print_report\<close> is a parameter (\<open>HEnv\<close>).

  \<^bold>\<open>Not modelled.\<close> \<open>debug.c\<close>, \<open>trace_function\<close> and the client requests (compiled out);
  \<open>print_usage\<close> and \<open>print_info_mem_usage\<close>, which only print, and the registration of callbacks in
  \<open>pre_clo_init\<close>; \<open>LK_destroy\<close> and \<open>destroy_object\<close>, which only free memory (allocation does not fail in
  the model and freed memory is not reused); \<open>post_merge_consistency\<close>, which returns at once; the
  floating point sums of squares of the helper.  The rest of Valgrind and of the repository (other tools,
  plotters) is not part of the profiler.
\<close>

end
